(* ===== verification/Prelude.thy ===== *)
theory Prelude
  imports Main "HOL-Library.Word"
begin

text \<open>
  Shared vocabulary of the development.

  A C++ operation that can stop the program (a failed \<^verbatim>\<open>assert\<close>, an access outside an
  array, a null dereference, an uncaught exception) is modelled by a function into
  \<open>'a res\<close>, with \<open>Inl\<close> for the fault and \<open>Inr\<close> for the normal result. The
  theory holds that type, sequencing of such operations (\<open>rbind\<close>), the library
  algorithms the sources call (\<^verbatim>\<open>std::find\<close>, \<^verbatim>\<open>std::search\<close>, \<^verbatim>\<open>std::copy\<close>),
  the byte image of machine integers, decimal printing and scanning, and the generic
  lemmas the components share.
\<close>

datatype fault =
    AssertFail
  | BadAccess
  | Throw string

type_synonym 'a res = "fault + 'a"

definition rbind :: "'a res \<Rightarrow> ('a \<Rightarrow> 'b res) \<Rightarrow> 'b res" where
  "rbind m f = (case m of Inl e \<Rightarrow> Inl e | Inr x \<Rightarrow> f x)"

definition is_ok :: "'a res \<Rightarrow> bool" where
  "is_ok m = (case m of Inl _ \<Rightarrow> False | Inr _ \<Rightarrow> True)"

text \<open>A loop that runs a fallible body over a list and stops at the first fault.\<close>

fun foldM :: "('s \<Rightarrow> 'a \<Rightarrow> 's res) \<Rightarrow> 's \<Rightarrow> 'a list \<Rightarrow> 's res" where
  "foldM f s [] = Inr s"
| "foldM f s (x # xs) = rbind (f s x) (\<lambda>s'. foldM f s' xs)"

text \<open>Vector element access: out of range is a fault, never an unspecified value.\<close>

definition at :: "'a list \<Rightarrow> nat \<Rightarrow> 'a res" where
  "at xs i = (if i < length xs then Inr (xs ! i) else Inl BadAccess)"

text \<open>\<^verbatim>\<open>std::find\<close> over a range: the offset of the first match, or the length.\<close>

fun find_idx :: "('a \<Rightarrow> bool) \<Rightarrow> 'a list \<Rightarrow> nat" where
  "find_idx P [] = 0"
| "find_idx P (x # xs) = (if P x then 0 else Suc (find_idx P xs))"

text \<open>\<^verbatim>\<open>std::search\<close>: the offset of the first occurrence of a pattern, or the length.\<close>

fun search :: "'a list \<Rightarrow> 'a list \<Rightarrow> nat" where
  "search pat [] = 0"
| "search pat (x # xs) =
     (if take (length pat) (x # xs) = pat then 0 else Suc (search pat xs))"

text \<open>\<^verbatim>\<open>std::copy\<close> of \<open>src\<close> to offset \<open>i\<close> of \<open>dst\<close>.\<close>

definition blit :: "'a list \<Rightarrow> nat \<Rightarrow> 'a list \<Rightarrow> 'a list" where
  "blit dst i src = take i dst @ src @ drop (i + length src) dst"

text \<open>\<^verbatim>\<open>vector::resize\<close> with a fill value.\<close>

definition resize :: "'a list \<Rightarrow> nat \<Rightarrow> 'a \<Rightarrow> 'a list" where
  "resize xs n z = take n xs @ replicate (n - length xs) z"

text \<open>The bytes of an unsigned integer as they lie in the memory of a little-endian host.\<close>

fun mem_bytes :: "nat \<Rightarrow> nat \<Rightarrow> string" where
  "mem_bytes 0 v = []"
| "mem_bytes (Suc n) v = char_of (v mod 256) # mem_bytes n (v div 256)"

fun of_mem :: "string \<Rightarrow> nat" where
  "of_mem [] = 0"
| "of_mem (c # cs) = of_char c + 256 * of_mem cs"

text \<open>
  \<^verbatim>\<open>std::to_string\<close> on integers, and \<^verbatim>\<open>atoi\<close>: skip white space, read an optional sign,
  then digits up to the first character that is none.
\<close>

definition digit_char :: "nat \<Rightarrow> char" where
  "digit_char d = char_of (48 + d)"

fun dec_nat :: "nat \<Rightarrow> string" where
  "dec_nat n = (if n < 10 then [digit_char n] else dec_nat (n div 10) @ [digit_char (n mod 10)])"

declare dec_nat.simps [simp del]

definition to_string :: "int \<Rightarrow> string" where
  "to_string i = (if i < 0 then CHR ''-'' # dec_nat (nat (- i)) else dec_nat (nat i))"

definition is_digit :: "char \<Rightarrow> bool" where
  "is_digit c \<longleftrightarrow> 48 \<le> (of_char c :: nat) \<and> (of_char c :: nat) \<le> 57"

definition is_space :: "char \<Rightarrow> bool" where
  "is_space c \<longleftrightarrow> c = CHR '' '' \<or> (9 \<le> (of_char c :: nat) \<and> (of_char c :: nat) \<le> 13)"

fun scan_digits :: "nat \<Rightarrow> string \<Rightarrow> nat" where
  "scan_digits acc [] = acc"
| "scan_digits acc (c # cs) =
     (if is_digit c then scan_digits (10 * acc + (of_char c - 48)) cs else acc)"

definition atoi :: "string \<Rightarrow> int" where
  "atoi s =
     (case dropWhile is_space s of
        [] \<Rightarrow> 0
      | c # cs \<Rightarrow>
          if c = CHR ''-'' then - int (scan_digits 0 cs)
          else if c = CHR ''+'' then int (scan_digits 0 cs)
          else int (scan_digits 0 (c # cs)))"

text \<open>Cutting a string at a separator, dropping empty pieces and any unterminated tail.\<close>

fun cut :: "char \<Rightarrow> string \<Rightarrow> string \<Rightarrow> string list \<times> string" where
  "cut sep tmp [] = ([], tmp)"
| "cut sep tmp (c # cs) =
     (if c \<noteq> sep then cut sep (tmp @ [c]) cs
      else let (ps, rest) = cut sep [] cs
           in (if tmp \<noteq> [] then tmp # ps else ps, rest))"

named_theorems res_simps
named_theorems list_algo

subsection \<open>Results\<close>

lemma rbind_Inr [simp, res_simps]: "rbind (Inr x) f = f x"
  by (simp add: rbind_def)

lemma rbind_Inl [simp, res_simps]: "rbind (Inl e) f = Inl e"
  by (simp add: rbind_def)

lemma rbind_eq_Inr: "rbind m f = Inr y \<longleftrightarrow> (\<exists>x. m = Inr x \<and> f x = Inr y)"
  by (cases m) simp_all

lemma rbind_assoc: "rbind (rbind m f) g = rbind m (\<lambda>x. rbind (f x) g)"
  by (cases m) simp_all

lemma is_ok_simps [simp]: "is_ok (Inr x)" "\<not> is_ok (Inl e)"
  by (simp_all add: is_ok_def)

lemma is_ok_iff: "is_ok m \<longleftrightarrow> (\<exists>x. m = Inr x)"
  by (cases m) simp_all

lemma foldM_append: "foldM f s (xs @ ys) = rbind (foldM f s xs) (\<lambda>s'. foldM f s' ys)"
  by (induction xs arbitrary: s) (simp_all add: rbind_assoc)

lemma foldM_invariant:
  assumes "foldM f s xs = Inr s'" "I s"
    and step: "\<And>s x s'. I s \<Longrightarrow> x \<in> set xs \<Longrightarrow> f s x = Inr s' \<Longrightarrow> I s'"
  shows "I s'"
  using assms
proof (induction xs arbitrary: s)
  case (Cons x xs)
  from Cons.prems(1) obtain t where t: "f s x = Inr t" "foldM f t xs = Inr s'"
    by (auto simp: rbind_eq_Inr)
  have "I t" by (rule Cons.prems(3) [OF Cons.prems(2) _ t(1)]) simp
  with t(2) show ?case by (rule Cons.IH) (rule Cons.prems(3), auto)
qed simp

lemma at_ok [simp]: "i < length xs \<Longrightarrow> at xs i = Inr (xs ! i)"
  by (simp add: at_def)

lemma at_eq_Inr: "at xs i = Inr x \<longleftrightarrow> i < length xs \<and> xs ! i = x"
  by (simp add: at_def)

subsection \<open>Library algorithms\<close>

lemma find_idx_le [simp]: "find_idx P xs \<le> length xs"
  by (induction xs) auto

lemma find_idx_hit: "find_idx P xs < length xs \<Longrightarrow> P (xs ! find_idx P xs)"
  by (induction xs) (auto split: if_splits)

lemma find_idx_before: "i < find_idx P xs \<Longrightarrow> \<not> P (xs ! i)"
proof (induction xs arbitrary: i)
  case (Cons x xs)
  then show ?case by (cases i) (auto split: if_splits)
qed simp

lemma find_idx_none: "find_idx P xs = length xs \<longleftrightarrow> (\<forall>x \<in> set xs. \<not> P x)"
  by (induction xs) auto

lemma find_idx_append [list_algo]:
  "(\<forall>x \<in> set xs. \<not> P x) \<Longrightarrow> P y \<Longrightarrow> find_idx P (xs @ y # ys) = length xs"
  by (induction xs) auto

lemma search_le [simp]: "search pat xs \<le> length xs"
  by (induction xs) auto

lemma search_hit:
  "search pat xs < length xs \<Longrightarrow> take (length pat) (drop (search pat xs) xs) = pat"
  by (induction xs) (auto split: if_splits)

lemma search_before:
  "i < search pat xs \<Longrightarrow> take (length pat) (drop i xs) \<noteq> pat"
proof (induction xs arbitrary: i)
  case (Cons x xs)
  then show ?case by (cases i) (auto split: if_splits)
qed simp

lemma search_hit_bound:
  assumes "search pat xs < length xs"
  shows "search pat xs + length pat \<le> length xs"
proof -
  have "length (take (length pat) (drop (search pat xs) xs)) = length pat"
    using search_hit [OF assms] by simp
  then show ?thesis using assms by simp
qed

lemma search_miss_nonempty: "search pat s \<noteq> length s \<Longrightarrow> s \<noteq> []"
  by (cases s) auto

lemma search_append:
  "search pat xs < length xs \<Longrightarrow> search pat (xs @ ys) = search pat xs"
proof (induction xs)
  case (Cons x xs)
  show ?case
  proof (cases "take (length pat) (x # xs) = pat")
    case True
    then have "length pat \<le> length (x # xs)"
      by (metis length_take min.cobounded1)
    then have "take (length pat) (x # xs @ ys) = take (length pat) (x # xs)"
      using take_append [of "length pat" "x # xs" ys] by simp
    with True show ?thesis by simp
  next
    case False
    with Cons.prems have lt: "search pat xs < length xs" by simp
    have "take (length pat) (x # xs @ ys) \<noteq> pat"
    proof
      assume *: "take (length pat) (x # xs @ ys) = pat"
      have "length pat \<le> length (x # xs)"
        using search_hit_bound [OF lt] by simp
      then have "take (length pat) (x # xs @ ys) = take (length pat) (x # xs)"
        using take_append [of "length pat" "x # xs" ys] by simp
      with * False show False by simp
    qed
    with False lt Cons.IH show ?thesis by simp
  qed
qed simp

text \<open>A two-element pattern whose first element does not occur before it is found there.\<close>

lemma search_pair [list_algo]:
  "a \<notin> set xs \<Longrightarrow> search [a, b] (xs @ a # b # ys) = length xs"
  by (induction xs) auto

lemma length_blit [simp]: "i + length src \<le> length dst \<Longrightarrow> length (blit dst i src) = length dst"
  by (simp add: blit_def)

lemma take_blit [simp]: "i \<le> length dst \<Longrightarrow> take i (blit dst i src) = take i dst"
  by (simp add: blit_def)

lemma drop_blit_at: "i \<le> length dst \<Longrightarrow> drop i (blit dst i src) = src @ drop (i + length src) dst"
  by (simp add: blit_def)

lemma drop_blit_end:
  "length src \<le> n \<Longrightarrow> n \<le> length dst \<Longrightarrow>
     drop (n - length src) (blit dst (n - length src) src) = src @ drop n dst"
  by (simp add: drop_blit_at)

lemma length_resize [simp]: "length (resize xs n z) = n"
  by (simp add: resize_def)

lemma resize_grow: "length xs \<le> n \<Longrightarrow> resize xs n z = xs @ replicate (n - length xs) z"
  by (simp add: resize_def)

subsection \<open>Bytes of integers\<close>

lemma unat_bound: "unat (w :: 'a :: len word) < 2 ^ LENGTH('a)"
  by (rule unsigned_less)

lemma length_mem_bytes [simp]: "length (mem_bytes n v) = n"
  by (induction n arbitrary: v) auto

lemma of_mem_bytes: "of_mem (mem_bytes n v) = v mod 256 ^ n"
proof (induction n arbitrary: v)
  case (Suc n)
  have "v mod 256 + 256 * (v div 256 mod 256 ^ n) = v mod (256 * 256 ^ n)"
    by (simp add: mod_mult2_eq)
  then show ?case by (simp add: Suc)
qed simp

lemma mem_bytes_of_mem: "mem_bytes (length cs) (of_mem cs) = cs"
proof (induction cs)
  case (Cons c cs)
  have "of_char c < (256::nat)" by simp
  then show ?case by (simp add: Cons)
qed simp

lemma of_mem_bound: "of_mem cs < 256 ^ length cs"
proof (induction cs)
  case (Cons c cs)
  have "of_mem (c # cs) < 256 * (of_mem cs + 1)" by simp
  also have "\<dots> \<le> 256 * 256 ^ length cs"
    using Cons by (intro mult_le_mono2) simp
  finally show ?case by simp
qed simp

subsection \<open>Decimal numbers\<close>

lemma of_char_digit [simp]: "d < 10 \<Longrightarrow> of_char (digit_char d) = 48 + d"
  by (simp add: digit_char_def)

lemma is_digit_digit_char [simp]: "d < 10 \<Longrightarrow> is_digit (digit_char d)"
  by (simp add: is_digit_def)

lemma dec_nat_digits: "c \<in> set (dec_nat n) \<Longrightarrow> is_digit c"
proof (induction n rule: dec_nat.induct)
  case (1 n)
  then show ?case by (cases "n < 10") (auto simp: dec_nat.simps [of n])
qed

lemma dec_nat_not_Nil [simp]: "dec_nat n \<noteq> []"
  by (simp add: dec_nat.simps [of n])

lemma scan_digits_append:
  "(\<forall>c \<in> set xs. is_digit c) \<Longrightarrow> scan_digits acc (xs @ ys) = scan_digits (scan_digits acc xs) ys"
  by (induction xs arbitrary: acc) auto

lemma scan_digits_dec: "scan_digits 0 (dec_nat n) = n"
proof (induction n rule: dec_nat.induct)
  case (1 n)
  show ?case
  proof (cases "n < 10")
    case True
    then show ?thesis by (simp add: dec_nat.simps [of n])
  next
    case False
    have "\<forall>c \<in> set (dec_nat (n div 10)). is_digit c" using dec_nat_digits by blast
    with False 1 show ?thesis
      by (simp add: dec_nat.simps [of n] scan_digits_append)
  qed
qed

lemma scan_digits_stop: "ys = [] \<or> \<not> is_digit (hd ys) \<Longrightarrow> scan_digits acc ys = acc"
  by (cases ys) auto

lemma digit_char_props:
  assumes "is_digit c"
  shows "\<not> is_space c" "c \<noteq> CHR ''-''" "c \<noteq> CHR ''+''" "c \<noteq> CHR '' ''" "c \<noteq> CHR '',''"
    "c \<noteq> CHR '';''" "c \<noteq> CHR ''.''" "c \<noteq> CHR 0x0D"
  using assms by (auto simp: is_digit_def is_space_def)

lemma to_string_chars: "c \<in> set (to_string i) \<Longrightarrow> is_digit c \<or> c = CHR ''-''"
  by (auto simp: to_string_def dest: dec_nat_digits split: if_splits)

lemma to_string_not_Nil [simp]: "to_string i \<noteq> []"
  by (simp add: to_string_def)

lemma to_string_sep:
  "c \<in> {CHR '' '', CHR '','', CHR '';'', CHR ''.'', CHR 0x0D} \<Longrightarrow> c \<notin> set (to_string i)"
  using to_string_chars digit_char_props by fastforce

text \<open>Reading back a printed integer, also when something that is no digit follows.\<close>

lemma atoi_to_string_append:
  assumes "ys = [] \<or> \<not> is_digit (hd ys)"
  shows "atoi (to_string i @ ys) = i"
proof -
  have dig: "\<forall>c \<in> set (dec_nat n). is_digit c" for n using dec_nat_digits by blast
  have scan: "scan_digits 0 (dec_nat n @ ys) = n" for n
    using scan_digits_append [OF dig, of 0 n ys] assms
    by (simp add: scan_digits_dec scan_digits_stop)
  show ?thesis
  proof (cases "i < 0")
    case True
    then show ?thesis
      by (simp add: to_string_def atoi_def is_space_def scan)
  next
    case False
    obtain c cs where c: "dec_nat (nat i) = c # cs" by (cases "dec_nat (nat i)") auto
    then have "is_digit c" using dig [of "nat i"] by simp
    note cp = digit_char_props [OF this]
    have "scan_digits 0 (c # cs @ ys) = nat i" using scan [of "nat i"] c by simp
    then show ?thesis
      using False cp by (simp add: to_string_def atoi_def c)
  qed
qed

lemma atoi_to_string [simp]: "atoi (to_string i) = i"
  using atoi_to_string_append [of "[]"] by simp

subsection \<open>Cutting\<close>

lemma cut_plain: "sep \<notin> set xs \<Longrightarrow> cut sep tmp (xs @ ys) = cut sep (tmp @ xs) ys"
  by (induction xs arbitrary: tmp) auto

lemma cut_piece:
  assumes "sep \<notin> set xs" "xs \<noteq> []"
  shows "cut sep [] (xs @ sep # ys) = (xs # fst (cut sep [] ys), snd (cut sep [] ys))"
  using cut_plain [OF assms(1), of "[]" "sep # ys"] assms(2) by (simp add: case_prod_beta)

lemma cut_pieces:
  assumes "\<forall>x \<in> set ps. sep \<notin> set x \<and> x \<noteq> []" "sep \<notin> set rest"
  shows "cut sep [] (concat (map (\<lambda>x. x @ [sep]) ps) @ rest) = (ps, rest)"
  using assms
proof (induction ps)
  case Nil
  then show ?case using cut_plain [of sep rest "[]" "[]"] by simp
next
  case (Cons p ps)
  then show ?case by (simp add: cut_piece)
qed

subsection \<open>Replicated state machines\<close>

text \<open>
  A server that applies messages to its state and whose visible part (\<open>view\<close>) evolves by
  \<open>spec\<close>, whatever the rest of the state holds. Servers that have the same view and apply
  the same messages stay equal to each other.
\<close>

locale replicated =
  fixes app :: "'s \<Rightarrow> 'm \<Rightarrow> 's res"
    and view :: "'s \<Rightarrow> 'v"
    and spec :: "'v \<Rightarrow> 'm \<Rightarrow> 'v res"
  assumes app_refines: "map_sum id view (app s m) = spec (view s) m"
begin

lemma run_refines: "map_sum id view (foldM app s ms) = foldM spec (view s) ms"
proof (induction ms arbitrary: s)
  case (Cons m ms)
  show ?case
  proof (cases "app s m")
    case (Inl e)
    with app_refines [of s m] show ?thesis by (simp flip: app_refines)
  next
    case (Inr s')
    with app_refines [of s m] Cons [of s'] show ?thesis by simp (metis rbind_Inr)
  qed
qed simp

lemma replicas_agree: "view s = view t \<Longrightarrow> map_sum id view (foldM app s ms) = map_sum id view (foldM app t ms)"
  by (simp add: run_refines)

end

subsection \<open>Simulation\<close>

text \<open>Sequences of calls on an object and on its specification, with their results.\<close>

fun run_calls :: "('c \<Rightarrow> 's \<Rightarrow> ('o \<times> 's) res) \<Rightarrow> 'c list \<Rightarrow> 's \<Rightarrow> ('o list \<times> 's) res" where
  "run_calls step [] s = Inr ([], s)"
| "run_calls step (c # cs) s =
     rbind (step c s) (\<lambda>(x, s1). rbind (run_calls step cs s1) (\<lambda>(xs, s2). Inr (x # xs, s2)))"

fun run_spec :: "('c \<Rightarrow> 'a \<Rightarrow> 'o \<times> 'a) \<Rightarrow> 'c list \<Rightarrow> 'a \<Rightarrow> 'o list \<times> 'a" where
  "run_spec spec [] a = ([], a)"
| "run_spec spec (c # cs) a =
     (let (x, a1) = spec c a; (xs, a2) = run_spec spec cs a1 in (x # xs, a2))"

fun calls_ok :: "('c \<Rightarrow> 'a \<Rightarrow> 'o \<times> 'a) \<Rightarrow> ('c \<Rightarrow> 'a \<Rightarrow> bool) \<Rightarrow> 'c list \<Rightarrow> 'a \<Rightarrow> bool" where
  "calls_ok spec ok [] a \<longleftrightarrow> True"
| "calls_ok spec ok (c # cs) a \<longleftrightarrow> ok c a \<and> calls_ok spec ok cs (snd (spec c a))"

locale simulation =
  fixes step :: "'c \<Rightarrow> 's \<Rightarrow> ('o \<times> 's) res"
    and spec :: "'c \<Rightarrow> 'a \<Rightarrow> 'o \<times> 'a"
    and rel :: "'s \<Rightarrow> 'a \<Rightarrow> bool"
    and ok :: "'c \<Rightarrow> 'a \<Rightarrow> bool"
  assumes simulates: "rel s a \<Longrightarrow> ok c a \<Longrightarrow> \<exists>s'. step c s = Inr (fst (spec c a), s') \<and> rel s' (snd (spec c a))"
begin

lemma run_simulates:
  "rel s a \<Longrightarrow> calls_ok spec ok cs a \<Longrightarrow>
     \<exists>s'. run_calls step cs s = Inr (fst (run_spec spec cs a), s') \<and> rel s' (snd (run_spec spec cs a))"
proof (induction cs arbitrary: s a)
  case (Cons c cs)
  from Cons.prems simulates [of s a c] obtain s1 where
    s1: "step c s = Inr (fst (spec c a), s1)" "rel s1 (snd (spec c a))" by auto
  with Cons.IH [OF s1(2)] Cons.prems show ?case by (fastforce simp: Let_def split: prod.splits)
qed simp

end

end
