(* ===== verification/Net_Buffer.thy ===== *)
theory Net_Buffer
  imports Prelude
begin

text \<open>
  The network buffer of muduo (\<^verbatim>\<open>muduo/net/Buffer.h\<close>, \<^verbatim>\<open>Buffer.cc\<close>,
  \<^verbatim>\<open>Endian.h\<close>): a vector of bytes with a reader and a writer index. A pointer into the
  vector is the offset from \<^verbatim>\<open>begin()\<close>; every \<^verbatim>\<open>assert\<close> of the source is a branch that
  yields \<open>Inl AssertFail\<close>. Byte order functions are those of a little-endian host.
  The theory ends with the interface other components use (locale \<open>byte_buffer\<close>)
  and its interpretation on the model.
\<close>

section \<open>Model\<close>

subsection \<open>Byte order\<close>

definition byteswap :: "nat \<Rightarrow> nat \<Rightarrow> nat" where
  "byteswap k v = of_mem (rev (mem_bytes k v))"

definition hostToNetwork64 :: "64 word \<Rightarrow> 64 word" where
  "hostToNetwork64 host64 = of_nat (byteswap 8 (unat host64))"

definition hostToNetwork32 :: "32 word \<Rightarrow> 32 word" where
  "hostToNetwork32 host32 = of_nat (byteswap 4 (unat host32))"

definition hostToNetwork16 :: "16 word \<Rightarrow> 16 word" where
  "hostToNetwork16 host16 = of_nat (byteswap 2 (unat host16))"

definition networkToHost64 :: "64 word \<Rightarrow> 64 word" where
  "networkToHost64 net64 = of_nat (byteswap 8 (unat net64))"

definition networkToHost32 :: "32 word \<Rightarrow> 32 word" where
  "networkToHost32 net32 = of_nat (byteswap 4 (unat net32))"

definition networkToHost16 :: "16 word \<Rightarrow> 16 word" where
  "networkToHost16 net16 = of_nat (byteswap 2 (unat net16))"

subsection \<open>The buffer\<close>

record Buffer =
  buffer :: string
  readerIndex :: nat
  writerIndex :: nat

definition kCheapPrepend :: nat where
  "kCheapPrepend = 8"

definition kInitialSize :: nat where
  "kInitialSize = 1024"

definition kCRLF :: string where
  "kCRLF = [CHR 0x0D, CHR 0x0A]"

definition new_Buffer :: "nat \<Rightarrow> Buffer" where
  "new_Buffer initialSize =
     \<lparr>buffer = replicate (kCheapPrepend + initialSize) (CHR 0x00),
      readerIndex = kCheapPrepend, writerIndex = kCheapPrepend\<rparr>"

definition readableBytes :: "Buffer \<Rightarrow> nat" where
  "readableBytes b = writerIndex b - readerIndex b"

definition writableBytes :: "Buffer \<Rightarrow> nat" where
  "writableBytes b = length (buffer b) - writerIndex b"

definition prependableBytes :: "Buffer \<Rightarrow> nat" where
  "prependableBytes b = readerIndex b"

text \<open>The bytes from offset \<open>i\<close> to the writer index, what a search from \<open>i\<close> scans.\<close>

definition readable_from :: "Buffer \<Rightarrow> nat \<Rightarrow> string" where
  "readable_from b i = take (writerIndex b - i) (drop i (buffer b))"

definition findCRLF_from :: "Buffer \<Rightarrow> nat \<Rightarrow> nat option res" where
  "findCRLF_from b start =
     (if \<not> readerIndex b \<le> start then Inl AssertFail
      else if \<not> start \<le> writerIndex b then Inl AssertFail
      else let crlf = start + search kCRLF (readable_from b start)
           in Inr (if crlf = writerIndex b then None else Some crlf))"

definition findCRLF :: "Buffer \<Rightarrow> nat option" where
  "findCRLF b =
     (let crlf = readerIndex b + search kCRLF (readable_from b (readerIndex b))
      in if crlf = writerIndex b then None else Some crlf)"

definition memchr :: "string \<Rightarrow> char \<Rightarrow> nat option" where
  "memchr s c = (let i = find_idx (\<lambda>x. x = c) s in if i < length s then Some i else None)"

definition findEOL :: "Buffer \<Rightarrow> nat option" where
  "findEOL b =
     map_option (\<lambda>i. readerIndex b + i) (memchr (readable_from b (readerIndex b)) (CHR 0x0A))"

definition findEOL_from :: "Buffer \<Rightarrow> nat \<Rightarrow> nat option res" where
  "findEOL_from b start =
     (if \<not> readerIndex b \<le> start then Inl AssertFail
      else if \<not> start \<le> writerIndex b then Inl AssertFail
      else Inr (map_option (\<lambda>i. start + i) (memchr (readable_from b start) (CHR 0x0A))))"

definition retrieveAll :: "Buffer \<Rightarrow> Buffer" where
  "retrieveAll b = b\<lparr>readerIndex := kCheapPrepend, writerIndex := kCheapPrepend\<rparr>"

definition retrieve :: "Buffer \<Rightarrow> nat \<Rightarrow> Buffer res" where
  "retrieve b len =
     (if \<not> len \<le> readableBytes b then Inl AssertFail
      else if len < readableBytes b then Inr (b\<lparr>readerIndex := readerIndex b + len\<rparr>)
      else Inr (retrieveAll b))"

definition retrieveUntil :: "Buffer \<Rightarrow> nat \<Rightarrow> Buffer res" where
  "retrieveUntil b pend =
     (if \<not> readerIndex b \<le> pend then Inl AssertFail
      else if \<not> pend \<le> writerIndex b then Inl AssertFail
      else retrieve b (pend - readerIndex b))"

definition retrieveInt64 :: "Buffer \<Rightarrow> Buffer res" where
  "retrieveInt64 b = retrieve b 8"

definition retrieveInt32 :: "Buffer \<Rightarrow> Buffer res" where
  "retrieveInt32 b = retrieve b 4"

definition retrieveInt16 :: "Buffer \<Rightarrow> Buffer res" where
  "retrieveInt16 b = retrieve b 2"

definition retrieveInt8 :: "Buffer \<Rightarrow> Buffer res" where
  "retrieveInt8 b = retrieve b 1"

definition retrieveAsString :: "Buffer \<Rightarrow> nat \<Rightarrow> (string \<times> Buffer) res" where
  "retrieveAsString b len =
     (if \<not> len \<le> readableBytes b then Inl AssertFail
      else let result = take len (drop (readerIndex b) (buffer b))
           in rbind (retrieve b len) (\<lambda>b'. Inr (result, b')))"

definition retrieveAllAsString :: "Buffer \<Rightarrow> (string \<times> Buffer) res" where
  "retrieveAllAsString b = retrieveAsString b (readableBytes b)"

text \<open>
  The length of a \<^verbatim>\<open>StringPiece\<close> is an \<^verbatim>\<open>int\<close>, so the cast truncates; a negative
  length would be handed to \<^verbatim>\<open>append\<close> as a huge size, which is no memory of the buffer.
\<close>

definition toStringPiece :: "Buffer \<Rightarrow> string res" where
  "toStringPiece b =
     (let len = sint (of_nat (readableBytes b) :: 32 word)
      in if len < 0 then Inl BadAccess
         else Inr (take (nat len) (drop (readerIndex b) (buffer b))))"

definition makeSpace :: "Buffer \<Rightarrow> nat \<Rightarrow> Buffer res" where
  "makeSpace b len =
     (if writableBytes b + prependableBytes b < len + kCheapPrepend
      then Inr (b\<lparr>buffer := resize (buffer b) (writerIndex b + len) (CHR 0x00)\<rparr>)
      else if \<not> kCheapPrepend < readerIndex b then Inl AssertFail
      else
        let readable = readableBytes b;
            b' = b\<lparr>buffer := blit (buffer b) kCheapPrepend (readable_from b (readerIndex b)),
                   readerIndex := kCheapPrepend,
                   writerIndex := kCheapPrepend + readable\<rparr>
        in if readable = readableBytes b' then Inr b' else Inl AssertFail)"

definition ensureWritableBytes :: "Buffer \<Rightarrow> nat \<Rightarrow> Buffer res" where
  "ensureWritableBytes b len =
     rbind (if writableBytes b < len then makeSpace b len else Inr b)
       (\<lambda>b'. if writableBytes b' \<ge> len then Inr b' else Inl AssertFail)"

definition hasWritten :: "Buffer \<Rightarrow> nat \<Rightarrow> Buffer res" where
  "hasWritten b len =
     (if \<not> len \<le> writableBytes b then Inl AssertFail
      else Inr (b\<lparr>writerIndex := writerIndex b + len\<rparr>))"

definition append_buf :: "Buffer \<Rightarrow> string \<Rightarrow> Buffer res" where
  "append_buf b data =
     rbind (ensureWritableBytes b (length data))
       (\<lambda>b'. hasWritten (b'\<lparr>buffer := blit (buffer b') (writerIndex b') data\<rparr>) (length data))"

definition unwrite :: "Buffer \<Rightarrow> nat \<Rightarrow> Buffer res" where
  "unwrite b len =
     (if \<not> len \<le> readableBytes b then Inl AssertFail
      else Inr (b\<lparr>writerIndex := writerIndex b - len\<rparr>))"

definition prepend :: "Buffer \<Rightarrow> string \<Rightarrow> Buffer res" where
  "prepend b data =
     (if \<not> length data \<le> prependableBytes b then Inl AssertFail
      else let r = readerIndex b - length data
           in Inr (b\<lparr>readerIndex := r, buffer := blit (buffer b) r data\<rparr>))"

definition shrink :: "Buffer \<Rightarrow> nat \<Rightarrow> Buffer res" where
  "shrink b reserve =
     rbind (ensureWritableBytes (new_Buffer kInitialSize) (readableBytes b + reserve))
       (\<lambda>other. rbind (toStringPiece b) (append_buf other))"

subsection \<open>Integers in network byte order\<close>

definition appendInt64 :: "Buffer \<Rightarrow> 64 word \<Rightarrow> Buffer res" where
  "appendInt64 b x = append_buf b (mem_bytes 8 (unat (hostToNetwork64 x)))"

definition appendInt32 :: "Buffer \<Rightarrow> 32 word \<Rightarrow> Buffer res" where
  "appendInt32 b x = append_buf b (mem_bytes 4 (unat (hostToNetwork32 x)))"

definition appendInt16 :: "Buffer \<Rightarrow> 16 word \<Rightarrow> Buffer res" where
  "appendInt16 b x = append_buf b (mem_bytes 2 (unat (hostToNetwork16 x)))"

definition appendInt8 :: "Buffer \<Rightarrow> 8 word \<Rightarrow> Buffer res" where
  "appendInt8 b x = append_buf b (mem_bytes 1 (unat x))"

definition peekInt64 :: "Buffer \<Rightarrow> 64 word res" where
  "peekInt64 b =
     (if \<not> readableBytes b \<ge> 8 then Inl AssertFail
      else Inr (networkToHost64 (of_nat (of_mem (take 8 (drop (readerIndex b) (buffer b)))))))"

definition peekInt32 :: "Buffer \<Rightarrow> 32 word res" where
  "peekInt32 b =
     (if \<not> readableBytes b \<ge> 4 then Inl AssertFail
      else Inr (networkToHost32 (of_nat (of_mem (take 4 (drop (readerIndex b) (buffer b)))))))"

definition peekInt16 :: "Buffer \<Rightarrow> 16 word res" where
  "peekInt16 b =
     (if \<not> readableBytes b \<ge> 2 then Inl AssertFail
      else Inr (networkToHost16 (of_nat (of_mem (take 2 (drop (readerIndex b) (buffer b)))))))"

definition peekInt8 :: "Buffer \<Rightarrow> 8 word res" where
  "peekInt8 b =
     (if \<not> readableBytes b \<ge> 1 then Inl AssertFail
      else Inr (of_nat (of_mem (take 1 (drop (readerIndex b) (buffer b))))))"

definition readInt64 :: "Buffer \<Rightarrow> (64 word \<times> Buffer) res" where
  "readInt64 b =
     rbind (peekInt64 b) (\<lambda>result. rbind (retrieveInt64 b) (\<lambda>b'. Inr (result, b')))"

definition readInt32 :: "Buffer \<Rightarrow> (32 word \<times> Buffer) res" where
  "readInt32 b =
     rbind (peekInt32 b) (\<lambda>result. rbind (retrieveInt32 b) (\<lambda>b'. Inr (result, b')))"

definition readInt16 :: "Buffer \<Rightarrow> (16 word \<times> Buffer) res" where
  "readInt16 b =
     rbind (peekInt16 b) (\<lambda>result. rbind (retrieveInt16 b) (\<lambda>b'. Inr (result, b')))"

definition readInt8 :: "Buffer \<Rightarrow> (8 word \<times> Buffer) res" where
  "readInt8 b =
     rbind (peekInt8 b) (\<lambda>result. rbind (retrieveInt8 b) (\<lambda>b'. Inr (result, b')))"

definition prependInt64 :: "Buffer \<Rightarrow> 64 word \<Rightarrow> Buffer res" where
  "prependInt64 b x = prepend b (mem_bytes 8 (unat (hostToNetwork64 x)))"

definition prependInt32 :: "Buffer \<Rightarrow> 32 word \<Rightarrow> Buffer res" where
  "prependInt32 b x = prepend b (mem_bytes 4 (unat (hostToNetwork32 x)))"

definition prependInt16 :: "Buffer \<Rightarrow> 16 word \<Rightarrow> Buffer res" where
  "prependInt16 b x = prepend b (mem_bytes 2 (unat (hostToNetwork16 x)))"

definition prependInt8 :: "Buffer \<Rightarrow> 8 word \<Rightarrow> Buffer res" where
  "prependInt8 b x = prepend b (mem_bytes 1 (unat x))"

subsection \<open>Reading from a descriptor\<close>

text \<open>
  The system call \<^verbatim>\<open>readv\<close> is a parameter: from the total size of the vectors it gives an
  errno or the bytes read, which fill the first vector before the second. The result is
  the buffer, the returned count and the saved errno.
\<close>

definition extrabuf_size :: nat where
  "extrabuf_size = 65536"

definition readFd :: "Buffer \<Rightarrow> (nat \<Rightarrow> int + string) \<Rightarrow> (Buffer \<times> int \<times> int option) res" where
  "readFd b readv =
     (let writable = writableBytes b;
          space = (if writable < extrabuf_size then writable + extrabuf_size else writable)
      in case readv space of
           Inl errno \<Rightarrow> Inr (b, - 1, Some errno)
         | Inr bytes \<Rightarrow>
             (let n = length bytes;
                  b1 = b\<lparr>buffer := blit (buffer b) (writerIndex b) (take writable bytes)\<rparr>
              in if n \<le> writable then Inr (b1\<lparr>writerIndex := writerIndex b1 + n\<rparr>, int n, None)
                 else rbind (append_buf (b1\<lparr>writerIndex := length (buffer b1)\<rparr>)
                                (take (n - writable) (drop writable bytes)))
                        (\<lambda>b2. Inr (b2, int n, None))))"

section \<open>Specification\<close>

text \<open>What a buffer holds, and the ordering of its indices that every operation keeps.\<close>

definition contents :: "Buffer \<Rightarrow> string" where
  "contents b = readable_from b (readerIndex b)"

definition buf_inv :: "Buffer \<Rightarrow> bool" where
  "buf_inv b \<longleftrightarrow> readerIndex b \<le> writerIndex b \<and> writerIndex b \<le> length (buffer b) \<and>
     kCheapPrepend \<le> length (buffer b)"

text \<open>A client of the buffer: a sequence of calls, and what each means for a byte string.\<close>

datatype buf_cmd =
    Append string
  | EnsureWritable nat
  | Retrieve nat
  | RetrieveUntil nat
  | RetrieveAll
  | Unwrite nat
  | Prepend string

fun buf_step :: "Buffer \<Rightarrow> buf_cmd \<Rightarrow> Buffer res" where
  "buf_step b (Append s) = append_buf b s"
| "buf_step b (EnsureWritable n) = ensureWritableBytes b n"
| "buf_step b (Retrieve n) = retrieve b n"
| "buf_step b (RetrieveUntil n) = retrieveUntil b (readerIndex b + n)"
| "buf_step b RetrieveAll = Inr (retrieveAll b)"
| "buf_step b (Unwrite n) = unwrite b n"
| "buf_step b (Prepend s) = prepend b s"

fun spec_step :: "string \<Rightarrow> buf_cmd \<Rightarrow> string" where
  "spec_step c (Append s) = c @ s"
| "spec_step c (EnsureWritable n) = c"
| "spec_step c (Retrieve n) = drop n c"
| "spec_step c (RetrieveUntil n) = drop n c"
| "spec_step c RetrieveAll = []"
| "spec_step c (Unwrite n) = take (length c - n) c"
| "spec_step c (Prepend s) = s @ c"

text \<open>When a call is allowed: what is retrieved is there, what is prepended has room.\<close>

fun step_allowed :: "Buffer \<Rightarrow> buf_cmd \<Rightarrow> bool" where
  "step_allowed b (Retrieve n) = (n \<le> length (contents b))"
| "step_allowed b (RetrieveUntil n) = (n \<le> length (contents b))"
| "step_allowed b (Unwrite n) = (n \<le> length (contents b))"
| "step_allowed b (Prepend s) = (length s \<le> prependableBytes b)"
| "step_allowed b _ = True"

section \<open>Operations\<close>

named_theorems buf_defs

lemmas [buf_defs] =
  contents_def readable_from_def buf_inv_def readableBytes_def writableBytes_def
  prependableBytes_def kCheapPrepend_def

lemma length_contents [simp]: "buf_inv b \<Longrightarrow> length (contents b) = readableBytes b"
  by (auto simp: buf_defs)

lemma new_Buffer_inv [simp]: "buf_inv (new_Buffer n)"
  by (simp add: buf_defs new_Buffer_def)

lemma new_Buffer_contents [simp]: "contents (new_Buffer n) = []"
  by (simp add: buf_defs new_Buffer_def)

lemma retrieveAll_ok: "buf_inv b \<Longrightarrow> buf_inv (retrieveAll b) \<and> contents (retrieveAll b) = []"
  by (simp add: buf_defs retrieveAll_def)

lemma retrieve_ok:
  assumes "buf_inv b" "n \<le> length (contents b)"
  shows "\<exists>b'. retrieve b n = Inr b' \<and> buf_inv b' \<and> contents b' = drop n (contents b)"
proof (cases "n < readableBytes b")
  case True
  then show ?thesis using assms
    by (auto simp: retrieve_def buf_defs drop_take add.commute)
next
  case False
  then show ?thesis using assms
    by (auto simp: retrieve_def retrieveAll_def buf_defs)
qed

lemma retrieve_fault: "buf_inv b \<Longrightarrow> length (contents b) < n \<Longrightarrow> retrieve b n = Inl AssertFail"
  by (simp add: retrieve_def)

lemma retrieveUntil_eq:
  "buf_inv b \<Longrightarrow> retrieveUntil b (readerIndex b + n) = retrieve b n"
  by (auto simp: retrieveUntil_def retrieve_def buf_defs)

lemma makeSpace_ok:
  assumes "buf_inv b" "writableBytes b < n"
  shows "\<exists>b'. makeSpace b n = Inr b' \<and> buf_inv b' \<and> contents b' = contents b \<and>
           n \<le> writableBytes b' \<and> (readerIndex b' = readerIndex b \<or> readerIndex b' = kCheapPrepend)"
proof (cases "writableBytes b + prependableBytes b < n + kCheapPrepend")
  case True
  then show ?thesis using assms
    by (auto simp: makeSpace_def buf_defs resize_grow)
next
  case False
  with assms have *: "kCheapPrepend < readerIndex b" by (auto simp: buf_defs)
  have len: "length (contents b) = writerIndex b - readerIndex b"
    using assms by (simp add: readableBytes_def)
  show ?thesis using False * assms len
    by (auto simp: makeSpace_def buf_defs Let_def blit_def)
qed

lemma ensureWritableBytes_ok:
  assumes "buf_inv b"
  shows "\<exists>b'. ensureWritableBytes b n = Inr b' \<and> buf_inv b' \<and> contents b' = contents b \<and>
           n \<le> writableBytes b' \<and> (readerIndex b' = readerIndex b \<or> readerIndex b' = kCheapPrepend)"
proof (cases "writableBytes b < n")
  case True
  with makeSpace_ok [OF assms True] show ?thesis by (auto simp: ensureWritableBytes_def)
next
  case False
  with assms show ?thesis by (auto simp: ensureWritableBytes_def)
qed

lemma append_ok:
  assumes "buf_inv b"
  shows "\<exists>b'. append_buf b s = Inr b' \<and> buf_inv b' \<and> contents b' = contents b @ s \<and>
           (readerIndex b' = readerIndex b \<or> readerIndex b' = kCheapPrepend)"
proof -
  obtain b1 where b1: "ensureWritableBytes b (length s) = Inr b1" "buf_inv b1"
    "contents b1 = contents b" "length s \<le> writableBytes b1"
    "readerIndex b1 = readerIndex b \<or> readerIndex b1 = kCheapPrepend"
    using ensureWritableBytes_ok [OF assms] by blast
  let ?b = "b1\<lparr>buffer := blit (buffer b1) (writerIndex b1) s,
               writerIndex := writerIndex b1 + length s\<rparr>"
  have "append_buf b s = Inr ?b"
    using b1(1,2,4) by (auto simp: append_buf_def hasWritten_def writableBytes_def buf_inv_def)
  moreover have "buf_inv ?b" using b1(2,4) by (auto simp: buf_defs)
  moreover have "contents ?b = contents b1 @ s"
    using b1(2,4) by (auto simp: buf_defs blit_def take_drop)
  ultimately show ?thesis using b1 by auto
qed

lemma unwrite_ok:
  assumes "buf_inv b" "n \<le> length (contents b)"
  shows "\<exists>b'. unwrite b n = Inr b' \<and> buf_inv b' \<and>
           contents b' = take (length (contents b) - n) (contents b)"
proof -
  have len: "length (contents b) = writerIndex b - readerIndex b"
    using assms by (simp add: readableBytes_def)
  show ?thesis using assms unfolding len
    by (auto simp: unwrite_def readableBytes_def contents_def readable_from_def buf_inv_def
        min_def add.commute)
qed

lemma prepend_ok:
  assumes "buf_inv b" "length s \<le> prependableBytes b"
  shows "\<exists>b'. prepend b s = Inr b' \<and> buf_inv b' \<and> contents b' = s @ contents b \<and>
           prependableBytes b' = prependableBytes b - length s"
proof -
  let ?r = "readerIndex b - length s"
  have "drop ?r (blit (buffer b) ?r s) = s @ drop (readerIndex b) (buffer b)"
    using assms by (intro drop_blit_end) (auto simp: buf_defs)
  then show ?thesis using assms
    by (auto simp: prepend_def buf_defs Let_def)
qed

lemma prepend_fault: "prependableBytes b < length s \<Longrightarrow> prepend b s = Inl AssertFail"
  by (simp add: prepend_def)

text \<open>Every call that is allowed succeeds, keeps the invariant and means its specification.\<close>

lemma buf_step_ok:
  assumes "buf_inv b" "step_allowed b c"
  shows "\<exists>b'. buf_step b c = Inr b' \<and> buf_inv b' \<and> contents b' = spec_step (contents b) c"
  using assms
proof (cases c)
  case (Append s)
  with append_ok [OF assms(1), of s] show ?thesis by auto
next
  case (EnsureWritable n)
  with ensureWritableBytes_ok [OF assms(1), of n] show ?thesis by auto
next
  case (Prepend s)
  with prepend_ok [OF assms(1), of s] assms(2) show ?thesis by auto
qed (use retrieve_ok retrieveUntil_eq retrieveAll_ok unwrite_ok in fastforce)+

lemma buf_step_fault:
  assumes "buf_inv b" "\<not> step_allowed b c"
  shows "buf_step b c = Inl AssertFail"
  using assms
  by (cases c) (auto simp: retrieve_def retrieveUntil_def unwrite_def prepend_def buf_defs)

lemma buf_step_Inr:
  assumes "buf_inv b" "buf_step b c = Inr b'"
  shows "buf_inv b' \<and> contents b' = spec_step (contents b) c"
  using buf_step_ok [of b c] buf_step_fault [of b c] assms by fastforce

lemma foldM_buf_step:
  "buf_inv b \<Longrightarrow> foldM buf_step b cs = Inr b' \<Longrightarrow>
     buf_inv b' \<and> contents b' = foldl spec_step (contents b) cs"
proof (induction cs arbitrary: b)
  case (Cons c cs)
  from Cons.prems(2) obtain b1 where b1: "buf_step b c = Inr b1" "foldM buf_step b1 cs = Inr b'"
    by (auto simp: rbind_eq_Inr)
  from buf_step_Inr [OF Cons.prems(1) b1(1)] Cons.IH [OF _ b1(2)]
  show ?case by simp
qed simp

section \<open>Searching\<close>

lemma length_kCRLF [simp]: "length kCRLF = 2"
  by (simp add: kCRLF_def)

lemma findCRLF_None:
  "buf_inv b \<Longrightarrow> findCRLF b = None \<longleftrightarrow> search kCRLF (contents b) = length (contents b)"
  by (auto simp: findCRLF_def contents_def [symmetric] readableBytes_def buf_inv_def Let_def)

lemma findCRLF_Some:
  assumes "buf_inv b" "findCRLF b = Some i"
  shows "i = readerIndex b + search kCRLF (contents b)"
    and "search kCRLF (contents b) < length (contents b)"
  using assms search_le [of kCRLF "contents b"]
  by (auto simp: findCRLF_def contents_def [symmetric] readableBytes_def buf_inv_def Let_def
      split: if_splits)

lemma findCRLF_hit:
  "buf_inv b \<Longrightarrow> search kCRLF (contents b) < length (contents b) \<Longrightarrow>
     findCRLF b = Some (readerIndex b + search kCRLF (contents b))"
  by (auto simp: findCRLF_def contents_def [symmetric] readableBytes_def buf_inv_def Let_def)

section \<open>Integers\<close>

lemma mem_bytes_byteswap: "mem_bytes k (byteswap k v) = rev (mem_bytes k v)"
  using mem_bytes_of_mem [of "rev (mem_bytes k v)"] by (simp add: byteswap_def)

lemma byteswap_byteswap: "v < 256 ^ k \<Longrightarrow> byteswap k (byteswap k v) = v"
  unfolding byteswap_def [of k "byteswap k v"]
  by (simp add: mem_bytes_byteswap of_mem_bytes)

lemma byteswap_bound: "byteswap k v < 256 ^ k"
  using of_mem_bound [of "rev (mem_bytes k v)"] by (simp add: byteswap_def)

lemma unat_hostToNetwork:
  "unat (hostToNetwork64 x64) = byteswap 8 (unat x64)"
  "unat (hostToNetwork32 x32) = byteswap 4 (unat x32)"
  "unat (hostToNetwork16 x16) = byteswap 2 (unat x16)"
  using byteswap_bound [of 8 "unat x64"] byteswap_bound [of 4 "unat x32"]
    byteswap_bound [of 2 "unat x16"]
  by (simp_all add: hostToNetwork64_def hostToNetwork32_def hostToNetwork16_def unat_of_nat)

lemma networkToHost_hostToNetwork:
  "networkToHost64 (hostToNetwork64 x64) = x64"
  "networkToHost32 (hostToNetwork32 x32) = x32"
  "networkToHost16 (hostToNetwork16 x16) = x16"
  using byteswap_byteswap [of "unat x64" 8] byteswap_byteswap [of "unat x32" 4]
    byteswap_byteswap [of "unat x16" 2] unat_bound [of x64] unat_bound [of x32] unat_bound [of x16]
  by (simp_all add: networkToHost64_def networkToHost32_def networkToHost16_def
      unat_hostToNetwork)

lemma of_mem_word:
  fixes x :: "'a :: len word"
  assumes "LENGTH('a) = 8 * k"
  shows "of_nat (of_mem (mem_bytes k (unat x))) = x"
proof -
  have "(256::nat) ^ k = 2 ^ LENGTH('a)" by (simp add: assms power_mult)
  then show ?thesis using unat_bound [of x] by (simp add: of_mem_bytes)
qed

text \<open>Reading from the front of the buffer depends on its contents only.\<close>

lemma take_contents:
  "n \<le> readableBytes b \<Longrightarrow> take n (drop (readerIndex b) (buffer b)) = take n (contents b)"
  by (simp add: contents_def readable_from_def readableBytes_def min_def)

lemma read_front:
  assumes "buf_inv b" "contents b = mem_bytes k v @ rest"
  shows "k \<le> readableBytes b"
    and "take k (drop (readerIndex b) (buffer b)) = mem_bytes k v"
    and "\<exists>b'. retrieve b k = Inr b' \<and> buf_inv b' \<and> contents b' = rest"
proof -
  have k: "k \<le> length (contents b)" by (simp add: assms(2))
  with assms(1) show r: "k \<le> readableBytes b" by simp
  show "take k (drop (readerIndex b) (buffer b)) = mem_bytes k v"
    by (simp add: take_contents [OF r] assms(2))
  from retrieve_ok [OF assms(1) k] assms(2)
  show "\<exists>b'. retrieve b k = Inr b' \<and> buf_inv b' \<and> contents b' = rest" by auto
qed

lemma readInt64_front:
  assumes "buf_inv b" "contents b = mem_bytes 8 (unat (hostToNetwork64 x)) @ rest"
  shows "\<exists>b'. readInt64 b = Inr (x, b') \<and> buf_inv b' \<and> contents b' = rest"
proof -
  have "of_nat (of_mem (mem_bytes 8 (unat (hostToNetwork64 x)))) = hostToNetwork64 x"
    by (rule of_mem_word) simp
  with read_front [OF assms] show ?thesis
    by (auto simp: readInt64_def peekInt64_def retrieveInt64_def networkToHost_hostToNetwork)
qed

lemma readInt32_front:
  assumes "buf_inv b" "contents b = mem_bytes 4 (unat (hostToNetwork32 x)) @ rest"
  shows "\<exists>b'. readInt32 b = Inr (x, b') \<and> buf_inv b' \<and> contents b' = rest"
proof -
  have "of_nat (of_mem (mem_bytes 4 (unat (hostToNetwork32 x)))) = hostToNetwork32 x"
    by (rule of_mem_word) simp
  with read_front [OF assms] show ?thesis
    by (auto simp: readInt32_def peekInt32_def retrieveInt32_def networkToHost_hostToNetwork)
qed

lemma readInt16_front:
  assumes "buf_inv b" "contents b = mem_bytes 2 (unat (hostToNetwork16 x)) @ rest"
  shows "\<exists>b'. readInt16 b = Inr (x, b') \<and> buf_inv b' \<and> contents b' = rest"
proof -
  have "of_nat (of_mem (mem_bytes 2 (unat (hostToNetwork16 x)))) = hostToNetwork16 x"
    by (rule of_mem_word) simp
  with read_front [OF assms] show ?thesis
    by (auto simp: readInt16_def peekInt16_def retrieveInt16_def networkToHost_hostToNetwork)
qed

lemma readInt8_front:
  assumes "buf_inv b" "contents b = mem_bytes 1 (unat x) @ rest"
  shows "\<exists>b'. readInt8 b = Inr (x, b') \<and> buf_inv b' \<and> contents b' = rest"
proof -
  have "of_nat (of_mem (mem_bytes 1 (unat x))) = x" by (rule of_mem_word) simp
  with read_front [OF assms] show ?thesis
    by (auto simp: readInt8_def peekInt8_def retrieveInt8_def)
qed

section \<open>Reading from a descriptor\<close>

text \<open>The contract of \<^verbatim>\<open>readv\<close>: it never returns more bytes than the vectors hold.\<close>

definition readv_bounded :: "(nat \<Rightarrow> int + string) \<Rightarrow> bool" where
  "readv_bounded readv \<longleftrightarrow> (\<forall>space bytes. readv space = Inr bytes \<longrightarrow> length bytes \<le> space)"

lemma write_in_place:
  assumes "buf_inv b" "length s \<le> writableBytes b"
  shows "buf_inv (b\<lparr>buffer := blit (buffer b) (writerIndex b) s,
                   writerIndex := writerIndex b + length s\<rparr>)"
    and "contents (b\<lparr>buffer := blit (buffer b) (writerIndex b) s,
                   writerIndex := writerIndex b + length s\<rparr>) = contents b @ s"
  using assms by (auto simp: buf_defs blit_def take_drop)

lemma readFd_bytes:
  assumes inv: "buf_inv b" and bnd: "readv_bounded readv"
    and rd: "readv (if writableBytes b < extrabuf_size then writableBytes b + extrabuf_size
                    else writableBytes b) = Inr bytes"
  shows "\<exists>b'. readFd b readv = Inr (b', int (length bytes), None) \<and> buf_inv b' \<and>
           contents b' = contents b @ bytes"
proof (cases "length bytes \<le> writableBytes b")
  case True
  with write_in_place [OF inv True] rd show ?thesis by (auto simp: readFd_def Let_def)
next
  case False
  let ?w = "writableBytes b"
  let ?b1 = "b\<lparr>buffer := blit (buffer b) (writerIndex b) (take ?w bytes),
              writerIndex := writerIndex b + length (take ?w bytes)\<rparr>"
  have b1: "buf_inv ?b1" "contents ?b1 = contents b @ take ?w bytes"
    using write_in_place [OF inv, of "take ?w bytes"] False by auto
  have full: "length (blit (buffer b) (writerIndex b) (take ?w bytes)) =
      writerIndex b + length (take ?w bytes)"
    using False inv by (auto simp: buf_defs)
  obtain b2 where "append_buf ?b1 (drop ?w bytes) = Inr b2" "buf_inv b2"
    "contents b2 = contents b @ bytes"
    using append_ok [OF b1(1), of "drop ?w bytes"] b1(2) by auto
  with False rd full show ?thesis by (auto simp: readFd_def Let_def)
qed

section \<open>Interfaces\<close>

text \<open>
  What the users of a buffer rely on: it is a queue of bytes. Retrieving more than is
  there is an assertion failure.
\<close>

locale byte_buffer =
  fixes inv :: "'b \<Rightarrow> bool"
    and bytes :: "'b \<Rightarrow> string"
    and app :: "'b \<Rightarrow> string \<Rightarrow> 'b res"
    and retr :: "'b \<Rightarrow> nat \<Rightarrow> 'b res"
  assumes app_ok: "inv b \<Longrightarrow> \<exists>b'. app b s = Inr b' \<and> inv b' \<and> bytes b' = bytes b @ s"
    and retr_ok: "inv b \<Longrightarrow> n \<le> length (bytes b) \<Longrightarrow>
          \<exists>b'. retr b n = Inr b' \<and> inv b' \<and> bytes b' = drop n (bytes b)"
    and retr_fault: "inv b \<Longrightarrow> length (bytes b) < n \<Longrightarrow> retr b n = Inl AssertFail"
begin

lemma app_all:
  "inv b \<Longrightarrow> \<exists>b'. foldM app b ss = Inr b' \<and> inv b' \<and> bytes b' = bytes b @ concat ss"
proof (induction ss arbitrary: b)
  case (Cons s ss)
  from app_ok [OF Cons.prems, of s] obtain b1
    where b1: "app b s = Inr b1" "inv b1" "bytes b1 = bytes b @ s" by blast
  with Cons.IH [OF b1(2)] show ?case by auto
qed simp

text \<open>How the bytes arrive makes no difference to what is queued.\<close>

lemma app_chunks:
  assumes "inv b" "concat ss = concat ts"
  shows "\<exists>b1 b2. foldM app b ss = Inr b1 \<and> foldM app b ts = Inr b2 \<and> bytes b1 = bytes b2"
  using app_all [OF assms(1), of ss] app_all [OF assms(1), of ts] assms(2) by auto

lemma app_retr:
  assumes "inv b" "bytes b = []"
  shows "\<exists>b1 b2. app b (s @ t) = Inr b1 \<and> retr b1 (length s) = Inr b2 \<and> bytes b2 = t"
proof -
  from app_ok [OF assms(1), of "s @ t"] assms(2) obtain b1
    where b1: "app b (s @ t) = Inr b1" "inv b1" "bytes b1 = s @ t" by auto
  from retr_ok [OF b1(2), of "length s"] b1 show ?thesis by auto
qed

end

text \<open>A buffer that a protocol reads line by line.\<close>

locale line_buffer = byte_buffer +
  fixes pos :: "'b \<Rightarrow> nat"
    and crlf :: "'b \<Rightarrow> nat option"
    and upto_pos :: "'b \<Rightarrow> nat \<Rightarrow> 'b res"
  assumes crlf_none: "inv b \<Longrightarrow> search kCRLF (bytes b) = length (bytes b) \<Longrightarrow> crlf b = None"
    and crlf_some: "inv b \<Longrightarrow> search kCRLF (bytes b) < length (bytes b) \<Longrightarrow>
          crlf b = Some (pos b + search kCRLF (bytes b))"
    and upto_eq: "inv b \<Longrightarrow> upto_pos b (pos b + n) = retr b n"
begin

lemma crlf_cases:
  assumes "inv b"
  obtains "crlf b = None" "search kCRLF (bytes b) = length (bytes b)"
    | l rest b' where "crlf b = Some (pos b + length l)" "bytes b = l @ kCRLF @ rest"
        "search kCRLF (bytes b) = length l"
        "upto_pos b (pos b + length l + 2) = Inr b'" "inv b'" "bytes b' = rest"
proof (cases "search kCRLF (bytes b) < length (bytes b)")
  case False
  then have "search kCRLF (bytes b) = length (bytes b)"
    using search_le [of kCRLF "bytes b"] by linarith
  with crlf_none [OF assms] that(1) show ?thesis by blast
next
  case True
  let ?k = "search kCRLF (bytes b)"
  have pat: "take 2 (drop ?k (bytes b)) = kCRLF"
    using search_hit [OF True] by simp
  have bnd: "?k + 2 \<le> length (bytes b)"
    using search_hit_bound [OF True] by simp
  have "drop ?k (bytes b) = kCRLF @ drop (?k + 2) (bytes b)"
    using append_take_drop_id [of 2 "drop ?k (bytes b)"] pat by (simp add: add.commute)
  then have split: "bytes b = take ?k (bytes b) @ kCRLF @ drop (?k + 2) (bytes b)"
    using append_take_drop_id [of ?k "bytes b"] by simp
  have len: "length (take ?k (bytes b)) = ?k" using True by simp
  from retr_ok [OF assms bnd] obtain b' where
    "retr b (?k + 2) = Inr b'" "inv b'" "bytes b' = drop (?k + 2) (bytes b)" by blast
  with that(2) [of "take ?k (bytes b)" "drop (?k + 2) (bytes b)" b'] split len
    crlf_some [OF assms True] upto_eq [OF assms, of "?k + 2"]
  show ?thesis by (simp add: add.assoc)
qed

lemma take_line:
  assumes "inv b" "bytes b = l @ kCRLF @ rest" "CHR 0x0D \<notin> set l"
  shows "crlf b = Some (pos b + length l)"
    and "\<exists>b'. upto_pos b (pos b + length l + 2) = Inr b' \<and> inv b' \<and> bytes b' = rest"
proof -
  have s: "search kCRLF (bytes b) = length l"
    using assms(2,3) search_pair [of "CHR 0x0D" l "CHR 0x0A" rest] by (simp add: kCRLF_def)
  show "crlf b = Some (pos b + length l)"
    using crlf_some [OF assms(1)] s assms(2) by (simp add: kCRLF_def)
  have "length l + 2 \<le> length (bytes b)" using assms(2) by simp
  from retr_ok [OF assms(1) this] assms(2)
  show "\<exists>b'. upto_pos b (pos b + length l + 2) = Inr b' \<and> inv b' \<and> bytes b' = rest"
    using upto_eq [OF assms(1), of "length l + 2"] by (auto simp: add.assoc)
qed

end

interpretation nb: line_buffer buf_inv contents append_buf retrieve readerIndex findCRLF
  retrieveUntil
proof unfold_locales
  fix b s assume "buf_inv b"
  from append_ok [OF this]
  show "\<exists>b'. append_buf b s = Inr b' \<and> buf_inv b' \<and> contents b' = contents b @ s" by blast
qed (use retrieve_ok retrieve_fault findCRLF_None findCRLF_hit retrieveUntil_eq in auto)

section \<open>Properties\<close>

lemma foldM_buf_step_fault:
  "buf_inv b \<Longrightarrow> foldM buf_step b cs = Inl e \<Longrightarrow>
     e = AssertFail \<and> (\<exists>pre c post b1. cs = pre @ c # post \<and>
        foldM buf_step b pre = Inr b1 \<and> \<not> step_allowed b1 c)"
proof (induction cs arbitrary: b)
  case (Cons c cs)
  show ?case
  proof (cases "buf_step b c")
    case (Inl e')
    with Cons.prems have "\<not> step_allowed b c" "e = AssertFail"
      using buf_step_ok [of b c] buf_step_fault [of b c] by auto
    then have "c # cs = [] @ c # cs \<and> foldM buf_step b [] = Inr b \<and> \<not> step_allowed b c" by simp
    then show ?thesis using \<open>e = AssertFail\<close> by blast
  next
    case (Inr b1)
    with Cons.prems Cons.IH [of b1] buf_step_Inr [OF Cons.prems(1) Inr] obtain pre d post b2 where
      "e = AssertFail" "cs = pre @ d # post" "foldM buf_step b1 pre = Inr b2"
      "\<not> step_allowed b2 d" by auto
    then have "c # cs = (c # pre) @ d # post \<and> foldM buf_step b (c # pre) = Inr b2 \<and>
      \<not> step_allowed b2 d" using Inr by simp
    then show ?thesis using \<open>e = AssertFail\<close> by blast
  qed
qed simp


lemma foldM_append_prependable:
  "buf_inv b \<Longrightarrow> kCheapPrepend \<le> prependableBytes b \<Longrightarrow> foldM append_buf b ss = Inr b' \<Longrightarrow>
     kCheapPrepend \<le> prependableBytes b'"
proof (induction ss arbitrary: b)
  case (Cons s ss)
  from append_ok [OF Cons.prems(1), of s] Cons show ?case
    by (fastforce simp: prependableBytes_def)
qed simp

text \<open>
  C15. The cheap prepend: whatever has been appended to a fresh buffer, a header of at most
  \<open>kCheapPrepend\<close> bytes can be put in front of it afterwards, and the buffer then
  holds the header followed by the payload.
\<close>

theorem buffer_cheap_prepend:
  assumes "length h \<le> kCheapPrepend"
  shows "\<exists>b1 b2. foldM append_buf (new_Buffer n) ss = Inr b1 \<and> prepend b1 h = Inr b2 \<and>
           contents b2 = h @ concat ss"
proof -
  obtain b1 where b1: "foldM append_buf (new_Buffer n) ss = Inr b1" "buf_inv b1"
    "contents b1 = concat ss"
    using nb.app_all [of "new_Buffer n" ss] by auto
  have "kCheapPrepend \<le> prependableBytes b1"
    by (rule foldM_append_prependable [OF new_Buffer_inv _ b1(1)])
       (simp add: prependableBytes_def new_Buffer_def)
  with prepend_ok [OF b1(2), of h] b1 assms show ?thesis by auto
qed

theorem buffer_cheap_prepend_witness:
  "\<exists>b1 b2. foldM append_buf (new_Buffer 2) [''pay'', ''load''] = Inr b1 \<and>
     prepend b1 ''12345678'' = Inr b2 \<and> contents b2 = ''12345678payload''"
  using buffer_cheap_prepend [of "''12345678''" 2 "[''pay'', ''load'']"]
  by (simp add: kCheapPrepend_def)

text \<open>
  C16. Integers survive the trip through the buffer: values of 64, 32, 16 and 8 bits written
  in network byte order are read back unchanged and in order, and nothing is left over.
\<close>

theorem buffer_int_roundtrip:
  "rbind (appendInt64 (new_Buffer n) x) (\<lambda>b.
   rbind (appendInt32 b y) (\<lambda>b.
   rbind (appendInt16 b z) (\<lambda>b.
   rbind (appendInt8 b w) (\<lambda>b.
   rbind (readInt64 b) (\<lambda>(x', b).
   rbind (readInt32 b) (\<lambda>(y', b).
   rbind (readInt16 b) (\<lambda>(z', b).
   rbind (readInt8 b) (\<lambda>(w', b).
     Inr (x', y', z', w', contents b))))))))) = Inr (x, y, z, w, [])"
proof -
  let ?x = "mem_bytes 8 (unat (hostToNetwork64 x))" and ?y = "mem_bytes 4 (unat (hostToNetwork32 y))"
    and ?z = "mem_bytes 2 (unat (hostToNetwork16 z))" and ?w = "mem_bytes 1 (unat w)"
  obtain b1 where b1: "appendInt64 (new_Buffer n) x = Inr b1" "buf_inv b1" "contents b1 = ?x"
    using append_ok [of "new_Buffer n" ?x] by (auto simp: appendInt64_def)
  obtain b2 where b2: "appendInt32 b1 y = Inr b2" "buf_inv b2" "contents b2 = ?x @ ?y"
    using append_ok [OF b1(2), of ?y] b1(3) by (auto simp: appendInt32_def)
  obtain b3 where b3: "appendInt16 b2 z = Inr b3" "buf_inv b3" "contents b3 = ?x @ ?y @ ?z"
    using append_ok [OF b2(2), of ?z] b2(3) by (auto simp: appendInt16_def)
  obtain b4 where b4: "appendInt8 b3 w = Inr b4" "buf_inv b4" "contents b4 = ?x @ ?y @ ?z @ ?w"
    using append_ok [OF b3(2), of ?w] b3(3) by (auto simp: appendInt8_def)
  obtain c1 where c1: "readInt64 b4 = Inr (x, c1)" "buf_inv c1" "contents c1 = ?y @ ?z @ ?w"
    using readInt64_front [OF b4(2,3)] by blast
  obtain c2 where c2: "readInt32 c1 = Inr (y, c2)" "buf_inv c2" "contents c2 = ?z @ ?w"
    using readInt32_front [OF c1(2,3)] by blast
  obtain c3 where c3: "readInt16 c2 = Inr (z, c3)" "buf_inv c3" "contents c3 = ?w @ []"
    using readInt16_front [OF c2(2,3)] by auto
  obtain c4 where c4: "readInt8 c3 = Inr (w, c4)" "contents c4 = []"
    using readInt8_front [OF c3(2,3)] by blast
  show ?thesis by (simp add: b1 b2 b3 b4 c1 c2 c3 c4)
qed

text \<open>
  C18. Reading from a descriptor whose \<^verbatim>\<open>readv\<close> respects the size of its vectors appends
  exactly the bytes that were read, however they were spread over the buffer and the stack
  area, returns their number, and takes at most 131071 bytes in a call that uses the stack
  area; an error leaves the buffer alone and is reported in the saved errno.
\<close>

theorem buffer_readFd:
  assumes "buf_inv b" "readv_bounded readv"
  shows "\<exists>b' n eno. readFd b readv = Inr (b', n, eno) \<and> buf_inv b' \<and>
           (case readv (if writableBytes b < extrabuf_size then writableBytes b + extrabuf_size
                        else writableBytes b) of
              Inl errno \<Rightarrow> b' = b \<and> n = - 1 \<and> eno = Some errno
            | Inr bytes \<Rightarrow> contents b' = contents b @ bytes \<and> n = int (length bytes) \<and> eno = None \<and>
                (writableBytes b < extrabuf_size \<longrightarrow> n \<le> 131071))"
proof (cases "readv (if writableBytes b < extrabuf_size then writableBytes b + extrabuf_size
                     else writableBytes b)")
  case (Inl errno)
  then show ?thesis using assms(1) by (auto simp: readFd_def Let_def)
next
  case (Inr bytes)
  then have "writableBytes b < extrabuf_size \<longrightarrow> length bytes \<le> 131071"
    using assms(2) by (fastforce simp: readv_bounded_def extrabuf_size_def)
  with readFd_bytes [OF assms Inr] Inr show ?thesis by auto
qed

theorem buffer_readFd_witness:
  "\<exists>b' n eno. readFd (new_Buffer 3) (\<lambda>space. Inr (take space ''abcdef'')) = Inr (b', n, eno) \<and>
     contents b' = ''abcdef'' \<and> n = 6"
proof -
  have "readv_bounded (\<lambda>space. Inr (take space ''abcdef''))"
    by (simp add: readv_bounded_def)
  from buffer_readFd [OF new_Buffer_inv [of 3] this] show ?thesis
    by (auto simp: extrabuf_size_def writableBytes_def new_Buffer_def kCheapPrepend_def
        contents_def readable_from_def)
qed

text \<open>
  The comment on \<^verbatim>\<open>readInt64\<close> asks for \<^verbatim>\<open>sizeof(int32_t)\<close> readable bytes; with four to
  seven of them the call fails its assertion.
\<close>

lemma readInt64_needs_eight:
  "readableBytes b < 8 \<Longrightarrow> readInt64 b = Inl AssertFail"
  by (simp add: readInt64_def peekInt64_def)

text \<open>
  Shrinking keeps the contents, for contents whose length fits the \<^verbatim>\<open>int\<close> of a
  \<^verbatim>\<open>StringPiece\<close>.
\<close>

lemma shrink_ok:
  assumes "buf_inv b" "length (contents b) < 2 ^ 31"
  shows "\<exists>b'. shrink b reserve = Inr b' \<and> buf_inv b' \<and> contents b' = contents b"
proof -
  have "sint (of_nat (readableBytes b) :: 32 word) = int (readableBytes b)"
    using assms by (simp add: signed_of_nat signed_take_bit_int_eq_self)
  then have "toStringPiece b = Inr (contents b)"
    using assms by (simp add: toStringPiece_def take_contents)
  moreover obtain b1 where "ensureWritableBytes (new_Buffer kInitialSize) (readableBytes b + reserve) = Inr b1"
    "buf_inv b1" "contents b1 = []"
    using ensureWritableBytes_ok [of "new_Buffer kInitialSize" "readableBytes b + reserve"] by auto
  ultimately show ?thesis
    using append_ok [of b1 "contents b"] by (auto simp: shrink_def)
qed

end
