(* ===== verification/Net_Http.thy ===== *)
theory Net_Http
  imports Net_Buffer
begin

text \<open>
  The HTTP server of muduo (\<^verbatim>\<open>muduo/net/http\<close>): the request object, the incremental
  request parser \<^verbatim>\<open>HttpContext\<close>, the response writer and the message handler of
  \<^verbatim>\<open>HttpServer\<close>. A character range \<^verbatim>\<open>[start, end)\<close> is the string it spans. The parser's
  loop may spin, so it is a partial function: \<open>None\<close> means that it does not return.
  A connection is what the handler does to it: the list of bytes sent and shutdowns.
\<close>

section \<open>Model\<close>

subsection \<open>Requests\<close>

datatype Method = kInvalid | kGet | kPost | kHead | kPut | kDelete

datatype Version = kUnknown | kHttp10 | kHttp11

type_synonym Timestamp = int

record HttpRequest =
  req_method :: Method
  req_version :: Version
  req_path :: string
  req_query :: string
  receiveTime :: Timestamp
  req_headers :: "string \<rightharpoonup> string"

definition new_HttpRequest :: HttpRequest where
  "new_HttpRequest = \<lparr>req_method = kInvalid, req_version = kUnknown, req_path = [], req_query = [],
     receiveTime = 0, req_headers = Map.empty\<rparr>"

definition setMethod :: "HttpRequest \<Rightarrow> string \<Rightarrow> (bool \<times> HttpRequest) res" where
  "setMethod req m =
     (if req_method req \<noteq> kInvalid then Inl AssertFail
      else
        let meth = (if m = ''GET'' then kGet
                    else if m = ''POST'' then kPost
                    else if m = ''HEAD'' then kHead
                    else if m = ''PUT'' then kPut
                    else if m = ''DELETE'' then kDelete
                    else kInvalid)
        in Inr (meth \<noteq> kInvalid, req\<lparr>req_method := meth\<rparr>))"

fun methodString :: "Method \<Rightarrow> string" where
  "methodString kGet = ''GET''"
| "methodString kPost = ''POST''"
| "methodString kHead = ''HEAD''"
| "methodString kPut = ''PUT''"
| "methodString kDelete = ''DELETE''"
| "methodString kInvalid = ''UNKNOWN''"

text \<open>The loop that removes white space from the end of a header value.\<close>

definition trim_right :: "string \<Rightarrow> string" where
  "trim_right v = rev (dropWhile is_space (rev v))"

definition addHeader :: "HttpRequest \<Rightarrow> string \<Rightarrow> nat \<Rightarrow> HttpRequest" where
  "addHeader req line colon =
     (let field = take colon line;
          val = trim_right (dropWhile is_space (drop (Suc colon) line))
      in req\<lparr>req_headers := (req_headers req)(field \<mapsto> val)\<rparr>)"

definition getHeader :: "HttpRequest \<Rightarrow> string \<Rightarrow> string" where
  "getHeader req field = (case req_headers req field of Some v \<Rightarrow> v | None \<Rightarrow> [])"

subsection \<open>The parser\<close>

datatype HttpRequestParseState = kExpectRequestLine | kExpectHeaders | kExpectBody | kGotAll

record HttpContext =
  state :: HttpRequestParseState
  request :: HttpRequest

definition new_HttpContext :: HttpContext where
  "new_HttpContext = \<lparr>state = kExpectRequestLine, request = new_HttpRequest\<rparr>"

definition gotAll :: "HttpContext \<Rightarrow> bool" where
  "gotAll ctx \<longleftrightarrow> state ctx = kGotAll"

definition reset :: "HttpContext \<Rightarrow> HttpContext" where
  "reset ctx = ctx\<lparr>state := kExpectRequestLine, request := new_HttpRequest\<rparr>"

definition processRequestLine :: "HttpRequest \<Rightarrow> string \<Rightarrow> (bool \<times> HttpRequest) res" where
  "processRequestLine req line =
     (let sp = find_idx (\<lambda>c. c = CHR '' '') line
      in if sp = length line then Inr (False, req)
         else rbind (setMethod req (take sp line)) (\<lambda>(known, req1).
           if \<not> known then Inr (False, req1)
           else
             let start = drop (Suc sp) line;
                 sp2 = find_idx (\<lambda>c. c = CHR '' '') start
             in if sp2 = length start then Inr (False, req1)
                else
                  let target = take sp2 start;
                      question = find_idx (\<lambda>c. c = CHR ''?'') target;
                      req2 = (if question \<noteq> length target
                              then req1\<lparr>req_path := take question target,
                                        req_query := drop question target\<rparr>
                              else req1\<lparr>req_path := target\<rparr>);
                      ver = drop (Suc sp2) start
                  in if length ver = 8 \<and> take 7 ver = ''HTTP/1.''
                     then if ver ! 7 = CHR ''1'' then Inr (True, req2\<lparr>req_version := kHttp11\<rparr>)
                          else if ver ! 7 = CHR ''0'' then Inr (True, req2\<lparr>req_version := kHttp10\<rparr>)
                          else Inr (False, req2)
                     else Inr (False, req2)))"

text \<open>The bytes between the reader index and a position, what the parser looks at.\<close>

definition line_upto :: "Buffer \<Rightarrow> nat \<Rightarrow> string" where
  "line_upto b i = take (i - readerIndex b) (drop (readerIndex b) (buffer b))"

partial_function (option) parseRequest ::
  "HttpContext \<Rightarrow> Buffer \<Rightarrow> Timestamp \<Rightarrow> (bool \<times> HttpContext \<times> Buffer) res option" where
  "parseRequest ctx buf t =
     (if state ctx = kExpectRequestLine then
        (case findCRLF buf of
           None \<Rightarrow> Some (Inr (True, ctx, buf))
         | Some crlf \<Rightarrow>
             (case processRequestLine (request ctx) (line_upto buf crlf) of
                Inl e \<Rightarrow> Some (Inl e)
              | Inr (ok, req) \<Rightarrow>
                  if ok then
                    (case retrieveUntil buf (crlf + 2) of
                       Inl e \<Rightarrow> Some (Inl e)
                     | Inr buf' \<Rightarrow>
                         parseRequest \<lparr>state = kExpectHeaders, request = req\<lparr>receiveTime := t\<rparr>\<rparr> buf' t)
                  else Some (Inr (False, ctx\<lparr>request := req\<rparr>, buf))))
      else if state ctx = kExpectHeaders then
        (case findCRLF buf of
           None \<Rightarrow> Some (Inr (True, ctx, buf))
         | Some crlf \<Rightarrow>
             (let line = line_upto buf crlf; colon = find_idx (\<lambda>c. c = CHR '':'') line
              in if colon \<noteq> length line then
                   (case retrieveUntil buf (crlf + 2) of
                      Inl e \<Rightarrow> Some (Inl e)
                    | Inr buf' \<Rightarrow>
                        parseRequest (ctx\<lparr>request := addHeader (request ctx) line colon\<rparr>) buf' t)
                 else
                   (case retrieveUntil buf (crlf + 2) of
                      Inl e \<Rightarrow> Some (Inl e)
                    | Inr buf' \<Rightarrow> Some (Inr (True, ctx\<lparr>state := kGotAll\<rparr>, buf')))))
      else parseRequest ctx buf t)"

subsection \<open>Responses\<close>

text \<open>\<^verbatim>\<open>std::string\<close> order, and insertion into a \<^verbatim>\<open>std::map\<close> kept as a sorted list.\<close>

fun str_less :: "string \<Rightarrow> string \<Rightarrow> bool" where
  "str_less [] [] = False"
| "str_less [] (y # ys) = True"
| "str_less (x # xs) [] = False"
| "str_less (x # xs) (y # ys) =
     (if x = y then str_less xs ys else (of_char x :: nat) < of_char y)"

fun map_set :: "string \<Rightarrow> 'v \<Rightarrow> (string \<times> 'v) list \<Rightarrow> (string \<times> 'v) list" where
  "map_set k v [] = [(k, v)]"
| "map_set k v ((k', v') # m) =
     (if k = k' then (k, v) # m
      else if str_less k k' then (k, v) # (k', v') # m
      else (k', v') # map_set k v m)"

record HttpResponse =
  resp_headers :: "(string \<times> string) list"
  statusCode :: nat
  statusMessage :: string
  closeConnection :: bool
  body :: string

definition new_HttpResponse :: "bool \<Rightarrow> HttpResponse" where
  "new_HttpResponse close = \<lparr>resp_headers = [], statusCode = 0, statusMessage = [],
     closeConnection = close, body = []\<rparr>"

definition resp_addHeader :: "HttpResponse \<Rightarrow> string \<Rightarrow> string \<Rightarrow> HttpResponse" where
  "resp_addHeader r key val = r\<lparr>resp_headers := map_set key val (resp_headers r)\<rparr>"

definition setContentType :: "HttpResponse \<Rightarrow> string \<Rightarrow> HttpResponse" where
  "setContentType r contentType = resp_addHeader r ''Content-Type'' contentType"

text \<open>\<^verbatim>\<open>snprintf\<close> into a buffer of 32 bytes keeps 31 characters.\<close>

definition snprintf32 :: "string \<Rightarrow> string" where
  "snprintf32 s = take 31 s"

definition response_pieces :: "HttpResponse \<Rightarrow> string list" where
  "response_pieces r =
     [snprintf32 (''HTTP/1.1 '' @ dec_nat (statusCode r) @ '' ''), statusMessage r, kCRLF] @
     (if closeConnection r then [''Connection: close'' @ kCRLF]
      else [snprintf32 (''Content-Length: '' @ dec_nat (length (body r)) @ kCRLF),
            ''Connection: Keep-Alive'' @ kCRLF]) @
     concat (map (\<lambda>(k, v). [k, '': '', v, kCRLF]) (resp_headers r)) @
     [kCRLF, body r]"

definition appendToBuffer :: "HttpResponse \<Rightarrow> Buffer \<Rightarrow> Buffer res" where
  "appendToBuffer r output = foldM append_buf output (response_pieces r)"

subsection \<open>The server's handlers\<close>

datatype conn_action = Send string | Shutdown

definition defaultHttpCallback :: "HttpRequest \<Rightarrow> HttpResponse \<Rightarrow> HttpResponse" where
  "defaultHttpCallback req resp =
     resp\<lparr>statusCode := 404, statusMessage := ''Not Found'', closeConnection := True\<rparr>"

definition onRequest ::
  "(HttpRequest \<Rightarrow> HttpResponse \<Rightarrow> HttpResponse) \<Rightarrow> HttpRequest \<Rightarrow> conn_action list res" where
  "onRequest httpCallback req =
     (let connection = getHeader req ''Connection'';
          close = (connection = ''close'' \<or>
                   (req_version req = kHttp10 \<and> connection \<noteq> ''Keep-Alive''));
          response = httpCallback req (new_HttpResponse close)
      in rbind (appendToBuffer response (new_Buffer kInitialSize)) (\<lambda>buf.
           Inr (Send (contents buf) # (if closeConnection response then [Shutdown] else []))))"

definition onMessage ::
  "(HttpRequest \<Rightarrow> HttpResponse \<Rightarrow> HttpResponse) \<Rightarrow> HttpContext \<Rightarrow> Buffer \<Rightarrow> Timestamp \<Rightarrow>
     (HttpContext \<times> Buffer \<times> conn_action list) res option" where
  "onMessage httpCallback context buf t =
     map_option (\<lambda>r. rbind r (\<lambda>(ok, ctx, buf').
       let acts = (if \<not> ok then [Send (''HTTP/1.1 400 Bad Request'' @ kCRLF @ kCRLF), Shutdown] else [])
       in if gotAll ctx
          then rbind (onRequest httpCallback (request ctx)) (\<lambda>as.
                 Inr (reset ctx, buf', acts @ as))
          else Inr (ctx, buf', acts)))
     (parseRequest context buf t)"

section \<open>The parser over byte strings\<close>

text \<open>
  What the parser does with the bytes in the buffer, as a recursive function on strings;
  the states in which the loop spins have no result.
\<close>

function parse_spec ::
  "HttpContext \<Rightarrow> string \<Rightarrow> Timestamp \<Rightarrow> (bool \<times> HttpContext \<times> string) res option" where
  "parse_spec ctx s t =
     (let k = search kCRLF s
      in if state ctx = kExpectRequestLine then
           (if k = length s then Some (Inr (True, ctx, s))
            else
              (case processRequestLine (request ctx) (take k s) of
                 Inl e \<Rightarrow> Some (Inl e)
               | Inr (ok, req) \<Rightarrow>
                   if ok then parse_spec \<lparr>state = kExpectHeaders, request = req\<lparr>receiveTime := t\<rparr>\<rparr>
                                (drop (k + 2) s) t
                   else Some (Inr (False, ctx\<lparr>request := req\<rparr>, s))))
         else if state ctx = kExpectHeaders then
           (if k = length s then Some (Inr (True, ctx, s))
            else
              let line = take k s; colon = find_idx (\<lambda>c. c = CHR '':'') line
              in if colon \<noteq> length line
                 then parse_spec (ctx\<lparr>request := addHeader (request ctx) line colon\<rparr>) (drop (k + 2) s) t
                 else Some (Inr (True, ctx\<lparr>state := kGotAll\<rparr>, drop (k + 2) s)))
         else None)"
  by pat_completeness auto
termination
  by (relation "measure (\<lambda>(ctx, s, t). length s)")
     (auto dest: search_miss_nonempty)

declare parse_spec.simps [simp del]

text \<open>The observable part of a run: what is left in the buffer counts, not where it lies.\<close>

definition outcome ::
  "(bool \<times> HttpContext \<times> Buffer) res option \<Rightarrow> (bool \<times> HttpContext \<times> string) res option" where
  "outcome r = map_option (map_sum id (\<lambda>(ok, ctx, b). (ok, ctx, contents b))) r"

lemma parseRequest_spins:
  assumes "parseRequest ctx buf t = Some r"
  shows "state ctx = kExpectRequestLine \<or> state ctx = kExpectHeaders"
proof (rule parseRequest.raw_induct
    [where P = "\<lambda>ctx buf t r. state ctx = kExpectRequestLine \<or> state ctx = kExpectHeaders", OF _ assms])
  fix f ctx buf t r
  assume "\<And>ctx buf t r. f ctx buf t = Some r \<Longrightarrow> state ctx = kExpectRequestLine \<or> state ctx = kExpectHeaders"
    and "(if state ctx = kExpectRequestLine then
        (case findCRLF buf of
           None \<Rightarrow> Some (Inr (True, ctx, buf))
         | Some crlf \<Rightarrow>
             (case processRequestLine (request ctx) (line_upto buf crlf) of
                Inl e \<Rightarrow> Some (Inl e)
              | Inr (ok, req) \<Rightarrow>
                  if ok then
                    (case retrieveUntil buf (crlf + 2) of
                       Inl e \<Rightarrow> Some (Inl e)
                     | Inr buf' \<Rightarrow>
                         f \<lparr>state = kExpectHeaders, request = req\<lparr>receiveTime := t\<rparr>\<rparr> buf' t)
                  else Some (Inr (False, ctx\<lparr>request := req\<rparr>, buf))))
      else if state ctx = kExpectHeaders then
        (case findCRLF buf of
           None \<Rightarrow> Some (Inr (True, ctx, buf))
         | Some crlf \<Rightarrow>
             (let line = line_upto buf crlf; colon = find_idx (\<lambda>c. c = CHR '':'') line
              in if colon \<noteq> length line then
                   (case retrieveUntil buf (crlf + 2) of
                      Inl e \<Rightarrow> Some (Inl e)
                    | Inr buf' \<Rightarrow>
                        f (ctx\<lparr>request := addHeader (request ctx) line colon\<rparr>) buf' t)
                 else
                   (case retrieveUntil buf (crlf + 2) of
                      Inl e \<Rightarrow> Some (Inl e)
                    | Inr buf' \<Rightarrow> Some (Inr (True, ctx\<lparr>state := kGotAll\<rparr>, buf')))))
      else f ctx buf t) = Some r"
  then show "state ctx = kExpectRequestLine \<or> state ctx = kExpectHeaders"
    by (auto split: if_splits)
qed

lemma line_upto_contents:
  "buf_inv b \<Longrightarrow> contents b = l @ rest \<Longrightarrow> line_upto b (readerIndex b + length l) = l"
  using take_contents [of "length l" b] length_contents [of b]
  by (simp add: line_upto_def)

subsection \<open>One turn of the loop\<close>

lemma parse_spec_wait:
  "state ctx = kExpectRequestLine \<or> state ctx = kExpectHeaders \<Longrightarrow>
   search kCRLF s = length s \<Longrightarrow> parse_spec ctx s t = Some (Inr (True, ctx, s))"
  by (auto simp: parse_spec.simps [of ctx s])

lemma parse_spec_spins:
  "state ctx \<noteq> kExpectRequestLine \<Longrightarrow> state ctx \<noteq> kExpectHeaders \<Longrightarrow> parse_spec ctx s t = None"
  by (simp add: parse_spec.simps [of ctx s])

lemma parse_spec_request_line:
  assumes "state ctx = kExpectRequestLine" "s = l @ kCRLF @ rest" "search kCRLF s = length l"
  shows "parse_spec ctx s t =
     (case processRequestLine (request ctx) l of
        Inl e \<Rightarrow> Some (Inl e)
      | Inr (ok, req) \<Rightarrow>
          if ok then parse_spec \<lparr>state = kExpectHeaders, request = req\<lparr>receiveTime := t\<rparr>\<rparr> rest t
          else Some (Inr (False, ctx\<lparr>request := req\<rparr>, s)))"
  by (subst parse_spec.simps) (simp add: assms(1,3), simp add: assms(2) split: sum.split prod.split)

lemma parse_spec_header_line:
  assumes "state ctx = kExpectHeaders" "s = l @ kCRLF @ rest" "search kCRLF s = length l"
  shows "parse_spec ctx s t =
     (let colon = find_idx (\<lambda>c. c = CHR '':'') l
      in if colon \<noteq> length l
         then parse_spec (ctx\<lparr>request := addHeader (request ctx) l colon\<rparr>) rest t
         else Some (Inr (True, ctx\<lparr>state := kGotAll\<rparr>, rest)))"
  by (subst parse_spec.simps) (simp add: assms(1,3), simp add: assms(2) Let_def)

lemma parseRequest_wait:
  assumes "state ctx = kExpectRequestLine \<or> state ctx = kExpectHeaders" "findCRLF buf = None"
  shows "parseRequest ctx buf t = Some (Inr (True, ctx, buf))"
  using assms by (subst parseRequest.simps) auto

lemma parseRequest_request_line:
  assumes "state ctx = kExpectRequestLine" "findCRLF buf = Some i" "line_upto buf i = l"
    "retrieveUntil buf (i + 2) = Inr b'"
  shows "parseRequest ctx buf t =
     (case processRequestLine (request ctx) l of
        Inl e \<Rightarrow> Some (Inl e)
      | Inr (ok, req) \<Rightarrow>
          if ok then parseRequest \<lparr>state = kExpectHeaders, request = req\<lparr>receiveTime := t\<rparr>\<rparr> b' t
          else Some (Inr (False, ctx\<lparr>request := req\<rparr>, buf)))"
  by (subst parseRequest.simps) (simp add: assms split: sum.split prod.split del: add_2_eq_Suc')

lemma parseRequest_header_line:
  assumes "state ctx = kExpectHeaders" "findCRLF buf = Some i" "line_upto buf i = l"
    "retrieveUntil buf (i + 2) = Inr b'"
  shows "parseRequest ctx buf t =
     (let colon = find_idx (\<lambda>c. c = CHR '':'') l
      in if colon \<noteq> length l
         then parseRequest (ctx\<lparr>request := addHeader (request ctx) l colon\<rparr>) b' t
         else Some (Inr (True, ctx\<lparr>state := kGotAll\<rparr>, b')))"
  by (subst parseRequest.simps) (simp add: assms Let_def del: add_2_eq_Suc')

text \<open>The parser on a buffer refines the parser on the bytes the buffer holds.\<close>

lemma parseRequest_refines_both:
  "buf_inv buf \<Longrightarrow>
     outcome (parseRequest ctx buf t) = parse_spec ctx (contents buf) t \<and>
     (\<forall>ok ctx' buf'. parseRequest ctx buf t = Some (Inr (ok, ctx', buf')) \<longrightarrow> buf_inv buf')"
proof (induction "length (contents buf)" arbitrary: ctx buf rule: less_induct)
  case less
  show ?case
  proof (cases "state ctx = kExpectRequestLine \<or> state ctx = kExpectHeaders")
    case False
    then have "parseRequest ctx buf t = None"
      using parseRequest_spins [of ctx buf t] by (cases "parseRequest ctx buf t") auto
    with False show ?thesis by (simp add: outcome_def parse_spec_spins)
  next
    case True
    show ?thesis
    proof (rule nb.crlf_cases [OF less.prems])
      assume "findCRLF buf = None" "search kCRLF (contents buf) = length (contents buf)"
      with parseRequest_wait [OF True] parse_spec_wait [OF True] less.prems show ?thesis
        by (simp add: outcome_def)
    next
      fix l rest b'
      assume c: "findCRLF buf = Some (readerIndex buf + length l)"
        "contents buf = l @ kCRLF @ rest" "search kCRLF (contents buf) = length l"
        "retrieveUntil buf (readerIndex buf + length l + 2) = Inr b'" "buf_inv b'" "contents b' = rest"
      note lu = line_upto_contents [OF less.prems c(2)]
      have "length (contents b') < length (contents buf)" unfolding c(2) by (simp add: c(6))
      from less.hyps [OF this c(5)] have
        IH: "outcome (parseRequest ctx' b' t) = parse_spec ctx' rest t"
            "parseRequest ctx' b' t = Some (Inr (ok, ctx'', buf')) \<Longrightarrow> buf_inv buf'" for ctx' ok ctx'' buf'
        by (auto simp: c(6))
      from True show ?thesis
      proof
        assume st: "state ctx = kExpectRequestLine"
        show ?thesis using less.prems
          unfolding parseRequest_request_line [OF st c(1) lu c(4)]
            parse_spec_request_line [OF st c(2,3)]
          by (auto simp: IH outcome_def split: sum.split prod.split
              intro: IH(1) [unfolded outcome_def] IH(2))
      next
        assume st: "state ctx = kExpectHeaders"
        show ?thesis using c(5) IH(2)
          unfolding parseRequest_header_line [OF st c(1) lu c(4)]
            parse_spec_header_line [OF st c(2,3)]
          by (auto simp: Let_def outcome_def c(6) intro: IH(1) [unfolded outcome_def])
      qed
    qed
  qed
qed

lemma parseRequest_refines:
  assumes "buf_inv buf"
  shows "outcome (parseRequest ctx buf t) = parse_spec ctx (contents buf) t"
    and "parseRequest ctx buf t = Some (Inr (ok, ctx', buf')) \<Longrightarrow> buf_inv buf'"
  using parseRequest_refines_both [OF assms] by auto

section \<open>Feeding the parser\<close>

text \<open>
  The parser as the event loop drives it: each chunk that arrives is appended to the
  input buffer and the parser is called, until the request is complete or refused; what
  arrives after that stays in the buffer.
\<close>

fun http_feed ::
  "HttpContext \<Rightarrow> Buffer \<Rightarrow> Timestamp \<Rightarrow> string list \<Rightarrow> (bool \<times> HttpContext \<times> Buffer) res option" where
  "http_feed ctx b t [] = Some (Inr (True, ctx, b))"
| "http_feed ctx b t (c # cs) =
     (case append_buf b c of
        Inl e \<Rightarrow> Some (Inl e)
      | Inr b1 \<Rightarrow>
          (case parseRequest ctx b1 t of
             None \<Rightarrow> None
           | Some (Inl e) \<Rightarrow> Some (Inl e)
           | Some (Inr (ok, ctx1, b2)) \<Rightarrow>
               if ok \<and> \<not> gotAll ctx1 then http_feed ctx1 b2 t cs
               else Some (rbind (foldM append_buf b2 cs) (\<lambda>b3. Inr (ok, ctx1, b3)))))"

text \<open>A request line and header fields as a client writes them.\<close>

fun versionString :: "Version \<Rightarrow> string" where
  "versionString kHttp11 = ''HTTP/1.1''"
| "versionString kHttp10 = ''HTTP/1.0''"
| "versionString kUnknown = []"

definition render_request ::
  "Method \<Rightarrow> string \<Rightarrow> string \<Rightarrow> Version \<Rightarrow> (string \<times> string) list \<Rightarrow> string" where
  "render_request m p q v hs =
     methodString m @ '' '' @ p @ q @ '' '' @ versionString v @ kCRLF @
     concat (map (\<lambda>(k, x). k @ '': '' @ x @ kCRLF) hs) @ kCRLF"

definition wf_header :: "string \<times> string \<Rightarrow> bool" where
  "wf_header h \<longleftrightarrow> (case h of (k, x) \<Rightarrow>
     CHR '':'' \<notin> set k \<and> CHR 0x0D \<notin> set k \<and> CHR 0x0D \<notin> set x \<and>
     (x \<noteq> [] \<longrightarrow> \<not> is_space (hd x) \<and> \<not> is_space (last x)))"

definition wf_request :: "Method \<Rightarrow> string \<Rightarrow> string \<Rightarrow> Version \<Rightarrow> (string \<times> string) list \<Rightarrow> bool" where
  "wf_request m p q v hs \<longleftrightarrow> m \<noteq> kInvalid \<and> v \<noteq> kUnknown \<and>
     (\<forall>c \<in> set p. c \<noteq> CHR '' '' \<and> c \<noteq> CHR ''?'' \<and> c \<noteq> CHR 0x0D) \<and>
     (q = [] \<or> hd q = CHR ''?'') \<and>
     (\<forall>c \<in> set q. c \<noteq> CHR '' '' \<and> c \<noteq> CHR 0x0D) \<and>
     (\<forall>h \<in> set hs. wf_header h)"

lemma search_CRLF_split:
  assumes "search kCRLF s \<noteq> length s"
  obtains l rest where "s = l @ kCRLF @ rest" "search kCRLF s = length l"
proof -
  let ?k = "search kCRLF s"
  have lt: "?k < length s" using assms search_le [of kCRLF s] by linarith
  have "take 2 (drop ?k s) = kCRLF" using search_hit [OF lt] by simp
  then have "drop ?k s = kCRLF @ drop (?k + 2) s"
    using append_take_drop_id [of 2 "drop ?k s"] by (simp add: add.commute)
  then have "s = take ?k s @ kCRLF @ drop (?k + 2) s"
    using append_take_drop_id [of ?k s] by simp
  with lt that show thesis by (metis length_take min.absorb4)
qed

text \<open>
  What the parser has consumed does not depend on what follows: appending more bytes
  before or after a call that has not finished comes to the same, and a finished or
  failed run only gets the new bytes as rest.
\<close>

lemma parse_spec_append:
  "parse_spec ctx (s @ u) t =
     (case parse_spec ctx s t of
        None \<Rightarrow> None
      | Some (Inl e) \<Rightarrow> Some (Inl e)
      | Some (Inr (ok, ctx1, s1)) \<Rightarrow>
          if ok \<and> \<not> gotAll ctx1 then parse_spec ctx1 (s1 @ u) t
          else Some (Inr (ok, ctx1, s1 @ u)))"
proof (induction "length s" arbitrary: ctx s rule: less_induct)
  case less
  consider (spin) "state ctx \<noteq> kExpectRequestLine" "state ctx \<noteq> kExpectHeaders"
    | (wait) "state ctx = kExpectRequestLine \<or> state ctx = kExpectHeaders" "search kCRLF s = length s"
    | (req) "state ctx = kExpectRequestLine" "search kCRLF s \<noteq> length s"
    | (hdr) "state ctx = kExpectHeaders" "search kCRLF s \<noteq> length s" by blast
  then show ?case
  proof cases
    case spin
    then show ?thesis by (simp add: parse_spec_spins)
  next
    case wait
    then have "\<not> gotAll ctx" by (auto simp: gotAll_def)
    with parse_spec_wait [OF wait] show ?thesis by simp
  next
    case req
    from req(2) obtain l rest where s: "s = l @ kCRLF @ rest" "search kCRLF s = length l"
      by (rule search_CRLF_split)
    have "search kCRLF (s @ u) = length l"
      using search_append [of kCRLF s u] s by (metis length_append length_kCRLF not_add_less1
          linorder_neqE_nat req(2) search_le leD)
    note a = parse_spec_request_line [OF req(1) _ this, of "rest @ u"]
    note b = parse_spec_request_line [OF req(1) s]
    have "length rest < length s" by (simp add: s(1))
    from less.hyps [OF this] a b s(1) show ?thesis
      by (auto simp: gotAll_def split: sum.split prod.split)
  next
    case hdr
    from hdr(2) obtain l rest where s: "s = l @ kCRLF @ rest" "search kCRLF s = length l"
      by (rule search_CRLF_split)
    have "search kCRLF (s @ u) = length l"
      using search_append [of kCRLF s u] s by (metis length_append length_kCRLF not_add_less1
          linorder_neqE_nat hdr(2) search_le leD)
    note a = parse_spec_header_line [OF hdr(1) _ this, of "rest @ u"]
    note b = parse_spec_header_line [OF hdr(1) s]
    have "length rest < length s" by (simp add: s(1))
    from less.hyps [OF this] a b s(1) show ?thesis
      by (auto simp: gotAll_def Let_def)
  qed
qed

lemma parse_spec_again:
  assumes "parse_spec ctx s t = Some (Inr (True, ctx1, s1))" "\<not> gotAll ctx1"
  shows "parse_spec ctx1 s1 t = Some (Inr (True, ctx1, s1))"
  using parse_spec_append [of ctx s "[]" t] assms by simp

lemma outcome_Some_Inr:
  assumes "outcome r = Some (Inr (ok, ctx, s))"
  obtains b where "r = Some (Inr (ok, ctx, b))" "contents b = s"
  using assms by (cases r) (auto simp: outcome_def map_sum_def split: sum.splits)

lemma outcome_None: "outcome r = None \<longleftrightarrow> r = None"
  by (simp add: outcome_def)

lemma outcome_Some_Inl: "outcome r = Some (Inl e) \<longleftrightarrow> r = Some (Inl e)"
  by (cases r) (auto simp: outcome_def map_sum_def split: sum.splits)

lemma http_feed_spec:
  assumes "buf_inv b" "parse_spec ctx (contents b) t = Some (Inr (True, ctx, contents b))"
  shows "outcome (http_feed ctx b t cs) = parse_spec ctx (contents b @ concat cs) t"
  using assms
proof (induction cs arbitrary: ctx b)
  case Nil
  then show ?case by (simp add: outcome_def)
next
  case (Cons c cs)
  obtain b1 where b1: "append_buf b c = Inr b1" "buf_inv b1" "contents b1 = contents b @ c"
    using append_ok [OF Cons.prems(1), of c] by blast
  note r = parseRequest_refines [OF b1(2), where ctx = ctx and t = t]
  note app = parse_spec_append [of ctx "contents b1" "concat cs" t]
  show ?case
  proof (cases "parse_spec ctx (contents b1) t")
    case None
    with r(1) app b1 show ?thesis by (simp add: outcome_None)
  next
    case (Some x)
    show ?thesis
    proof (cases x)
      case (Inl e)
      with Some r(1) app b1 show ?thesis by (simp add: outcome_Some_Inl)
    next
      case (Inr y)
      obtain ok ctx1 s1 where y: "y = (ok, ctx1, s1)" by (cases y) auto
      with Some Inr r(1) obtain b2 where
        b2: "parseRequest ctx b1 t = Some (Inr (ok, ctx1, b2))" "contents b2 = s1"
        by (metis outcome_Some_Inr)
      note inv2 = r(2) [OF b2(1)]
      show ?thesis
      proof (cases "ok \<and> \<not> gotAll ctx1")
        case True
        with Cons.IH [OF inv2] parse_spec_again [of ctx "contents b1" t ctx1 s1] Some Inr y b1 b2 app
        show ?thesis by simp
      next
        case False
        obtain b3 where "foldM append_buf b2 cs = Inr b3" "contents b3 = s1 @ concat cs"
          using nb.app_all [OF inv2, of cs] b2(2) by auto
        with False Some Inr y b1 b2 app show ?thesis by (auto simp: outcome_def)
      qed
    qed
  qed
qed

text \<open>
  C19. Parsing is independent of how the request is cut into packets: feeding any list of
  chunks to a fresh connection gives the same verdict, the same request and the same
  unread bytes as parsing the whole text at once.
\<close>

theorem http_parse_incremental:
  "outcome (http_feed new_HttpContext (new_Buffer n) t chunks) =
     outcome (case append_buf (new_Buffer n) (concat chunks) of
                Inl e \<Rightarrow> Some (Inl e) | Inr b \<Rightarrow> parseRequest new_HttpContext b t)"
proof -
  have "search kCRLF [] = length ([] :: string)" by simp
  then have "parse_spec new_HttpContext [] t = Some (Inr (True, new_HttpContext, []))"
    by (intro parse_spec_wait) (simp_all add: new_HttpContext_def)
  then have "outcome (http_feed new_HttpContext (new_Buffer n) t chunks) =
      parse_spec new_HttpContext (concat chunks) t"
    using http_feed_spec [of "new_Buffer n" new_HttpContext t chunks] by simp
  moreover obtain b where "append_buf (new_Buffer n) (concat chunks) = Inr b" "buf_inv b"
    "contents b = concat chunks"
    using append_ok [of "new_Buffer n" "concat chunks"] by auto
  ultimately show ?thesis using parseRequest_refines(1) [of b] by simp
qed

lemma processRequestLine_total:
  assumes "req_method req = kInvalid"
  shows "\<exists>ok req'. processRequestLine req l = Inr (ok, req')"
proof -
  have "is_ok (processRequestLine req l)"
    using assms
    by (simp add: processRequestLine_def setMethod_def Let_def if_distrib [of is_ok]
        cong: if_cong split del: if_split)
  then show ?thesis by (auto simp: is_ok_iff)
qed

lemma parse_spec_total:
  assumes "state ctx = kExpectRequestLine \<or> state ctx = kExpectHeaders"
    "state ctx = kExpectRequestLine \<longrightarrow> req_method (request ctx) = kInvalid"
  shows "\<exists>ok ctx' s'. parse_spec ctx s t = Some (Inr (ok, ctx', s')) \<and> length s' \<le> length s"
  using assms
proof (induction "length s" arbitrary: ctx s rule: less_induct)
  case less
  show ?case
  proof (cases "search kCRLF s = length s")
    case True
    with parse_spec_wait [OF less.prems(1)] show ?thesis by auto
  next
    case False
    then obtain l rest where s: "s = l @ kCRLF @ rest" "search kCRLF s = length l"
      by (rule search_CRLF_split)
    have lt: "length rest < length s" by (simp add: s(1))
    from less.prems(1) show ?thesis
    proof
      assume st: "state ctx = kExpectRequestLine"
      with less.prems(2) processRequestLine_total [of "request ctx" l] obtain ok req where
        "processRequestLine (request ctx) l = Inr (ok, req)" by auto
      with less.hyps [OF lt, of "\<lparr>state = kExpectHeaders, request = req\<lparr>receiveTime := t\<rparr>\<rparr>"] lt
      show ?thesis by (cases ok) (fastforce simp: parse_spec_request_line [OF st s])+
    next
      assume st: "state ctx = kExpectHeaders"
      with less.hyps [OF lt, of "ctx\<lparr>request := addHeader (request ctx) l i\<rparr>" for i] lt
      show ?thesis by (fastforce simp: parse_spec_header_line [OF st s] Let_def)
    qed
  qed
qed

text \<open>
  C20. The parser always returns, and never in a fault, in the two states it is entered in:
  with a request line or header fields outstanding, and for the request line with no
  method recorded yet. In the other two states its loop spins for ever.
\<close>

theorem http_parse_total:
  assumes "buf_inv b" "state ctx = kExpectRequestLine \<longrightarrow> req_method (request ctx) = kInvalid"
  shows "case state ctx of
      kExpectRequestLine \<Rightarrow> \<exists>ok ctx' b'. parseRequest ctx b t = Some (Inr (ok, ctx', b')) \<and>
        buf_inv b' \<and> length (contents b') \<le> length (contents b)
    | kExpectHeaders \<Rightarrow> \<exists>ok ctx' b'. parseRequest ctx b t = Some (Inr (ok, ctx', b')) \<and>
        buf_inv b' \<and> length (contents b') \<le> length (contents b)
    | kExpectBody \<Rightarrow> parseRequest ctx b t = None
    | kGotAll \<Rightarrow> parseRequest ctx b t = None"
proof -
  note r = parseRequest_refines [OF assms(1), where ctx = ctx and t = t]
  have "\<exists>ok ctx' b'. parseRequest ctx b t = Some (Inr (ok, ctx', b')) \<and> buf_inv b' \<and>
      length (contents b') \<le> length (contents b)"
    if "state ctx = kExpectRequestLine \<or> state ctx = kExpectHeaders"
    using parse_spec_total [OF that assms(2), of "contents b" t] r by (metis outcome_Some_Inr)
  moreover have "parseRequest ctx b t = None"
    if "state ctx \<noteq> kExpectRequestLine" "state ctx \<noteq> kExpectHeaders"
    using parse_spec_spins [OF that] r(1) by (simp add: outcome_None)
  ultimately show ?thesis by (cases "state ctx") simp_all
qed

theorem http_parse_total_witness:
  "\<exists>ok ctx' b'. parseRequest new_HttpContext (new_Buffer 4) 7 = Some (Inr (ok, ctx', b')) \<and>
     length (contents b') = 0"
  using http_parse_total [of "new_Buffer 4" new_HttpContext 7]
  by (auto simp: new_HttpContext_def new_HttpRequest_def)

subsection \<open>Reading back a written request\<close>

lemma find_idx_prefix:
  "(\<forall>c \<in> set xs. \<not> P c) \<Longrightarrow> P y \<Longrightarrow> find_idx P (xs @ y # ys) = length xs"
  by (rule find_idx_append)

lemma search_CRLF_line: "CHR 0x0D \<notin> set l \<Longrightarrow> search kCRLF (l @ kCRLF @ rest) = length l"
  using search_pair [of "CHR 0x0D" l "CHR 0x0A" rest] by (simp add: kCRLF_def)

lemma setMethod_methodString:
  "m \<noteq> kInvalid \<Longrightarrow> req_method req = kInvalid \<Longrightarrow>
     setMethod req (methodString m) = Inr (True, req\<lparr>req_method := m\<rparr>)"
  by (cases m) (simp_all add: setMethod_def)

lemma methodString_chars: "c \<in> set (methodString m) \<Longrightarrow> c \<noteq> CHR '' '' \<and> c \<noteq> CHR 0x0D"
  by (cases m) auto

lemma versionString_props:
  "v \<noteq> kUnknown \<Longrightarrow> length (versionString v) = 8 \<and> take 7 (versionString v) = ''HTTP/1.'' \<and>
     versionString v ! 7 = (if v = kHttp11 then CHR ''1'' else CHR ''0'') \<and>
     CHR 0x0D \<notin> set (versionString v)"
  by (cases v) simp_all

lemma target_split:
  assumes "\<forall>c \<in> set p. c \<noteq> CHR ''?''" "q = [] \<or> hd q = CHR ''?''"
  shows "find_idx (\<lambda>c. c = CHR ''?'') (p @ q) = length p"
proof (cases q)
  case Nil
  then show ?thesis using assms(1) by (simp add: find_idx_none)
next
  case (Cons c q')
  then show ?thesis using assms find_idx_prefix [of p "\<lambda>c. c = CHR ''?''" c q'] by simp
qed

lemma processRequestLine_render:
  assumes "wf_request m p q v hs" "req_method req = kInvalid" "req_query req = []"
  shows "processRequestLine req (methodString m @ '' '' @ (p @ q) @ '' '' @ versionString v) =
     Inr (True, req\<lparr>req_method := m, req_path := p, req_query := q, req_version := v\<rparr>)"
proof -
  let ?line = "methodString m @ '' '' @ (p @ q) @ '' '' @ versionString v"
  let ?sp = "\<lambda>c. c = CHR '' ''"
  have v: "length (versionString v) = 8" "take 7 (versionString v) = ''HTTP/1.''"
    "versionString v ! 7 = (if v = kHttp11 then CHR ''1'' else CHR ''0'')" "v \<noteq> kUnknown"
    using assms(1) versionString_props [of v] by (auto simp: wf_request_def)
  have f1: "find_idx ?sp ?line = length (methodString m)"
    using find_idx_prefix [of "methodString m" ?sp] methodString_chars by simp
  have f2: "find_idx ?sp ((p @ q) @ '' '' @ versionString v) = length (p @ q)"
    using find_idx_prefix [of "p @ q" ?sp "CHR '' ''" "versionString v"] assms(1)
    by (auto simp: wf_request_def)
  have f3: "find_idx (\<lambda>c. c = CHR ''?'') (p @ q) = length p"
    using assms(1) by (intro target_split) (auto simp: wf_request_def)
  have sm: "setMethod req (methodString m) = Inr (True, req\<lparr>req_method := m\<rparr>)"
    using assms by (intro setMethod_methodString) (auto simp: wf_request_def)
  have "processRequestLine req ?line = Inr (True, (if length p \<noteq> length (p @ q)
      then req\<lparr>req_method := m, req_path := p, req_query := q\<rparr>
      else req\<lparr>req_method := m, req_path := p @ q\<rparr>)\<lparr>req_version := v\<rparr>)"
    using v sm f1 f2 f3 by (cases v) (simp_all add: processRequestLine_def Let_def)
  then show ?thesis using assms(3) by (cases q) simp_all
qed

lemma trim_right_id: "x = [] \<or> \<not> is_space (last x) \<Longrightarrow> trim_right x = x"
  by (cases x rule: rev_cases) (auto simp: trim_right_def)

lemma addHeader_render:
  assumes "wf_header (k, x)"
  shows "find_idx (\<lambda>c. c = CHR '':'') (k @ '': '' @ x) = length k"
    and "addHeader req (k @ '': '' @ x) (length k) =
           req\<lparr>req_headers := (req_headers req)(k \<mapsto> x)\<rparr>"
proof -
  show "find_idx (\<lambda>c. c = CHR '':'') (k @ '': '' @ x) = length k"
    using assms find_idx_prefix [of k "\<lambda>c. c = CHR '':''"] by (auto simp: wf_header_def)
  have "dropWhile is_space (CHR '' '' # x) = x"
    using assms by (cases x) (auto simp: wf_header_def is_space_def)
  then show "addHeader req (k @ '': '' @ x) (length k) =
      req\<lparr>req_headers := (req_headers req)(k \<mapsto> x)\<rparr>"
    using assms trim_right_id [of x] by (auto simp: addHeader_def wf_header_def)
qed

lemma parse_spec_headers:
  assumes "state ctx = kExpectHeaders" "\<forall>h \<in> set hs. wf_header h"
  shows "parse_spec ctx (concat (map (\<lambda>(k, x). k @ '': '' @ x @ kCRLF) hs) @ kCRLF @ rest) t =
     Some (Inr (True, ctx\<lparr>state := kGotAll, request := (request ctx)
       \<lparr>req_headers := req_headers (request ctx) ++ map_of (rev hs)\<rparr>\<rparr>, rest))"
  using assms
proof (induction hs arbitrary: ctx)
  case Nil
  have "search kCRLF ([] @ kCRLF @ rest) = 0" using search_CRLF_line [of "[]" rest] by simp
  with parse_spec_header_line [OF Nil(1), of "kCRLF @ rest" "[]" rest] show ?case
    by simp
next
  case (Cons h hs)
  obtain k x where h: "h = (k, x)" by (cases h)
  let ?l = "k @ '': '' @ x"
  let ?rest = "concat (map (\<lambda>(k, x). k @ '': '' @ x @ kCRLF) hs) @ kCRLF @ rest"
  have wf: "wf_header (k, x)" using Cons.prems(2) h by simp
  have s: "search kCRLF (?l @ kCRLF @ ?rest) = length ?l"
    using wf by (intro search_CRLF_line) (auto simp: wf_header_def)
  note step = parse_spec_header_line [OF Cons.prems(1) refl s]
  from wf have "find_idx (\<lambda>c. c = CHR '':'') ?l \<noteq> length ?l"
    by (simp only: addHeader_render(1)) simp
  with step addHeader_render [OF wf]
  have "parse_spec ctx (?l @ kCRLF @ ?rest) t = parse_spec (ctx\<lparr>request := (request ctx)
      \<lparr>req_headers := (req_headers (request ctx))(k \<mapsto> x)\<rparr>\<rparr>) ?rest t"
    by (simp add: Let_def)
  moreover have "(\<lambda>a. if a = k then Some x else req_headers (request ctx) a) =
      (req_headers (request ctx))(k \<mapsto> x)" by (simp add: fun_eq_iff)
  ultimately show ?case
    using Cons.IH [of "ctx\<lparr>request := (request ctx)
      \<lparr>req_headers := (req_headers (request ctx))(k \<mapsto> x)\<rparr>\<rparr>"] Cons.prems h
    by simp
qed

lemma parse_spec_render:
  assumes "wf_request m p q v hs"
  shows "parse_spec new_HttpContext (render_request m p q v hs @ rest) t =
     Some (Inr (True, \<lparr>state = kGotAll, request =
       \<lparr>req_method = m, req_version = v, req_path = p, req_query = q, receiveTime = t,
        req_headers = map_of (rev hs)\<rparr>\<rparr>, rest))"
proof -
  let ?l = "methodString m @ '' '' @ (p @ q) @ '' '' @ versionString v"
  let ?rest = "concat (map (\<lambda>(k, x). k @ '': '' @ x @ kCRLF) hs) @ kCRLF @ rest"
  have s: "search kCRLF (?l @ kCRLF @ ?rest) = length ?l"
  proof (rule search_CRLF_line)
    have "CHR 0x0D \<notin> set (methodString m)" using methodString_chars by blast
    moreover have "CHR 0x0D \<notin> set p" "CHR 0x0D \<notin> set q" "v \<noteq> kUnknown"
      using assms unfolding wf_request_def by blast+
    moreover from \<open>v \<noteq> kUnknown\<close> have "CHR 0x0D \<notin> set (versionString v)"
      by (simp add: versionString_props)
    ultimately show "CHR 0x0D \<notin> set ?l" by simp
  qed
  have st: "state new_HttpContext = kExpectRequestLine" "request new_HttpContext = new_HttpRequest"
    by (simp_all add: new_HttpContext_def)
  have line: "processRequestLine new_HttpRequest ?l = Inr (True, new_HttpRequest\<lparr>req_method := m,
        req_path := p, req_query := q, req_version := v\<rparr>)"
    by (rule processRequestLine_render [OF assms]) (simp_all add: new_HttpRequest_def)
  have "parse_spec new_HttpContext (?l @ kCRLF @ ?rest) t =
      parse_spec \<lparr>state = kExpectHeaders, request = new_HttpRequest\<lparr>req_method := m,
        req_path := p, req_query := q, req_version := v, receiveTime := t\<rparr>\<rparr> ?rest t"
    unfolding parse_spec_request_line [OF st(1) refl s] st(2) line by simp
  also have "\<dots> = Some (Inr (True, \<lparr>state = kGotAll, request =
       \<lparr>req_method = m, req_version = v, req_path = p, req_query = q, receiveTime = t,
        req_headers = map_of (rev hs)\<rparr>\<rparr>, rest))"
    using assms by (subst parse_spec_headers) (auto simp: wf_request_def new_HttpRequest_def)
  finally show ?thesis by (simp add: render_request_def)
qed

text \<open>
  C21. A well-formed request that a client has written out is read back as it was: method,
  path, query, version and header fields (a repeated field keeps its last value), stamped
  with the time of arrival, and the bytes after the blank line stay in the buffer.
\<close>

theorem http_request_roundtrip:
  assumes "wf_request m p q v hs" "buf_inv b" "contents b = render_request m p q v hs @ rest"
  shows "\<exists>ctx b'. parseRequest new_HttpContext b t = Some (Inr (True, ctx, b')) \<and> gotAll ctx \<and>
     buf_inv b' \<and> contents b' = rest \<and>
     request ctx = \<lparr>req_method = m, req_version = v, req_path = p, req_query = q,
       receiveTime = t, req_headers = map_of (rev hs)\<rparr>"
proof -
  note r = parseRequest_refines [OF assms(2), where ctx = new_HttpContext and t = t]
  let ?ctx = "\<lparr>state = kGotAll, request = \<lparr>req_method = m, req_version = v, req_path = p,
    req_query = q, receiveTime = t, req_headers = map_of (rev hs)\<rparr>\<rparr>"
  from r(1) have "outcome (parseRequest new_HttpContext b t) = Some (Inr (True, ?ctx, rest))"
    using parse_spec_render [OF assms(1)] assms(3) by simp
  then obtain b' where "parseRequest new_HttpContext b t = Some (Inr (True, ?ctx, b'))"
    "contents b' = rest" by (rule outcome_Some_Inr)
  with r(2) show ?thesis by (auto simp: gotAll_def)
qed

lemma get_example_wf:
  "wf_request kGet ''/index'' ''?q=1'' kHttp11 [(''Host'', ''a b''), (''Accept'', [])]"
  by (simp add: wf_request_def wf_header_def is_space_def)

theorem http_request_roundtrip_witness:
  "\<exists>b ctx b'. append_buf (new_Buffer 0)
       (render_request kGet ''/index'' ''?q=1'' kHttp11 [(''Host'', ''a b''), (''Accept'', [])] @ ''xyz'') = Inr b \<and>
     parseRequest new_HttpContext b 5 = Some (Inr (True, ctx, b')) \<and> contents b' = ''xyz'' \<and>
     getHeader (request ctx) ''Host'' = ''a b'' \<and> req_path (request ctx) = ''/index''"
proof -
  let ?r = "render_request kGet ''/index'' ''?q=1'' kHttp11 [(''Host'', ''a b''), (''Accept'', [])]"
  obtain b where b: "append_buf (new_Buffer 0) (?r @ ''xyz'') = Inr b" "buf_inv b"
    "contents b = ?r @ ''xyz''"
    using append_ok [of "new_Buffer 0" "?r @ ''xyz''"] by auto
  from http_request_roundtrip [OF get_example_wf b(2,3), of 5] b(1) show ?thesis
    by (auto simp: getHeader_def)
qed

subsection \<open>The message handler\<close>

lemma appendToBuffer_new:
  "\<exists>b. appendToBuffer r (new_Buffer n) = Inr b \<and> buf_inv b \<and> contents b = concat (response_pieces r)"
  using nb.app_all [of "new_Buffer n" "response_pieces r"] by (auto simp: appendToBuffer_def)

lemma onRequest_eq:
  "onRequest cb req =
     (let connection = getHeader req ''Connection'';
          response = cb req (new_HttpResponse (connection = ''close'' \<or>
            (req_version req = kHttp10 \<and> connection \<noteq> ''Keep-Alive'')))
      in Inr (Send (concat (response_pieces response)) #
           (if closeConnection response then [Shutdown] else [])))"
proof -
  let ?r = "cb req (new_HttpResponse (getHeader req ''Connection'' = ''close'' \<or>
            (req_version req = kHttp10 \<and> getHeader req ''Connection'' \<noteq> ''Keep-Alive'')))"
  from appendToBuffer_new [of ?r kInitialSize] show ?thesis
    by (auto simp: onRequest_def Let_def)
qed

lemma parseRequest_render:
  assumes "wf_request m p q v hs" "buf_inv b" "contents b = render_request m p q v hs @ rest"
  obtains b' where "parseRequest new_HttpContext b t = Some (Inr (True, \<lparr>state = kGotAll, request =
       \<lparr>req_method = m, req_version = v, req_path = p, req_query = q, receiveTime = t,
        req_headers = map_of (rev hs)\<rparr>\<rparr>, b'))" "buf_inv b'" "contents b' = rest"
  using parse_spec_render [OF assms(1), of rest t] assms(3)
    parseRequest_refines [OF assms(2), where ctx = new_HttpContext and t = t]
  by (metis (no_types, lifting) outcome_Some_Inr)

text \<open>
  C23. The server answers a complete request with exactly one response, built by the
  callback from a response that closes for \<^verbatim>\<open>Connection: close\<close> and for HTTP/1.0 without
  \<^verbatim>\<open>Keep-Alive\<close>; it shuts the connection down when the response says so, and is then
  ready for the next request with a fresh context and the unread bytes.
\<close>

theorem http_onMessage_complete:
  assumes "wf_request m p q v hs" "buf_inv b" "contents b = render_request m p q v hs @ rest"
  shows "\<exists>b'. onMessage cb new_HttpContext b t =
     (let req = \<lparr>req_method = m, req_version = v, req_path = p, req_query = q,
                 receiveTime = t, req_headers = map_of (rev hs)\<rparr>;
          conn = (case map_of (rev hs) ''Connection'' of Some x \<Rightarrow> x | None \<Rightarrow> []);
          resp = cb req (new_HttpResponse (conn = ''close'' \<or> (v = kHttp10 \<and> conn \<noteq> ''Keep-Alive'')))
      in Some (Inr (new_HttpContext, b', Send (concat (response_pieces resp)) #
           (if closeConnection resp then [Shutdown] else [])))) \<and>
     buf_inv b' \<and> contents b' = rest"
proof -
  obtain b' where c: "parseRequest new_HttpContext b t = Some (Inr (True, \<lparr>state = kGotAll, request =
       \<lparr>req_method = m, req_version = v, req_path = p, req_query = q, receiveTime = t,
        req_headers = map_of (rev hs)\<rparr>\<rparr>, b'))" "buf_inv b'" "contents b' = rest"
    by (rule parseRequest_render [OF assms])
  have "reset ctx = new_HttpContext" for ctx by (simp add: reset_def new_HttpContext_def)
  with c show ?thesis
    by (intro exI [of _ b']) (simp add: onMessage_def onRequest_eq getHeader_def gotAll_def Let_def)
qed

theorem http_onMessage_complete_witness:
  "\<exists>b b'. append_buf (new_Buffer 0) (render_request kGet ''/'' [] kHttp10 []) = Inr b \<and>
     onMessage defaultHttpCallback new_HttpContext b 5 =
       Some (Inr (new_HttpContext, b',
         [Send (''HTTP/1.1 404 Not Found'' @ kCRLF @ ''Connection: close'' @ kCRLF @ kCRLF), Shutdown]))"
proof -
  let ?r = "render_request kGet ''/'' [] kHttp10 []"
  have wf: "wf_request kGet ''/'' [] kHttp10 []" by (simp add: wf_request_def)
  obtain b where b: "append_buf (new_Buffer 0) ?r = Inr b" "buf_inv b" "contents b = ?r @ []"
    using append_ok [of "new_Buffer 0" ?r] by auto
  have "dec_nat 404 = ''404''" by code_simp
  with http_onMessage_complete [OF wf b(2,3), of defaultHttpCallback 5] b(1) show ?thesis
    by (auto simp: Let_def defaultHttpCallback_def new_HttpResponse_def response_pieces_def
        snprintf32_def)
qed

subsection \<open>After a refused request line\<close>

lemma parse_spec_headers_ok:
  "state ctx = kExpectHeaders \<Longrightarrow> parse_spec ctx s t = Some (Inr (ok, ctx', s')) \<Longrightarrow> ok"
proof (induction "length s" arbitrary: ctx s rule: less_induct)
  case less
  show ?case
  proof (cases "search kCRLF s = length s")
    case True
    with less.prems parse_spec_wait [of ctx s t] show ?thesis by simp
  next
    case False
    then obtain l rest where s: "s = l @ kCRLF @ rest" "search kCRLF s = length l"
      by (rule search_CRLF_split)
    have lt: "length rest < length s" by (simp add: s(1))
    let ?ctx = "\<lambda>i. ctx\<lparr>request := addHeader (request ctx) l i\<rparr>"
    from less.hyps [OF lt, of "?ctx i" for i] less.prems show ?thesis
      by (simp add: parse_spec_header_line [OF less.prems(1) s] Let_def split: if_splits)
  qed
qed

lemma parse_spec_refused:
  assumes "parse_spec ctx s t = Some (Inr (False, ctx', s'))"
  obtains l rest req where "s = l @ kCRLF @ rest" "search kCRLF s = length l"
    "state ctx = kExpectRequestLine" "processRequestLine (request ctx) l = Inr (False, req)"
    "ctx' = ctx\<lparr>request := req\<rparr>" "s' = s"
proof -
  have st: "state ctx = kExpectRequestLine"
    using assms parse_spec_headers_ok [of ctx s t False] parse_spec_spins [of ctx s t] by fastforce
  have "search kCRLF s \<noteq> length s"
    using assms st parse_spec_wait [of ctx s t] by auto
  then obtain l rest where s: "s = l @ kCRLF @ rest" "search kCRLF s = length l"
    by (rule search_CRLF_split)
  from assms that [OF s st] show thesis
    by (auto simp: parse_spec_request_line [OF st s] split: sum.splits prod.splits if_splits
        dest: parse_spec_headers_ok [rotated])
qed

lemma processRequestLine_method:
  "processRequestLine req l = Inr (ok, req') \<Longrightarrow> req_method req' \<noteq> req_method req \<Longrightarrow>
     find_idx (\<lambda>c. c = CHR '' '') l \<noteq> length l"
  by (auto simp: processRequestLine_def Let_def)

lemma processRequestLine_assert:
  "req_method req \<noteq> kInvalid \<Longrightarrow> find_idx (\<lambda>c. c = CHR '' '') l \<noteq> length l \<Longrightarrow>
     processRequestLine req l = Inl AssertFail"
  by (simp add: processRequestLine_def setMethod_def Let_def)

text \<open>
  C25. A request line that is refused after its method was recognised leaves the context in a
  state from which the next message stops the program: the parser sees the same line
  again and the assertion in \<^verbatim>\<open>setMethod\<close> fails, whatever has been received meanwhile.
  The handler only shuts down the writing side, so a further message can arrive.
\<close>

theorem http_refused_line_then_assert:
  assumes "buf_inv b" "parseRequest new_HttpContext b t = Some (Inr (False, ctx, b'))"
    "req_method (request ctx) \<noteq> kInvalid" "append_buf b' u = Inr b''"
  shows "parseRequest ctx b'' t2 = Some (Inl AssertFail)"
proof -
  note r = parseRequest_refines [OF assms(1), where ctx = new_HttpContext and t = t]
  have "parse_spec new_HttpContext (contents b) t = Some (Inr (False, ctx, contents b'))"
    using r(1) assms(2) by (simp add: outcome_def)
  then obtain l rest req where p: "contents b = l @ kCRLF @ rest" "search kCRLF (contents b) = length l"
    "processRequestLine (request new_HttpContext) l = Inr (False, req)"
    "ctx = new_HttpContext\<lparr>request := req\<rparr>" "contents b' = contents b"
    by (rule parse_spec_refused)
  have b'': "buf_inv b''" "contents b'' = l @ kCRLF @ rest @ u"
    using append_ok [OF r(2) [OF assms(2)], of u] assms(4) p(1,5) by auto
  have st: "state ctx = kExpectRequestLine" by (simp add: p(4) new_HttpContext_def)
  have "search kCRLF (contents b'') = length l"
    using search_append [of kCRLF "contents b" u] p(1,2) b''(2) by simp
  note step = parse_spec_request_line [OF st b''(2) this, of t2]
  have "find_idx (\<lambda>c. c = CHR '' '') l \<noteq> length l"
    using processRequestLine_method [OF p(3)] assms(3) p(4)
    by (simp add: new_HttpContext_def new_HttpRequest_def)
  then have "processRequestLine (request ctx) l = Inl AssertFail"
    using assms(3) by (intro processRequestLine_assert)
  with step parseRequest_refines(1) [OF b''(1), of ctx t2] show ?thesis
    by (simp add: outcome_Some_Inl)
qed

theorem http_refused_line_then_assert_witness:
  "\<exists>b ctx b' b''. append_buf (new_Buffer 0) (''GET / HTTP/2.0'' @ kCRLF) = Inr b \<and>
     parseRequest new_HttpContext b 1 = Some (Inr (False, ctx, b')) \<and>
     append_buf b' ''x'' = Inr b'' \<and> parseRequest ctx b'' 2 = Some (Inl AssertFail)"
proof -
  let ?s = "''GET / HTTP/2.0'' @ kCRLF"
  obtain b where b: "append_buf (new_Buffer 0) ?s = Inr b" "buf_inv b" "contents b = ?s"
    using append_ok [of "new_Buffer 0" ?s] by auto
  have "\<exists>ctx b'. parseRequest new_HttpContext b 1 = Some (Inr (False, ctx, b')) \<and>
      req_method (request ctx) = kGet"
  proof -
    have s: "search kCRLF (''GET / HTTP/2.0'' @ kCRLF @ []) = length ''GET / HTTP/2.0''"
      by (rule search_CRLF_line) simp
    have st: "state new_HttpContext = kExpectRequestLine" by (simp add: new_HttpContext_def)
    have p: "processRequestLine (request new_HttpContext) ''GET / HTTP/2.0'' =
        Inr (False, new_HttpRequest\<lparr>req_method := kGet, req_path := ''/''\<rparr>)"
      by (simp add: processRequestLine_def setMethod_def new_HttpContext_def new_HttpRequest_def Let_def)
    have "outcome (parseRequest new_HttpContext b 1) = Some (Inr (False,
        new_HttpContext\<lparr>request := new_HttpRequest\<lparr>req_method := kGet, req_path := ''/''\<rparr>\<rparr>, ?s))"
      using parse_spec_request_line [OF st refl s, of 1] p parseRequest_refines(1) [OF b(2)] b(3)
      by simp
    then show ?thesis by (rule outcome_Some_Inr) simp
  qed
  then obtain ctx b' where c: "parseRequest new_HttpContext b 1 = Some (Inr (False, ctx, b'))"
    "req_method (request ctx) \<noteq> kInvalid" by auto
  obtain b'' where d: "append_buf b' ''x'' = Inr b''"
    using append_ok [OF parseRequest_refines(2) [OF b(2) c(1)]] by blast
  from b(1) c(1) d http_refused_line_then_assert [OF b(2) c d] show ?thesis by blast
qed

end
