(* ===== verification/Raft_State.thy ===== *)
theory Raft_State
  imports Prelude
begin

text \<open>
  The data of a Raft peer of \<^verbatim>\<open>6.824/src/kvRaft/raft.hpp\<close>: messages, log entries, the
  persister, the peer object; the text formats in which operations, log entries and the
  persistent state travel and are stored; and persistence itself. The two files a peer
  keeps (\<^verbatim>\<open>persister-id\<close> and \<^verbatim>\<open>snapShot-id\<close>) are fields of the state, \<open>None\<close> when
  absent. Terms and indices are \<^verbatim>\<open>int\<close>s that stay far from their bounds and are modelled
  by mathematical integers; \<^verbatim>\<open>gettimeofday\<close> is a parameter. Every read outside a vector
  is the fault \<open>BadAccess\<close>.
\<close>

section \<open>Model\<close>

subsection \<open>Messages and log entries\<close>

record InstallSnapShotArgs =
  ia_term :: int
  ia_leaderId :: int
  ia_lastIncludedIndex :: int
  ia_lastIncludedTerm :: int
  ia_snapShot :: string

record InstallSnapSHotReply =
  ir_term :: int

record Operation =
  op :: string
  key :: string
  val :: string
  clientId :: int
  requestId :: int
  op_term :: int
  op_index :: int

definition getCmd :: "Operation \<Rightarrow> string" where
  "getCmd x = op x @ '' '' @ key x @ '' '' @ val x @ '' '' @
     to_string (clientId x) @ '' '' @ to_string (requestId x)"

record StartRet =
  m_cmdIndex :: int
  sr_curTerm :: int
  isLeader :: bool

definition new_StartRet :: StartRet where
  "new_StartRet = \<lparr>m_cmdIndex = - 1, sr_curTerm = - 1, isLeader = False\<rparr>"

record ApplyMsg =
  commandValid :: bool
  command :: string
  commandIndex :: int
  commandTerm :: int
  am_lastIncludedIndex :: int
  am_lastIncludedTerm :: int
  am_snapShot :: string

definition vec_at :: "'a list \<Rightarrow> int \<Rightarrow> 'a res" where
  "vec_at xs i = (if i < 0 then Inl BadAccess else at xs (nat i))"

text \<open>The words of a command: cut at blanks, the last one also without a blank after it.\<close>

definition words :: "string \<Rightarrow> string list" where
  "words s = (let (ps, tmp) = cut (CHR '' '') [] s in ps @ (if tmp \<noteq> [] then [tmp] else []))"

definition getOperation :: "ApplyMsg \<Rightarrow> Operation res" where
  "getOperation msg =
     (let str = words (command msg)
      in rbind (at str 0) (\<lambda>s0. rbind (at str 1) (\<lambda>s1. rbind (at str 2) (\<lambda>s2.
         rbind (at str 3) (\<lambda>s3. rbind (at str 4) (\<lambda>s4.
           Inr \<lparr>op = s0, key = s1, val = s2, clientId = atoi s3, requestId = atoi s4,
                op_term = commandTerm msg, op_index = 0\<rparr>))))))"

record PeersInfo =
  m_port :: "int \<times> int"
  peerId :: int
  isInstallFlag :: bool

record LogEntry =
  m_command :: string
  m_term :: int

record Persister =
  p_logs :: "LogEntry list"
  snapShot :: string
  cur_term :: int
  votedFor :: int
  p_lastIncludedIndex :: int
  p_lastIncludedTerm :: int

record AppendEntriesArgs =
  aa_term :: int
  aa_leaderId :: int
  m_prevLogIndex :: int
  m_prevLogTerm :: int
  m_leaderCommit :: int
  m_sendLogs :: string

record AppendEntriesReply =
  ar_term :: int
  m_success :: bool
  m_conflict_term :: int
  m_conflict_index :: int

record RequestVoteArgs =
  ra_term :: int
  candidateId :: int
  lastLogTerm :: int
  lastLogIndex :: int

record RequestVoteReply =
  rr_term :: int
  VoteGranted :: bool

datatype RAFT_STATE = LEADER | CANDIDATE | FOLLOWER

record timeval =
  tv_sec :: int
  tv_usec :: int

record Raft =
  m_peers :: "PeersInfo list"
  persister :: Persister
  m_peerId :: int
  dead :: bool
  m_curTerm :: int
  m_votedFor :: int
  m_logs :: "LogEntry list"
  m_lastIncludedIndex :: int
  m_lastIncludedTerm :: int
  m_nextIndex :: "int list"
  m_matchIndex :: "int list"
  m_lastApplied :: int
  m_commitIndex :: int
  recvVotes :: int
  finishedVote :: int
  cur_peerId :: int
  m_state :: RAFT_STATE
  m_leaderId :: int
  m_lastWakeTime :: timeval
  m_lastBroadcastTime :: timeval
  m_msgs :: "ApplyMsg list"
  isExistIndex :: "nat set"
  persist_file :: "string option"
  snap_file :: "string option"

subsection \<open>Log positions\<close>

definition lastIndex :: "Raft \<Rightarrow> int" where
  "lastIndex r = m_lastIncludedIndex r + int (length (m_logs r))"

definition lastTerm :: "Raft \<Rightarrow> int" where
  "lastTerm r = (if m_logs r \<noteq> [] then m_term (last (m_logs r)) else m_lastIncludedTerm r)"

definition idxToCompressLogPos :: "Raft \<Rightarrow> int \<Rightarrow> int" where
  "idxToCompressLogPos r index = index - m_lastIncludedIndex r - 1"

text \<open>\<^verbatim>\<open>m_logs[idxToCompressLogPos(index)]\<close>, the access all handlers use.\<close>

definition log_at :: "Raft \<Rightarrow> int \<Rightarrow> LogEntry res" where
  "log_at r index = vec_at (m_logs r) (idxToCompressLogPos r index)"

definition push_backLog :: "Raft \<Rightarrow> LogEntry \<Rightarrow> Raft" where
  "push_backLog r log = r\<lparr>m_logs := m_logs r @ [log]\<rparr>"

definition checkLogUptodate :: "Raft \<Rightarrow> int \<Rightarrow> int \<Rightarrow> bool" where
  "checkLogUptodate r trm index \<longleftrightarrow>
     trm > lastTerm r \<or> (trm = lastTerm r \<and> index \<ge> lastIndex r)"

subsection \<open>Text formats\<close>

text \<open>
  One entry \<^verbatim>\<open>command,term\<close>. Without a comma the string of the term would start behind
  its end, which the string constructor refuses.
\<close>

definition parse_entry :: "string \<Rightarrow> LogEntry res" where
  "parse_entry s =
     (let j = find_idx (\<lambda>c. c = CHR '','') s
      in if j = length s then Inl (Throw ''length_error'')
         else Inr \<lparr>m_command = take j s, m_term = atoi (drop (Suc j) s)\<rparr>)"

fun parse_entries :: "string list \<Rightarrow> LogEntry list res" where
  "parse_entries [] = Inr []"
| "parse_entries (s # ss) =
     rbind (parse_entry s) (\<lambda>e. rbind (parse_entries ss) (\<lambda>es. Inr (e # es)))"

definition getCmdAndTerm :: "string \<Rightarrow> LogEntry list res" where
  "getCmdAndTerm text = parse_entries (fst (cut (CHR '';'') [] text))"

definition show_entry :: "LogEntry \<Rightarrow> string" where
  "show_entry e = m_command e @ '','' @ to_string (m_term e)"

text \<open>What the leader puts into \<^verbatim>\<open>m_sendLogs\<close>.\<close>

definition show_sendLogs :: "LogEntry list \<Rightarrow> string" where
  "show_sendLogs es = concat (map (\<lambda>e. show_entry e @ '';'') es)"

subsection \<open>Files\<close>

text \<open>
  \<^verbatim>\<open>open(O_WRONLY | O_CREAT)\<close> and one \<^verbatim>\<open>write\<close>: the file is not truncated, so what was
  longer keeps its tail.
\<close>

definition write_file :: "string option \<Rightarrow> string \<Rightarrow> string option" where
  "write_file f str =
     Some (str @ (case f of None \<Rightarrow> [] | Some old \<Rightarrow> drop (length str) old))"

text \<open>\<^verbatim>\<open>string(buf)\<close> stops at the first zero byte.\<close>

definition c_string :: "string \<Rightarrow> string" where
  "c_string s = takeWhile (\<lambda>c. c \<noteq> CHR 0x00) s"

definition persist_text :: "Persister \<Rightarrow> string" where
  "persist_text p =
     to_string (cur_term p) @ '';'' @ to_string (votedFor p) @ '';'' @
     to_string (p_lastIncludedIndex p) @ '';'' @ to_string (p_lastIncludedTerm p) @ '';'' @
     concat (map (\<lambda>e. show_entry e @ ''.'') (p_logs p))"

definition serialize :: "Raft \<Rightarrow> Raft" where
  "serialize r = r\<lparr>persist_file := write_file (persist_file r) (persist_text (persister r))\<rparr>"

definition deserialize :: "Raft \<Rightarrow> (bool \<times> Raft) res" where
  "deserialize r =
     (case persist_file r of
        None \<Rightarrow> Inr (False, r)
      | Some buf \<Rightarrow>
          (let (ps, tmp) = cut (CHR '';'') [] (c_string buf);
               persist = ps @ [tmp]
           in rbind (at persist 0) (\<lambda>s0. rbind (at persist 1) (\<lambda>s1.
              rbind (at persist 2) (\<lambda>s2. rbind (at persist 3) (\<lambda>s3.
              rbind (at persist 4) (\<lambda>s4.
              rbind (parse_entries (fst (cut (CHR ''.'') [] s4))) (\<lambda>logs.
                Inr (True, r\<lparr>persister := (persister r)
                  \<lparr>cur_term := atoi s0, votedFor := atoi s1, p_lastIncludedIndex := atoi s2,
                   p_lastIncludedTerm := atoi s3, p_logs := logs\<rparr>\<rparr>))))))))) "

definition saveRaftState :: "Raft \<Rightarrow> Raft" where
  "saveRaftState r =
     serialize (r\<lparr>persister := (persister r)
       \<lparr>cur_term := m_curTerm r, votedFor := m_votedFor r, p_logs := m_logs r,
        p_lastIncludedIndex := m_lastIncludedIndex r,
        p_lastIncludedTerm := m_lastIncludedTerm r\<rparr>\<rparr>)"

definition readRaftState :: "Raft \<Rightarrow> Raft res" where
  "readRaftState r =
     rbind (deserialize r) (\<lambda>(ret, r1).
       if \<not> ret then Inr r1
       else Inr (foldl push_backLog
              (r1\<lparr>m_curTerm := cur_term (persister r1), m_votedFor := votedFor (persister r1)\<rparr>)
              (p_logs (persister r1))))"

definition ExceedLogSize :: "Raft \<Rightarrow> int \<Rightarrow> bool" where
  "ExceedLogSize r sz \<longleftrightarrow>
     8 + sum_list (map (\<lambda>e. int (length (m_command e)) + 3) (p_logs (persister r))) \<ge> sz"

definition readSnapShot :: "Raft \<Rightarrow> bool \<times> Raft" where
  "readSnapShot r =
     (case snap_file r of
        None \<Rightarrow> (False, r)
      | Some buf \<Rightarrow> (True, r\<lparr>persister := (persister r)\<lparr>snapShot := c_string buf\<rparr>\<rparr>))"

definition saveSnapShot :: "Raft \<Rightarrow> Raft" where
  "saveSnapShot r =
     r\<lparr>snap_file := write_file (snap_file r) (snapShot (persister r) @ [CHR 0x00])\<rparr>"

subsection \<open>Clock\<close>

text \<open>The difference is a \<^verbatim>\<open>long\<close> returned as an \<^verbatim>\<open>int\<close>.\<close>

definition getMyduration :: "timeval \<Rightarrow> timeval \<Rightarrow> int" where
  "getMyduration now lst =
     sint (word_of_int ((tv_sec now - tv_sec lst) * 1000000 + (tv_usec now - tv_usec lst)) :: 32 word)"

definition setBroadcastTime :: "timeval \<Rightarrow> Raft \<Rightarrow> Raft" where
  "setBroadcastTime now r =
     r\<lparr>m_lastBroadcastTime :=
        (if tv_usec now \<ge> 200000 then now\<lparr>tv_usec := tv_usec now - 200000\<rparr>
         else now\<lparr>tv_sec := tv_sec now - 1, tv_usec := tv_usec now + (1000000 - 200000)\<rparr>)\<rparr>"

section \<open>Round trips of the text formats\<close>

text \<open>Commands that the separators of the formats leave intact.\<close>

definition plain :: "string \<Rightarrow> bool" where
  "plain s \<longleftrightarrow> CHR '','' \<notin> set s \<and> CHR '';'' \<notin> set s \<and> CHR ''.'' \<notin> set s \<and> CHR 0x00 \<notin> set s"

definition plain_log :: "LogEntry list \<Rightarrow> bool" where
  "plain_log es \<longleftrightarrow> (\<forall>e \<in> set es. plain (m_command e))"

definition plain_word :: "string \<Rightarrow> bool" where
  "plain_word s \<longleftrightarrow> s \<noteq> [] \<and> CHR '' '' \<notin> set s"

lemma vec_at_ok [simp]: "0 \<le> i \<Longrightarrow> i < int (length xs) \<Longrightarrow> vec_at xs i = Inr (xs ! nat i)"
  by (simp add: vec_at_def nat_less_iff)

lemma vec_at_eq_Inr: "vec_at xs i = Inr x \<longleftrightarrow> 0 \<le> i \<and> i < int (length xs) \<and> xs ! nat i = x"
  by (auto simp: vec_at_def at_def nat_less_iff)

lemma parse_show_entry: "CHR '','' \<notin> set (m_command e) \<Longrightarrow> parse_entry (show_entry e) = Inr e"
proof -
  assume "CHR '','' \<notin> set (m_command e)"
  then have "find_idx (\<lambda>c. c = CHR '','') (show_entry e) = length (m_command e)"
    using find_idx_append [of "m_command e" "\<lambda>c. c = CHR '',''" "CHR '',''" "to_string (m_term e)"]
    by (auto simp: show_entry_def)
  then show ?thesis by (simp add: parse_entry_def show_entry_def)
qed

lemma parse_show_entries:
  "\<forall>e \<in> set es. CHR '','' \<notin> set (m_command e) \<Longrightarrow> parse_entries (map show_entry es) = Inr es"
  by (induction es) (auto simp: parse_show_entry)

lemma show_entry_not_Nil [simp]: "show_entry e \<noteq> []"
  by (simp add: show_entry_def)

lemma show_entry_sep:
  "c \<notin> set (m_command e) \<Longrightarrow> c \<noteq> CHR '','' \<Longrightarrow> c \<in> {CHR '';'', CHR ''.''} \<Longrightarrow> c \<notin> set (show_entry e)"
  using to_string_sep [of c "m_term e"] by (auto simp: show_entry_def)

lemma getCmdAndTerm_show:
  assumes "plain_log es"
  shows "getCmdAndTerm (show_sendLogs es) = Inr es"
proof -
  have p: "\<forall>e \<in> set es. CHR '','' \<notin> set (m_command e) \<and> CHR '';'' \<notin> set (show_entry e)"
    using assms show_entry_sep [of "CHR '';''"] by (auto simp: plain_log_def plain_def)
  then have "cut (CHR '';'') [] (show_sendLogs es) = (map show_entry es, [])"
    using cut_pieces [of "map show_entry es" "CHR '';''" "[]"] by (simp add: show_sendLogs_def comp_def)
  with p show ?thesis by (simp add: getCmdAndTerm_def parse_show_entries)
qed

lemma to_string_no_nul: "CHR 0x00 \<notin> set (to_string i)"
  using to_string_chars [of "CHR 0x00" i] by (auto simp: is_digit_def)

lemma persist_text_no_nul:
  "plain_log (p_logs p) \<Longrightarrow> CHR 0x00 \<notin> set (persist_text p)"
  using to_string_no_nul by (auto simp: persist_text_def show_entry_def plain_log_def plain_def)

lemma c_string_id: "CHR 0x00 \<notin> set s \<Longrightarrow> c_string s = s"
  by (auto simp: c_string_def takeWhile_eq_all_conv)

lemma cut_persist_text:
  assumes "plain_log (p_logs p)"
  shows "cut (CHR '';'') [] (persist_text p) =
     ([to_string (cur_term p), to_string (votedFor p), to_string (p_lastIncludedIndex p),
       to_string (p_lastIncludedTerm p)], concat (map (\<lambda>e. show_entry e @ ''.'') (p_logs p)))"
proof -
  let ?ps = "[to_string (cur_term p), to_string (votedFor p), to_string (p_lastIncludedIndex p),
    to_string (p_lastIncludedTerm p)]"
  have "CHR '';'' \<notin> set (concat (map (\<lambda>e. show_entry e @ ''.'') (p_logs p)))"
    using assms show_entry_sep [of "CHR '';''"] by (auto simp: plain_log_def plain_def)
  with cut_pieces [of ?ps "CHR '';''" "concat (map (\<lambda>e. show_entry e @ ''.'') (p_logs p))"]
    to_string_sep [of "CHR '';''"]
  show ?thesis by (simp add: persist_text_def)
qed

lemma cut_log_text:
  assumes "plain_log es"
  shows "cut (CHR ''.'') [] (concat (map (\<lambda>e. show_entry e @ ''.'') es)) = (map show_entry es, [])"
  using cut_pieces [of "map show_entry es" "CHR ''.''" "[]"] assms show_entry_sep [of "CHR ''.''"]
  by (auto simp: plain_log_def plain_def comp_def)

lemma deserialize_text:
  assumes "plain_log (p_logs p)" "persist_file r = Some (persist_text p)"
  shows "deserialize r = Inr (True, r\<lparr>persister := p\<lparr>snapShot := snapShot (persister r)\<rparr>\<rparr>)"
proof -
  have "\<forall>e \<in> set (p_logs p). CHR '','' \<notin> set (m_command e)"
    using assms(1) by (auto simp: plain_log_def plain_def)
  then show ?thesis
    using assms(2) c_string_id [OF persist_text_no_nul [OF assms(1)]]
    by (simp add: deserialize_def cut_persist_text [OF assms(1)] cut_log_text [OF assms(1)]
        parse_show_entries)
qed

lemma foldl_push_backLog: "foldl push_backLog r es = r\<lparr>m_logs := m_logs r @ es\<rparr>"
  by (induction es arbitrary: r) (simp_all add: push_backLog_def)

lemma readRaftState_text:
  assumes "plain_log (p_logs p)" "persist_file r = Some (persist_text p)"
  shows "readRaftState r = Inr (r\<lparr>persister := p\<lparr>snapShot := snapShot (persister r)\<rparr>,
     m_curTerm := cur_term p, m_votedFor := votedFor p, m_logs := m_logs r @ p_logs p\<rparr>)"
  by (simp add: readRaftState_def deserialize_text [OF assms] foldl_push_backLog)

lemma write_file_fits:
  "(\<forall>old. f = Some old \<longrightarrow> length old \<le> length s) \<Longrightarrow> write_file f s = Some s"
  by (auto simp: write_file_def split: option.split)

lemma saveRaftState_fields [simp]:
  "m_peers (saveRaftState r) = m_peers r" "m_peerId (saveRaftState r) = m_peerId r"
  "dead (saveRaftState r) = dead r" "m_curTerm (saveRaftState r) = m_curTerm r"
  "m_votedFor (saveRaftState r) = m_votedFor r" "m_logs (saveRaftState r) = m_logs r"
  "m_lastIncludedIndex (saveRaftState r) = m_lastIncludedIndex r"
  "m_lastIncludedTerm (saveRaftState r) = m_lastIncludedTerm r"
  "m_nextIndex (saveRaftState r) = m_nextIndex r" "m_matchIndex (saveRaftState r) = m_matchIndex r"
  "m_lastApplied (saveRaftState r) = m_lastApplied r" "m_commitIndex (saveRaftState r) = m_commitIndex r"
  "m_state (saveRaftState r) = m_state r" "m_msgs (saveRaftState r) = m_msgs r"
  "snap_file (saveRaftState r) = snap_file r" "isExistIndex (saveRaftState r) = isExistIndex r"
  "recvVotes (saveRaftState r) = recvVotes r"
  by (simp_all add: saveRaftState_def serialize_def)

lemma saveSnapShot_fields [simp]:
  "m_peerId (saveSnapShot r) = m_peerId r" "m_curTerm (saveSnapShot r) = m_curTerm r"
  "m_votedFor (saveSnapShot r) = m_votedFor r" "m_logs (saveSnapShot r) = m_logs r"
  "m_lastIncludedIndex (saveSnapShot r) = m_lastIncludedIndex r"
  "m_lastIncludedTerm (saveSnapShot r) = m_lastIncludedTerm r"
  "m_commitIndex (saveSnapShot r) = m_commitIndex r" "m_lastApplied (saveSnapShot r) = m_lastApplied r"
  "m_state (saveSnapShot r) = m_state r" "persist_file (saveSnapShot r) = persist_file r"
  by (simp_all add: saveSnapShot_def)

lemma log_index_save [simp]:
  "lastIndex (saveRaftState r) = lastIndex r" "lastTerm (saveRaftState r) = lastTerm r"
  "lastIndex (saveSnapShot r) = lastIndex r" "log_at (saveRaftState r) i = log_at r i"
  "log_at (saveSnapShot r) i = log_at r i"
  by (simp_all add: lastIndex_def lastTerm_def log_at_def idxToCompressLogPos_def)

text \<open>
  C26. The text of an operation, as it is put into the log, is read back as the same
  operation, provided that its op, key and value are non-empty and without blanks.
\<close>

theorem operation_roundtrip:
  assumes "plain_word (op x)" "plain_word (key x)" "plain_word (val x)" "command msg = getCmd x"
  shows "getOperation msg = Inr (x\<lparr>op_term := commandTerm msg, op_index := 0\<rparr>)"
proof -
  let ?ps = "[op x, key x, val x, to_string (clientId x)]"
  have cmd: "getCmd x = concat (map (\<lambda>w. w @ '' '') ?ps) @ to_string (requestId x)"
    by (simp add: getCmd_def)
  have "\<forall>w \<in> set ?ps. CHR '' '' \<notin> set w \<and> w \<noteq> []" "CHR '' '' \<notin> set (to_string (requestId x))"
    using assms to_string_sep [of "CHR '' ''"] by (auto simp: plain_word_def)
  from cut_pieces [OF this] have "words (getCmd x) = ?ps @ [to_string (requestId x)]"
    by (simp add: words_def cmd)
  then show ?thesis by (simp add: getOperation_def assms(4))
qed

theorem operation_roundtrip_witness:
  "getOperation \<lparr>commandValid = True, command = ''append k v 7 12'', commandIndex = 3, commandTerm = 2,
      am_lastIncludedIndex = 0, am_lastIncludedTerm = 0, am_snapShot = []\<rparr> =
   Inr \<lparr>op = ''append'', key = ''k'', val = ''v'', clientId = 7, requestId = 12, op_term = 2, op_index = 0\<rparr>"
proof -
  let ?x = "\<lparr>op = ''append'', key = ''k'', val = ''v'', clientId = 7, requestId = 12, op_term = 0, op_index = 0\<rparr>"
  have "''append k v 7 12'' = getCmd ?x" by code_simp
  then show ?thesis
    using operation_roundtrip [of ?x "\<lparr>commandValid = True, command = ''append k v 7 12'', commandIndex = 3,
        commandTerm = 2, am_lastIncludedIndex = 0, am_lastIncludedTerm = 0, am_snapShot = []\<rparr>"]
    by (simp add: plain_word_def)
qed


text \<open>A peer with nothing on disk, from which concrete runs start.\<close>

definition blank_raft :: Raft where
  "blank_raft = \<lparr>m_peers = [], persister = \<lparr>p_logs = [], snapShot = [], cur_term = 0, votedFor = - 1,
      p_lastIncludedIndex = 0, p_lastIncludedTerm = 0\<rparr>,
    m_peerId = 0, dead = False, m_curTerm = 0, m_votedFor = - 1, m_logs = [],
    m_lastIncludedIndex = 0, m_lastIncludedTerm = 0, m_nextIndex = [], m_matchIndex = [],
    m_lastApplied = 0, m_commitIndex = 0, recvVotes = 0, finishedVote = 0, cur_peerId = 0,
    m_state = FOLLOWER, m_leaderId = - 1, m_lastWakeTime = \<lparr>tv_sec = 0, tv_usec = 0\<rparr>,
    m_lastBroadcastTime = \<lparr>tv_sec = 0, tv_usec = 0\<rparr>, m_msgs = [], isExistIndex = {},
    persist_file = None, snap_file = None\<rparr>"



end
