(* ===== verification/Raft_Rpc.thy ===== *)
theory Raft_Rpc
  imports Raft_State
begin

text \<open>
  The operations of a Raft peer of \<^verbatim>\<open>6.824/src/kvRaft/raft.hpp\<close>. A handler runs under the
  peer's lock and is one function from state to state. A thread function that releases the
  lock around a remote call is two functions, what it does before the call (ending in the
  arguments it sends) and what it does with the reply. The body of a loop is the function
  that one turn of the loop computes.
\<close>

section \<open>Model\<close>

subsection \<open>Snapshots towards the application\<close>

definition installSnapShotTokvServer :: "Raft \<Rightarrow> Raft" where
  "installSnapShotTokvServer r =
     (let (ret, r1) = readSnapShot r
      in if \<not> ret then r1
         else r1\<lparr>m_lastApplied := m_lastIncludedIndex r1,
                 m_msgs := m_msgs r1 @
                   [\<lparr>commandValid = False, command = [], commandIndex = 0, commandTerm = 0,
                     am_lastIncludedIndex = m_lastIncludedIndex r1,
                     am_lastIncludedTerm = m_lastIncludedTerm r1,
                     am_snapShot = snapShot (persister r1)\<rparr>]\<rparr>)"

text \<open>
  \<^verbatim>\<open>Make\<close> on a peer whose log vector still holds \<open>m_logs r\<close> (empty for a new process).
\<close>

definition Make :: "timeval \<Rightarrow> PeersInfo list \<Rightarrow> int \<Rightarrow> Raft \<Rightarrow> Raft res" where
  "Make now peers ident r =
     rbind (readRaftState (r\<lparr>m_peers := peers, m_peerId := ident, dead := False,
       m_state := FOLLOWER, m_curTerm := 0, m_leaderId := - 1, m_votedFor := - 1,
       m_lastWakeTime := now, recvVotes := 0, finishedVote := 0, cur_peerId := 0,
       m_lastApplied := 0, m_commitIndex := 0,
       m_nextIndex := resize (m_nextIndex r) (length peers) 1,
       m_matchIndex := resize (m_matchIndex r) (length peers) 0,
       m_lastIncludedIndex := 0, m_lastIncludedTerm := 0, isExistIndex := {}\<rparr>))
     (\<lambda>r1. Inr (installSnapShotTokvServer r1))"

subsection \<open>Applying committed entries\<close>

text \<open>The inner loop of \<^verbatim>\<open>applyLogLoop\<close> collects a message per committed entry.\<close>

function collect_msgs :: "Raft \<Rightarrow> ApplyMsg list \<Rightarrow> (ApplyMsg list \<times> Raft) res" where
  "collect_msgs r msgs =
     (if m_lastApplied r < m_commitIndex r then
        let r1 = r\<lparr>m_lastApplied := m_lastApplied r + 1\<rparr>
        in rbind (log_at r1 (m_lastApplied r1)) (\<lambda>e.
             collect_msgs r1 (msgs @
               [\<lparr>commandValid = True, command = m_command e, commandIndex = m_lastApplied r1,
                 commandTerm = m_term e, am_lastIncludedIndex = 0, am_lastIncludedTerm = 0,
                 am_snapShot = []\<rparr>]))
      else Inr (msgs, r))"
  by pat_completeness auto
termination
  by (relation "measure (\<lambda>(r, msgs). nat (m_commitIndex r - m_lastApplied r))") auto

declare collect_msgs.simps [simp del]

definition applyLogLoop :: "Raft \<Rightarrow> Raft res" where
  "applyLogLoop r =
     (if dead r then Inr r
      else rbind (collect_msgs r []) (\<lambda>(msgs, r1). Inr (r1\<lparr>m_msgs := m_msgs r1 @ msgs\<rparr>)))"

subsection \<open>Elections\<close>

text \<open>
  One turn of the inner loop of \<^verbatim>\<open>electionLoop\<close> up to the wait for votes; the flag says
  whether an election was started.
\<close>

definition election_check :: "timeval \<Rightarrow> int \<Rightarrow> Raft \<Rightarrow> bool \<times> Raft" where
  "election_check now timeOut r =
     (let during_time = getMyduration now (m_lastWakeTime r);
          r1 = (if m_state r = FOLLOWER \<and> during_time > timeOut then r\<lparr>m_state := CANDIDATE\<rparr> else r)
      in if m_state r1 = CANDIDATE \<and> during_time > timeOut
         then (True, (saveRaftState (r1\<lparr>m_lastWakeTime := now, m_curTerm := m_curTerm r1 + 1,
                  m_votedFor := m_peerId r1\<rparr>))\<lparr>recvVotes := 1, finishedVote := 1, cur_peerId := 0\<rparr>)
         else (False, r1))"

definition votes_pending :: "Raft \<Rightarrow> bool" where
  "votes_pending r \<longleftrightarrow> recvVotes r \<le> int (length (m_peers r) div 2) \<and>
     finishedVote r \<noteq> int (length (m_peers r))"

text \<open>The rest of the turn, when the wait is over.\<close>

definition election_finish :: "timeval \<Rightarrow> Raft \<Rightarrow> Raft" where
  "election_finish now r =
     (if m_state r \<noteq> CANDIDATE then r
      else if recvVotes r > int (length (m_peers r) div 2)
      then setBroadcastTime now (r\<lparr>m_state := LEADER,
             m_nextIndex := map (\<lambda>_. lastIndex r + 1) [0..<length (m_peers r)] @
               drop (length (m_peers r)) (m_nextIndex r),
             m_matchIndex := map (\<lambda>_. 0) [0..<length (m_peers r)] @
               drop (length (m_peers r)) (m_matchIndex r)\<rparr>)
      else r)"

definition callRequestVote_send :: "Raft \<Rightarrow> (int \<times> RequestVoteArgs \<times> Raft) res" where
  "callRequestVote_send r =
     (let args = \<lparr>ra_term = m_curTerm r, candidateId = m_peerId r,
                  lastLogTerm = lastTerm r, lastLogIndex = lastIndex r\<rparr>;
          cur = (if cur_peerId r = m_peerId r then cur_peerId r + 1 else cur_peerId r);
          n = int (length (m_peers r))
      in rbind (vec_at (m_peers r) cur) (\<lambda>_.
           let cur' = cur + 1
           in Inr (cur, args, r\<lparr>cur_peerId :=
                (if cur' = n \<or> (cur' = n - 1 \<and> m_peerId r = cur') then 0 else cur')\<rparr>)))"

definition callRequestVote_reply :: "Raft \<Rightarrow> RequestVoteReply \<Rightarrow> Raft res" where
  "callRequestVote_reply r reply =
     (let r1 = r\<lparr>finishedVote := finishedVote r + 1\<rparr>
      in if rr_term reply > m_curTerm r1
         then readRaftState (r1\<lparr>m_state := FOLLOWER, m_curTerm := rr_term reply, m_votedFor := - 1\<rparr>)
         else Inr (if VoteGranted reply then r1\<lparr>recvVotes := recvVotes r1 + 1\<rparr> else r1))"

definition requestVote :: "timeval \<Rightarrow> Raft \<Rightarrow> RequestVoteArgs \<Rightarrow> RequestVoteReply \<times> Raft" where
  "requestVote now r args =
     (let reply = \<lparr>rr_term = m_curTerm r, VoteGranted = False\<rparr>
      in if m_curTerm r > ra_term args then (reply, r)
         else
           let r1 = (if m_curTerm r < ra_term args
                     then r\<lparr>m_state := FOLLOWER, m_curTerm := ra_term args, m_votedFor := - 1\<rparr>
                     else r)
           in if m_votedFor r1 = - 1 \<or> m_votedFor r1 = candidateId args
              then if \<not> checkLogUptodate r1 (lastLogTerm args) (lastLogIndex args) then (reply, r1)
                   else (reply\<lparr>VoteGranted := True\<rparr>,
                         saveRaftState (r1\<lparr>m_votedFor := candidateId args, m_lastWakeTime := now\<rparr>))
              else (reply, saveRaftState r1))"

subsection \<open>Heartbeats\<close>

datatype spawn = SpawnInstall | SpawnAppend

definition HEART_BEART_PERIOD :: int where
  "HEART_BEART_PERIOD = 100000"

text \<open>The loop over the peers in one turn of \<^verbatim>\<open>processEntriesLoop\<close>.\<close>

fun spawn_senders :: "Raft \<Rightarrow> PeersInfo list \<Rightarrow> (spawn list \<times> PeersInfo list) res" where
  "spawn_senders r [] = Inr ([], [])"
| "spawn_senders r (server # servers) =
     (if peerId server = m_peerId r
      then rbind (spawn_senders r servers) (\<lambda>(sp, ps). Inr (sp, server # ps))
      else rbind (vec_at (m_nextIndex r) (peerId server)) (\<lambda>next_idx.
             rbind (spawn_senders r servers) (\<lambda>(sp, ps).
               if next_idx \<le> m_lastIncludedIndex r
               then Inr (SpawnInstall # sp, server\<lparr>isInstallFlag := True\<rparr> # ps)
               else Inr (SpawnAppend # sp, server # ps))))"

definition processEntriesLoop :: "timeval \<Rightarrow> Raft \<Rightarrow> (spawn list \<times> Raft) res" where
  "processEntriesLoop now r =
     (if dead r then Inr ([], r)
      else if m_state r \<noteq> LEADER then Inr ([], r)
      else if getMyduration now (m_lastBroadcastTime r) < HEART_BEART_PERIOD then Inr ([], r)
      else rbind (spawn_senders r (m_peers r)) (\<lambda>(sp, ps).
             Inr (sp, r\<lparr>m_lastBroadcastTime := now, m_peers := ps\<rparr>)))"

text \<open>
  How a sender thread picks its peer: the first one that is not the sender itself, whose
  install flag is as wanted and that no thread has taken yet. When there is none the
  variable stays uninitialised. Once every peer is taken the bookkeeping is cleared.
\<close>

definition pick_peer :: "bool \<Rightarrow> Raft \<Rightarrow> (nat \<times> Raft) res" where
  "pick_peer install r =
     (let i = find_idx (\<lambda>j. peerId (m_peers r ! j) \<noteq> m_peerId r \<and>
                  isInstallFlag (m_peers r ! j) = install \<and> j \<notin> isExistIndex r)
                [0..<length (m_peers r)]
      in if i = length (m_peers r) then Inl BadAccess
         else let ex = insert i (isExistIndex r)
              in if card ex = length (m_peers r) - 1
                 then Inr (i, r\<lparr>m_peers := map (\<lambda>p. p\<lparr>isInstallFlag := False\<rparr>) (m_peers r),
                                isExistIndex := {}\<rparr>)
                 else Inr (i, r\<lparr>isExistIndex := ex\<rparr>))"

subsection \<open>Snapshots between peers\<close>

definition sendInstallSnapShot_send :: "Raft \<Rightarrow> (nat \<times> InstallSnapShotArgs \<times> Raft) res" where
  "sendInstallSnapShot_send r =
     rbind (pick_peer True r) (\<lambda>(clientPeerId, r1).
       let r2 = snd (readSnapShot r1)
       in Inr (clientPeerId,
            \<lparr>ia_term = m_curTerm r1, ia_leaderId = m_peerId r1,
             ia_lastIncludedIndex = m_lastIncludedIndex r1,
             ia_lastIncludedTerm = m_lastIncludedTerm r1,
             ia_snapShot = snapShot (persister r2)\<rparr>, r2))"

text \<open>
  The rule by which a leader moves its commit index: the median of the match indices, if
  the entry there is of the current term or lies in the snapshot.
\<close>

definition advance_commit :: "Raft \<Rightarrow> Raft res" where
  "advance_commit r =
     (let tmpIndex = sort (m_matchIndex r)
      in rbind (at tmpIndex (length tmpIndex div 2)) (\<lambda>realMajorityMatchIndex.
           if realMajorityMatchIndex > m_commitIndex r
           then if realMajorityMatchIndex \<le> m_lastIncludedIndex r
                then Inr (r\<lparr>m_commitIndex := realMajorityMatchIndex\<rparr>)
                else rbind (log_at r realMajorityMatchIndex) (\<lambda>e.
                       if m_term e = m_curTerm r
                       then Inr (r\<lparr>m_commitIndex := realMajorityMatchIndex\<rparr>) else Inr r)
           else Inr r))"

definition vec_set :: "'a list \<Rightarrow> int \<Rightarrow> 'a \<Rightarrow> 'a list res" where
  "vec_set xs i x = (if 0 \<le> i \<and> nat i < length xs then Inr (xs[nat i := x]) else Inl BadAccess)"

definition sendInstallSnapShot_reply ::
  "nat \<Rightarrow> InstallSnapShotArgs \<Rightarrow> InstallSnapSHotReply \<Rightarrow> Raft \<Rightarrow> Raft res" where
  "sendInstallSnapShot_reply clientPeerId args reply r =
     (if m_curTerm r \<noteq> ia_term args then Inr r
      else if m_curTerm r < ir_term reply
      then Inr (saveRaftState (r\<lparr>m_state := FOLLOWER, m_votedFor := - 1, m_curTerm := ir_term reply\<rparr>))
      else
        rbind (vec_set (m_nextIndex r) (int clientPeerId) (lastIndex r + 1)) (\<lambda>ni.
        rbind (vec_set (m_matchIndex r) (int clientPeerId) (ia_lastIncludedIndex args)) (\<lambda>mi.
        rbind (vec_set mi (m_peerId r) (lastIndex r)) (\<lambda>mi'.
          advance_commit (r\<lparr>m_nextIndex := ni, m_matchIndex := mi'\<rparr>)))))"

text \<open>
  How \<^verbatim>\<open>installSnapShot\<close> and \<^verbatim>\<open>appendEntries\<close> take over the term of a leader that is not
  behind: for a new term the cleared vote is saved first, then the term is set.
\<close>

definition enter_term :: "timeval \<Rightarrow> int \<Rightarrow> Raft \<Rightarrow> Raft" where
  "enter_term now trm r =
     (if trm > m_curTerm r then saveRaftState (r\<lparr>m_votedFor := - 1\<rparr>) else r)
       \<lparr>m_curTerm := trm, m_state := FOLLOWER, m_lastWakeTime := now\<rparr>"

definition installSnapShot ::
  "timeval \<Rightarrow> Raft \<Rightarrow> InstallSnapShotArgs \<Rightarrow> (InstallSnapSHotReply \<times> Raft) res" where
  "installSnapShot now r args =
     (let reply = \<lparr>ir_term = m_curTerm r\<rparr>
      in if ia_term args < m_curTerm r then Inr (reply, r)
         else
           let r2 = enter_term now (ia_term args) r
           in if ia_lastIncludedIndex args \<le> m_lastIncludedIndex r2 then Inr (reply, r2)
              else
                rbind (if ia_lastIncludedIndex args < lastIndex r2
                       then rbind (log_at r2 (lastIndex r2)) (\<lambda>e.
                              if m_term e \<noteq> ia_lastIncludedTerm args then Inr []
                              else Inr (drop (nat (idxToCompressLogPos r2 (ia_lastIncludedIndex args) + 1))
                                     (m_logs r2)))
                       else Inr [])
                (\<lambda>logs.
                  Inr (reply, installSnapShotTokvServer (saveSnapShot (saveRaftState
                    (r2\<lparr>m_logs := logs, m_lastIncludedIndex := ia_lastIncludedIndex args,
                        m_lastIncludedTerm := ia_lastIncludedTerm args,
                        persister := (persister r2)\<lparr>snapShot := ia_snapShot args\<rparr>\<rparr>))))))"

subsection \<open>Replication\<close>

text \<open>
  The loop over the log in \<^verbatim>\<open>sendAppendEntries\<close> compares an \<^verbatim>\<open>int\<close> with the vector's
  size, so a negative start sends nothing.
\<close>

definition sendAppendEntries_send :: "Raft \<Rightarrow> (nat \<times> AppendEntriesArgs \<times> Raft) res" where
  "sendAppendEntries_send r =
     rbind (pick_peer False r) (\<lambda>(clientPeerId, r1).
     rbind (vec_at (m_nextIndex r1) (int clientPeerId)) (\<lambda>next_idx.
       let prev = next_idx - 1;
           first = idxToCompressLogPos r1 prev + 1;
           logs = (if first < 0 then [] else drop (nat first) (m_logs r1))
       in rbind (if prev = m_lastIncludedIndex r1 then Inr (m_lastIncludedTerm r1)
                 else rbind (log_at r1 prev) (\<lambda>e. Inr (m_term e))) (\<lambda>prevTerm.
            Inr (clientPeerId,
              \<lparr>aa_term = m_curTerm r1, aa_leaderId = m_peerId r1, m_prevLogIndex = prev,
               m_prevLogTerm = prevTerm, m_leaderCommit = m_commitIndex r1,
               m_sendLogs = show_sendLogs logs\<rparr>, r1))))"

text \<open>The search for the last entry of the conflicting term, from \<open>index\<close> downwards.\<close>

function leader_conflict :: "Raft \<Rightarrow> int \<Rightarrow> int \<Rightarrow> int res" where
  "leader_conflict r trm index =
     (if index > m_lastIncludedIndex r
      then rbind (log_at r index) (\<lambda>e.
             if m_term e = trm then Inr index else leader_conflict r trm (index - 1))
      else Inr (- 1))"
  by pat_completeness auto
termination
  by (relation "measure (\<lambda>(r, trm, index). nat (index - m_lastIncludedIndex r))") auto

declare leader_conflict.simps [simp del]

definition sendAppendEntries_reply ::
  "nat \<Rightarrow> AppendEntriesArgs \<Rightarrow> AppendEntriesReply \<Rightarrow> Raft \<Rightarrow> Raft res" where
  "sendAppendEntries_reply clientPeerId args reply r =
     (if m_curTerm r \<noteq> aa_term args then Inr r
      else if ar_term reply > m_curTerm r
      then Inr (saveRaftState (r\<lparr>m_state := FOLLOWER, m_curTerm := ar_term reply, m_votedFor := - 1\<rparr>))
      else
        rbind (if m_success reply
               then rbind (getCmdAndTerm (m_sendLogs args)) (\<lambda>sent.
                      let nxt = m_prevLogIndex args + int (length sent) + 1
                      in rbind (vec_set (m_nextIndex r) (int clientPeerId) nxt) (\<lambda>ni.
                         rbind (vec_set (m_matchIndex r) (int clientPeerId) (nxt - 1)) (\<lambda>mi.
                         rbind (vec_set mi (m_peerId r) (lastIndex r)) (\<lambda>mi'.
                           advance_commit (r\<lparr>m_nextIndex := ni, m_matchIndex := mi'\<rparr>)))))
               else if m_conflict_term reply \<noteq> - 1 \<and> m_conflict_term reply \<noteq> - 100
               then rbind (leader_conflict r (m_conflict_term reply) (m_prevLogIndex args)) (\<lambda>idx.
                      rbind (vec_set (m_nextIndex r) (int clientPeerId)
                               (if idx \<noteq> - 1 then idx + 1 else m_conflict_index reply)) (\<lambda>ni.
                        Inr (r\<lparr>m_nextIndex := ni\<rparr>)))
               else if m_conflict_term reply = - 100 then Inr r
               else rbind (vec_set (m_nextIndex r) (int clientPeerId) (m_conflict_index reply))
                      (\<lambda>ni. Inr (r\<lparr>m_nextIndex := ni\<rparr>)))
        (\<lambda>r1. Inr (saveRaftState r1)))"

text \<open>The search for the first entry of the conflicting term, from \<open>index\<close> upwards.\<close>

function first_of_term :: "Raft \<Rightarrow> int \<Rightarrow> int \<Rightarrow> int \<Rightarrow> int res" where
  "first_of_term r trm index prev =
     (if index \<le> prev
      then rbind (log_at r index) (\<lambda>e.
             if m_term e = trm then Inr index else first_of_term r trm (index + 1) prev)
      else Inr (- 1))"
  by pat_completeness auto
termination
  by (relation "measure (\<lambda>(r, trm, index, prev). nat (prev + 1 - index))") auto

declare first_of_term.simps [simp del]

text \<open>The consistency check of \<^verbatim>\<open>appendEntries\<close>: \<open>None\<close> when the previous entry matches.\<close>

definition append_conflict :: "Raft \<Rightarrow> AppendEntriesArgs \<Rightarrow> (int \<times> int) option res" where
  "append_conflict r args =
     (if m_prevLogIndex args < m_lastIncludedIndex r then Inr (Some (- 1, 1))
      else if m_prevLogIndex args = m_lastIncludedIndex r
      then Inr (if m_prevLogTerm args \<noteq> m_lastIncludedTerm r then Some (- 1, 1) else None)
      else if lastIndex r < m_prevLogIndex args then Inr (Some (- 1, lastIndex r + 1))
      else rbind (log_at r (m_prevLogIndex args)) (\<lambda>e.
             if m_term e \<noteq> m_prevLogTerm args
             then rbind (first_of_term r (m_term e) (m_lastIncludedIndex r + 1) (m_prevLogIndex args))
                    (\<lambda>i. Inr (Some (m_term e, i)))
             else Inr None))"

definition appendEntries ::
  "timeval \<Rightarrow> Raft \<Rightarrow> AppendEntriesArgs \<Rightarrow> (AppendEntriesReply \<times> Raft) res" where
  "appendEntries now r args =
     rbind (getCmdAndTerm (m_sendLogs args)) (\<lambda>recvLog.
       let reply = \<lparr>ar_term = m_curTerm r, m_success = False, m_conflict_term = - 1,
                    m_conflict_index = - 1\<rparr>
       in if aa_term args < m_curTerm r then Inr (reply, r)
          else
            let r2 = enter_term now (aa_term args) r
            in if dead r2 then Inr (reply\<lparr>m_conflict_term := - 100\<rparr>, r2)
               else rbind (append_conflict r2 args) (\<lambda>conflict.
                 case conflict of
                   Some (ct, ci) \<Rightarrow>
                     Inr (reply\<lparr>m_conflict_term := ct, m_conflict_index := ci\<rparr>, r2)
                 | None \<Rightarrow>
                     (let logSize = lastIndex r2;
                          kept = take (length (m_logs r2) - nat (logSize - m_prevLogIndex args))
                                   (m_logs r2);
                          r3 = saveRaftState (foldl push_backLog (r2\<lparr>m_logs := kept\<rparr>) recvLog);
                          r4 = (if m_commitIndex r3 < m_leaderCommit args
                                then r3\<lparr>m_commitIndex := min (m_leaderCommit args) (lastIndex r3)\<rparr>
                                else r3)
                      in Inr (reply\<lparr>m_success := True\<rparr>, r4))))"

subsection \<open>Interface to the application\<close>

definition getState :: "Raft \<Rightarrow> int \<times> bool" where
  "getState r = (m_curTerm r, m_state r = LEADER)"

definition kill :: "Raft \<Rightarrow> Raft" where
  "kill r = r\<lparr>dead := True\<rparr>"

definition activate :: "Raft \<Rightarrow> Raft" where
  "activate r = r\<lparr>dead := False\<rparr>"

definition start :: "Raft \<Rightarrow> Operation \<Rightarrow> StartRet \<times> Raft" where
  "start r x =
     (if m_state r \<noteq> LEADER then (new_StartRet, r)
      else let r1 = push_backLog r \<lparr>m_command = getCmd x, m_term = m_curTerm r\<rparr>
           in (\<lparr>m_cmdIndex = lastIndex r1, sr_curTerm = m_curTerm r1, isLeader = True\<rparr>, r1))"

definition getBackMsg :: "Raft \<Rightarrow> ApplyMsg res" where
  "getBackMsg r = (if m_msgs r = [] then Inl BadAccess else Inr (last (m_msgs r)))"

text \<open>
  The flag of \<^verbatim>\<open>recvSnapShot\<close> says whether the lock is still held on return, as it is
  after the early return.
\<close>

definition recvSnapShot :: "Raft \<Rightarrow> string \<Rightarrow> int \<Rightarrow> (bool \<times> Raft) res" where
  "recvSnapShot r snap lastIncludedIndex =
     (if lastIncludedIndex < m_lastIncludedIndex r then Inr (True, r)
      else
        let compressLen = lastIncludedIndex - m_lastIncludedIndex r
        in rbind (log_at r lastIncludedIndex) (\<lambda>e.
             Inr (False, saveSnapShot (saveRaftState
               (r\<lparr>m_lastIncludedTerm := m_term e, m_lastIncludedIndex := lastIncludedIndex,
                  m_logs := drop (nat compressLen) (m_logs r),
                  persister := (persister r)\<lparr>snapShot := snap\<rparr>\<rparr>)))))"

end
