(* ===== verification/Raft_Safety.thy ===== *)
theory Raft_Safety
  imports Raft_Rpc
begin

text \<open>
  The steps a running Raft peer takes, as a relation labelled with the votes it gives;
  election safety at a peer, and how a restart breaks it.
\<close>

section \<open>Votes\<close>

text \<open>
  The steps of a running peer under its lock, labelled with the vote it gives, if any. Left
  out are restarts and the reply of a vote request with a higher term, which read the
  persistent state back (see below).
\<close>

inductive raft_step :: "Raft \<Rightarrow> (int \<times> int) option \<Rightarrow> Raft \<Rightarrow> bool" where
  vote: "requestVote now r args = (reply, r') \<Longrightarrow> candidateId args \<noteq> - 1 \<Longrightarrow>
    raft_step r (if VoteGranted reply then Some (ra_term args, candidateId args) else None) r'"
| election: "election_check now timeOut r = (started, r') \<Longrightarrow> m_peerId r \<noteq> - 1 \<Longrightarrow>
    raft_step r (if started then Some (m_curTerm r', m_peerId r) else None) r'"
| elected: "raft_step r None (election_finish now r)"
| vote_send: "callRequestVote_send r = Inr (c, args, r') \<Longrightarrow> raft_step r None r'"
| vote_reply: "rr_term reply \<le> m_curTerm r \<Longrightarrow> callRequestVote_reply r reply = Inr r' \<Longrightarrow>
    raft_step r None r'"
| append: "appendEntries now r args = Inr (reply, r') \<Longrightarrow> raft_step r None r'"
| append_send: "sendAppendEntries_send r = Inr (c, args, r') \<Longrightarrow> raft_step r None r'"
| append_reply: "sendAppendEntries_reply c args reply r = Inr r' \<Longrightarrow> raft_step r None r'"
| install: "installSnapShot now r args = Inr (reply, r') \<Longrightarrow> raft_step r None r'"
| install_send: "sendInstallSnapShot_send r = Inr (c, args, r') \<Longrightarrow> raft_step r None r'"
| install_reply: "sendInstallSnapShot_reply c args reply r = Inr r' \<Longrightarrow> raft_step r None r'"
| heartbeat: "processEntriesLoop now r = Inr (sp, r') \<Longrightarrow> raft_step r None r'"
| apply_loop: "applyLogLoop r = Inr r' \<Longrightarrow> raft_step r None r'"
| start_op: "start r x = (ret, r') \<Longrightarrow> raft_step r None r'"
| snapshot: "recvSnapShot r snap i = Inr (locked, r') \<Longrightarrow> raft_step r None r'"
| killed: "raft_step r None (kill r)"
| activated: "raft_step r None (activate r)"

inductive raft_run :: "Raft \<Rightarrow> (int \<times> int) list \<Rightarrow> Raft \<Rightarrow> bool" where
  run_refl: "raft_run r [] r"
| run_step: "raft_run r vs r1 \<Longrightarrow> raft_step r1 v r2 \<Longrightarrow> raft_run r (vs @ (case v of None \<Rightarrow> [] | Some x \<Rightarrow> [x])) r2"


text \<open>The votes given so far are in the past, or are the vote recorded for this term.\<close>

definition vote_inv :: "(int \<times> int) set \<Rightarrow> Raft \<Rightarrow> bool" where
  "vote_inv H r \<longleftrightarrow> (\<forall>(t, c) \<in> H. c \<noteq> - 1 \<and> t \<le> m_curTerm r \<and> (t = m_curTerm r \<longrightarrow> m_votedFor r = c))"

text \<open>What a step without a vote may do: go to a later term, or leave term and vote alone.\<close>

definition vote_frame :: "Raft \<Rightarrow> Raft \<Rightarrow> bool" where
  "vote_frame r r' \<longleftrightarrow> m_curTerm r < m_curTerm r' \<or>
     (m_curTerm r' = m_curTerm r \<and> m_votedFor r' = m_votedFor r)"

lemma vote_frame_eq: "m_curTerm r' = m_curTerm r \<Longrightarrow> m_votedFor r' = m_votedFor r \<Longrightarrow> vote_frame r r'"
  by (simp add: vote_frame_def)

lemma readSnapShot_fields [simp]:
  "m_curTerm (snd (readSnapShot r)) = m_curTerm r" "m_votedFor (snd (readSnapShot r)) = m_votedFor r"
  "m_logs (snd (readSnapShot r)) = m_logs r" "m_commitIndex (snd (readSnapShot r)) = m_commitIndex r"
  "m_lastIncludedIndex (snd (readSnapShot r)) = m_lastIncludedIndex r"
  by (auto simp: readSnapShot_def split: option.split)

lemma installSnapShotTokvServer_fields [simp]:
  "m_curTerm (installSnapShotTokvServer r) = m_curTerm r"
  "m_votedFor (installSnapShotTokvServer r) = m_votedFor r"
  "m_logs (installSnapShotTokvServer r) = m_logs r"
  "m_lastIncludedIndex (installSnapShotTokvServer r) = m_lastIncludedIndex r"
  by (auto simp: installSnapShotTokvServer_def readSnapShot_def split: option.split)

lemma pick_peer_frame: "pick_peer b r = Inr (i, r') \<Longrightarrow> vote_frame r r'"
  by (auto simp: pick_peer_def Let_def vote_frame_def split: if_splits)

lemma advance_commit_fields:
  "advance_commit r = Inr r' \<Longrightarrow> m_curTerm r' = m_curTerm r \<and> m_votedFor r' = m_votedFor r \<and>
     m_logs r' = m_logs r \<and> m_nextIndex r' = m_nextIndex r \<and> m_matchIndex r' = m_matchIndex r \<and>
     m_lastIncludedIndex r' = m_lastIncludedIndex r"
  by (auto simp: advance_commit_def Let_def rbind_eq_Inr split: if_splits)

lemma collect_msgs_fields:
  "collect_msgs r msgs = Inr (ms, r') \<Longrightarrow> m_curTerm r' = m_curTerm r \<and> m_votedFor r' = m_votedFor r"
proof (induction r msgs arbitrary: ms r' rule: collect_msgs.induct)
  case (1 r msgs)
  show ?case
  proof (cases "m_lastApplied r < m_commitIndex r")
    case True
    with "1.prems" obtain e where
      "log_at (r\<lparr>m_lastApplied := m_lastApplied r + 1\<rparr>) (m_lastApplied r + 1) = Inr e"
      by (subst (asm) collect_msgs.simps) (auto simp: Let_def rbind_eq_Inr)
    with True "1.prems" "1.IH" [OF True refl] show ?thesis
      by (subst (asm) collect_msgs.simps) (auto simp: Let_def)
  next
    case False
    with "1.prems" show ?thesis by (subst (asm) collect_msgs.simps) auto
  qed
qed

lemma enter_term_fields [simp]:
  "m_logs (enter_term now t r) = m_logs r" "m_lastIncludedIndex (enter_term now t r) = m_lastIncludedIndex r"
  "m_lastIncludedTerm (enter_term now t r) = m_lastIncludedTerm r"
  "m_commitIndex (enter_term now t r) = m_commitIndex r" "m_lastApplied (enter_term now t r) = m_lastApplied r"
  "lastIndex (enter_term now t r) = lastIndex r" "log_at (enter_term now t r) i = log_at r i"
  "m_curTerm (enter_term now t r) = t" "dead (enter_term now t r) = dead r"
  by (simp_all add: enter_term_def lastIndex_def log_at_def idxToCompressLogPos_def)

lemma enter_term_frame: "m_curTerm r \<le> t \<Longrightarrow> vote_frame r (enter_term now t r)"
  by (simp add: enter_term_def vote_frame_def)

lemma appendEntries_frame: "appendEntries now r args = Inr (reply, r') \<Longrightarrow> vote_frame r r'"
  by (auto simp: appendEntries_def Let_def rbind_eq_Inr vote_frame_def foldl_push_backLog enter_term_def
      split: if_splits option.splits prod.splits)

lemma installSnapShot_frame: "installSnapShot now r args = Inr (reply, r') \<Longrightarrow> vote_frame r r'"
  by (auto simp: installSnapShot_def Let_def rbind_eq_Inr vote_frame_def enter_term_def split: if_splits)

lemma sendAppendEntries_reply_frame:
  "sendAppendEntries_reply c args reply r = Inr r' \<Longrightarrow> vote_frame r r'"
  by (auto simp: sendAppendEntries_reply_def Let_def rbind_eq_Inr vote_frame_def
      dest!: advance_commit_fields split: if_splits)

lemma sendInstallSnapShot_reply_frame:
  "sendInstallSnapShot_reply c args reply r = Inr r' \<Longrightarrow> vote_frame r r'"
  by (auto simp: sendInstallSnapShot_reply_def rbind_eq_Inr vote_frame_def
      dest!: advance_commit_fields split: if_splits)

lemma requestVote_ok:
  assumes "requestVote now r args = (reply, r')" "candidateId args \<noteq> - 1"
  shows "if VoteGranted reply
    then m_curTerm r' = ra_term args \<and> m_votedFor r' = candidateId args \<and>
      (m_curTerm r < ra_term args \<or> m_curTerm r = ra_term args \<and> m_votedFor r \<in> {- 1, candidateId args})
    else vote_frame r r'"
  using assms by (auto simp: requestVote_def Let_def vote_frame_def split: if_splits)

lemma election_check_ok:
  "election_check now timeOut r = (started, r') \<Longrightarrow>
     if started then m_curTerm r' = m_curTerm r + 1 \<and> m_votedFor r' = m_peerId r else vote_frame r r'"
  by (auto simp: election_check_def Let_def vote_frame_def split: if_splits)

lemma senders_frame:
  "callRequestVote_send r = Inr (c, args, r') \<Longrightarrow> vote_frame r r'"
  "sendAppendEntries_send r = Inr (i, args', r') \<Longrightarrow> vote_frame r r'"
  "sendInstallSnapShot_send r = Inr (i, args'', r') \<Longrightarrow> vote_frame r r'"
  "processEntriesLoop now r = Inr (sp, r') \<Longrightarrow> vote_frame r r'"
  by (auto simp: callRequestVote_send_def sendAppendEntries_send_def sendInstallSnapShot_send_def
      processEntriesLoop_def Let_def rbind_eq_Inr vote_frame_def
      dest!: pick_peer_frame split: if_splits)

lemma local_frame:
  "vote_frame r (election_finish now r)"
  "rr_term rep \<le> m_curTerm r \<Longrightarrow> callRequestVote_reply r rep = Inr r' \<Longrightarrow> vote_frame r r'"
  "applyLogLoop r = Inr r' \<Longrightarrow> vote_frame r r'"
  "start r x = (ret, r') \<Longrightarrow> vote_frame r r'"
  "recvSnapShot r snap i = Inr (locked, r') \<Longrightarrow> vote_frame r r'"
  "vote_frame r (kill r)" "vote_frame r (activate r)"
  by (auto simp: election_finish_def setBroadcastTime_def callRequestVote_reply_def applyLogLoop_def
      start_def push_backLog_def recvSnapShot_def kill_def activate_def Let_def rbind_eq_Inr
      vote_frame_def dest!: collect_msgs_fields split: if_splits)

lemmas frame_rules = appendEntries_frame installSnapShot_frame sendAppendEntries_reply_frame
  sendInstallSnapShot_reply_frame senders_frame local_frame

lemma raft_step_votes:
  "raft_step r v r' \<Longrightarrow> (case v of None \<Rightarrow> vote_frame r r'
     | Some (t, c) \<Rightarrow> c \<noteq> - 1 \<and> m_curTerm r' = t \<and> m_votedFor r' = c \<and>
         (m_curTerm r < t \<or> m_curTerm r = t \<and> m_votedFor r \<in> {- 1, c}))"
proof (induction rule: raft_step.induct)
  case (vote now r args reply r')
  with requestVote_ok [of now r args reply r'] show ?case by (auto split: if_splits)
next
  case (election now timeOut r started r')
  with election_check_ok [of now timeOut r started r'] show ?case by (auto split: if_splits)
qed (auto intro: frame_rules)

lemma vote_inv_step:
  assumes "vote_inv H r" "raft_step r v r'"
  shows "vote_inv (H \<union> set_option v) r'"
proof (cases v)
  case None
  with raft_step_votes [OF assms(2)] assms(1) show ?thesis
    by (fastforce simp: vote_inv_def vote_frame_def)
next
  case (Some w)
  with raft_step_votes [OF assms(2)] assms(1) show ?thesis
    by (fastforce simp: vote_inv_def)
qed

lemma vote_inv_run: "raft_run r vs r' \<Longrightarrow> vote_inv {} r \<Longrightarrow> vote_inv (set vs) r'"
proof (induction rule: raft_run.induct)
  case (run_step r vs r1 v r2)
  then have "vote_inv (set vs \<union> set_option v) r2" by (auto intro: vote_inv_step)
  then show ?case by (cases v) simp_all
qed simp

lemma run_votes_functional:
  "raft_run r vs r' \<Longrightarrow> \<forall>x \<in> set vs. \<forall>y \<in> set vs. fst x = fst y \<longrightarrow> x = y"
proof (induction rule: raft_run.induct)
  case (run_step r vs r1 v r2)
  have inv: "vote_inv (set vs) r1"
    using run_step.hyps(1) by (rule vote_inv_run) (simp add: vote_inv_def)
  show ?case
  proof (cases v)
    case (Some w)
    with raft_step_votes [OF run_step.hyps(2)] inv
    have "\<forall>x \<in> set vs. fst x = fst w \<longrightarrow> x = w" by (fastforce simp: vote_inv_def)
    with run_step.IH Some show ?thesis by auto
  qed (use run_step.IH in simp)
qed simp


definition ballot :: "int \<Rightarrow> int \<Rightarrow> RequestVoteArgs" where
  "ballot t c = \<lparr>ra_term = t, candidateId = c, lastLogTerm = 0, lastLogIndex = 0\<rparr>"

abbreviation noon :: timeval where
  "noon \<equiv> \<lparr>tv_sec = 0, tv_usec = 0\<rparr>"


definition heartbeat_args :: "int \<Rightarrow> int \<Rightarrow> AppendEntriesArgs" where
  "heartbeat_args t prev = \<lparr>aa_term = t, aa_leaderId = 3, m_prevLogIndex = prev, m_prevLogTerm = 1,
     m_leaderCommit = 0, m_sendLogs = []\<rparr>"


end
