(* ===== verification/Raft_Log.thy ===== *)
theory Raft_Log
  imports Raft_Safety
begin

text \<open>
  The log of a Raft peer: replication from a leader to a follower, the search for the point
  where two logs agree, commitment, delivery to the application, snapshots and restarts.
\<close>

section \<open>Replication\<close>

text \<open>Equal terms at an index mean equal logs up to it, as far as both logs reach back.\<close>

definition log_matching :: "Raft \<Rightarrow> Raft \<Rightarrow> bool" where
  "log_matching a b \<longleftrightarrow> (\<forall>i ea eb. log_at a i = Inr ea \<longrightarrow> log_at b i = Inr eb \<longrightarrow> m_term ea = m_term eb \<longrightarrow>
     (\<forall>j \<le> i. \<forall>xa xb. log_at a j = Inr xa \<longrightarrow> log_at b j = Inr xb \<longrightarrow> xa = xb))"

definition logs_agree :: "Raft \<Rightarrow> Raft \<Rightarrow> bool" where
  "logs_agree a b \<longleftrightarrow> lastIndex a = lastIndex b \<and>
     (\<forall>j xa xb. log_at a j = Inr xa \<longrightarrow> log_at b j = Inr xb \<longrightarrow> xa = xb)"

lemma log_at_eq_Inr:
  "log_at r i = Inr e \<longleftrightarrow> m_lastIncludedIndex r < i \<and> i \<le> lastIndex r \<and>
     m_logs r ! nat (i - m_lastIncludedIndex r - 1) = e"
  by (auto simp: log_at_def idxToCompressLogPos_def vec_at_eq_Inr lastIndex_def)

lemma pick_peer_fields:
  "pick_peer b r = Inr (i, r') \<Longrightarrow> m_logs r' = m_logs r \<and> m_lastIncludedIndex r' = m_lastIncludedIndex r \<and>
     m_lastIncludedTerm r' = m_lastIncludedTerm r \<and> m_curTerm r' = m_curTerm r \<and>
     m_commitIndex r' = m_commitIndex r \<and> m_nextIndex r' = m_nextIndex r \<and>
     m_matchIndex r' = m_matchIndex r \<and> m_peerId r' = m_peerId r \<and> i < length (m_peers r)"
proof -
  assume a: "pick_peer b r = Inr (i, r')"
  then have "i = find_idx (\<lambda>j. peerId (m_peers r ! j) \<noteq> m_peerId r \<and>
      isInstallFlag (m_peers r ! j) = b \<and> j \<notin> isExistIndex r) [0..<length (m_peers r)]"
    "i \<noteq> length (m_peers r)"
    by (auto simp: pick_peer_def Let_def split: if_splits)
  with find_idx_le [of _ "[0..<length (m_peers r)]"] have "i < length (m_peers r)"
    by (simp add: le_neq_implies_less)
  with a show ?thesis by (auto simp: pick_peer_def Let_def split: if_splits)
qed

text \<open>What a leader sends: the entries behind the previous index, which it can describe.\<close>

lemma sendAppendEntries_send_ok:
  assumes "sendAppendEntries_send l = Inr (c, args, l1)"
  shows "m_lastIncludedIndex l \<le> m_prevLogIndex args" "m_prevLogIndex args \<le> max (m_lastIncludedIndex l) (lastIndex l)"
    "m_sendLogs args = show_sendLogs (drop (nat (m_prevLogIndex args - m_lastIncludedIndex l)) (m_logs l))"
    "aa_term args = m_curTerm l" "m_leaderCommit args = m_commitIndex l"
    "vec_at (m_nextIndex l) (int c) = Inr (m_prevLogIndex args + 1)"
    "m_prevLogIndex args = m_lastIncludedIndex l \<Longrightarrow> m_prevLogTerm args = m_lastIncludedTerm l"
    "m_prevLogIndex args \<noteq> m_lastIncludedIndex l \<Longrightarrow>
       \<exists>e. log_at l (m_prevLogIndex args) = Inr e \<and> m_term e = m_prevLogTerm args"
proof -
  from assms obtain ni where p: "pick_peer False l = Inr (c, l1)" "vec_at (m_nextIndex l1) (int c) = Inr ni"
    "m_prevLogIndex args = ni - 1" "aa_term args = m_curTerm l1" "m_leaderCommit args = m_commitIndex l1"
    and s: "m_sendLogs args = show_sendLogs (if ni - 1 - m_lastIncludedIndex l1 < 0 then []
        else drop (nat (ni - 1 - m_lastIncludedIndex l1)) (m_logs l1))"
    and t: "(if ni - 1 = m_lastIncludedIndex l1 then Inr (m_lastIncludedTerm l1)
        else rbind (log_at l1 (ni - 1)) (\<lambda>e. Inr (m_term e))) = Inr (m_prevLogTerm args)"
    by (auto simp: sendAppendEntries_send_def Let_def rbind_eq_Inr idxToCompressLogPos_def)
  note f = pick_peer_fields [OF p(1)]
  have la: "log_at l1 i = log_at l i" "lastIndex l1 = lastIndex l" for i
    using f by (simp_all add: log_at_def idxToCompressLogPos_def lastIndex_def)
  show r: "m_prevLogIndex args = m_lastIncludedIndex l \<Longrightarrow> m_prevLogTerm args = m_lastIncludedTerm l"
    "m_prevLogIndex args \<noteq> m_lastIncludedIndex l \<Longrightarrow>
       \<exists>e. log_at l (m_prevLogIndex args) = Inr e \<and> m_term e = m_prevLogTerm args"
    using t f p(3) la by (auto simp: rbind_eq_Inr split: if_splits)
  from r(2) show "m_lastIncludedIndex l \<le> m_prevLogIndex args"
    "m_prevLogIndex args \<le> max (m_lastIncludedIndex l) (lastIndex l)"
    by (auto simp: log_at_eq_Inr) (cases "m_prevLogIndex args = m_lastIncludedIndex l"; auto)+
  with s f p show "m_sendLogs args = show_sendLogs (drop (nat (m_prevLogIndex args - m_lastIncludedIndex l)) (m_logs l))"
    "aa_term args = m_curTerm l" "m_leaderCommit args = m_commitIndex l"
    "vec_at (m_nextIndex l) (int c) = Inr (m_prevLogIndex args + 1)"
    by auto
qed

text \<open>What a successful append leaves in the follower's log.\<close>

lemma appendEntries_success:
  assumes "appendEntries now r args = Inr (reply, r')" "m_success reply"
  obtains sent where "getCmdAndTerm (m_sendLogs args) = Inr sent"
    "m_lastIncludedIndex r \<le> m_prevLogIndex args" "m_prevLogIndex args \<le> lastIndex r"
    "m_logs r' = take (nat (m_prevLogIndex args - m_lastIncludedIndex r)) (m_logs r) @ sent"
    "m_lastIncludedIndex r' = m_lastIncludedIndex r"
    "m_prevLogIndex args \<noteq> m_lastIncludedIndex r \<Longrightarrow>
       \<exists>e. log_at r (m_prevLogIndex args) = Inr e \<and> m_term e = m_prevLogTerm args"
    "m_commitIndex r' = (if m_commitIndex r < m_leaderCommit args
       then min (m_leaderCommit args) (m_prevLogIndex args + int (length sent)) else m_commitIndex r)"
proof -
  define r2 where "r2 = enter_term now (aa_term args) r"
  from assms(1) obtain sent where s: "getCmdAndTerm (m_sendLogs args) = Inr sent"
    by (auto simp: appendEntries_def rbind_eq_Inr)
  have g: "\<not> aa_term args < m_curTerm r" "\<not> dead r2"
    using assms s by (auto simp: appendEntries_def Let_def r2_def split: if_splits)
  with assms(1) s obtain co where co: "append_conflict r2 args = Inr co"
    by (auto simp: appendEntries_def Let_def rbind_eq_Inr r2_def)
  have s2: "append_conflict r2 args = Inr None"
  proof (cases co)
    case (Some p)
    with assms co s g show ?thesis
      by (cases p) (auto simp: appendEntries_def Let_def r2_def [symmetric])
  qed (use co in simp)
  have r': "r' = (let r3 = saveRaftState (r2\<lparr>m_logs := take (length (m_logs r2) -
            nat (lastIndex r2 - m_prevLogIndex args)) (m_logs r2) @ sent\<rparr>)
        in if m_commitIndex r3 < m_leaderCommit args
           then r3\<lparr>m_commitIndex := min (m_leaderCommit args) (lastIndex r3)\<rparr> else r3)"
    using assms(1) s s2 g
    by (simp add: appendEntries_def Let_def r2_def [symmetric] foldl_push_backLog)
  have c: "m_lastIncludedIndex r \<le> m_prevLogIndex args" "m_prevLogIndex args \<le> lastIndex r"
    "m_prevLogIndex args \<noteq> m_lastIncludedIndex r \<Longrightarrow>
       \<exists>e. log_at r (m_prevLogIndex args) = Inr e \<and> m_term e = m_prevLogTerm args"
    using s2 by (auto simp: append_conflict_def r2_def rbind_eq_Inr lastIndex_def split: if_splits)
  have "length (m_logs r) - nat (lastIndex r - m_prevLogIndex args) =
      nat (m_prevLogIndex args - m_lastIncludedIndex r)"
    using c by (auto simp: lastIndex_def)
  with r' c show ?thesis
    by (intro that [OF s c(1,2) _ _ c(3)]) (auto simp: Let_def lastIndex_def min_def r2_def)
qed

lemma plain_log_drop: "plain_log es \<Longrightarrow> plain_log (drop n es)"
  by (auto simp: plain_log_def dest: in_set_dropD)

text \<open>An entry of the follower after the append is an old one up to the previous index, a sent one above.\<close>

lemma spliced_entry:
  assumes "m_logs f' = take (nat (p - a)) (m_logs f) @ drop (nat (p - b)) (m_logs l)"
    and "m_lastIncludedIndex f = a" "m_lastIncludedIndex f' = a" "m_lastIncludedIndex l = b"
    and "a \<le> p" "p \<le> lastIndex f" "b \<le> p" "p \<le> lastIndex l" "log_at f' j = Inr x"
  shows "if j \<le> p then log_at f j = Inr x else log_at l j = Inr x"
proof -
  from assms have j: "a < j" "j \<le> lastIndex f'" and x: "m_logs f' ! nat (j - a - 1) = x"
    by (auto simp: log_at_eq_Inr)
  have len: "length (take (nat (p - a)) (m_logs f)) = nat (p - a)"
    using assms by (simp add: lastIndex_def)
  show ?thesis
  proof (cases "j \<le> p")
    case True
    with j x assms len show ?thesis by (auto simp: log_at_eq_Inr nth_append)
  next
    case False
    then have "nat (j - a - 1) - nat (p - a) = nat (j - p - 1)" "nat (p - b) + nat (j - p - 1) = nat (j - b - 1)"
      using assms by auto
    moreover have "nat (p - b) \<le> length (m_logs l)" using assms by (auto simp: lastIndex_def)
    ultimately have "x = m_logs l ! nat (j - b - 1)"
      using False x assms(1) len by (auto simp: nth_append)
    moreover have "j \<le> lastIndex l" using j(2) assms len by (auto simp: lastIndex_def)
    ultimately show ?thesis using False assms by (auto simp: log_at_eq_Inr)
  qed
qed

text \<open>
  C2. Replication: what a leader sends, if the follower accepts it, makes the follower's log
  agree with the leader's, entry by entry as far back as both logs reach, and end at the
  same index, provided the two logs have the log matching property before.
\<close>

theorem append_replicates:
  assumes send: "sendAppendEntries_send l = Inr (c, args, l1)"
    and recv: "appendEntries now f args = Inr (reply, f')" "m_success reply"
    and "plain_log (m_logs l)" "log_matching f l"
  shows "logs_agree f' l"
proof -
  note s = sendAppendEntries_send_ok [OF send]
  let ?p = "m_prevLogIndex args" and ?a = "m_lastIncludedIndex f" and ?b = "m_lastIncludedIndex l"
  have sent: "getCmdAndTerm (m_sendLogs args) = Inr (drop (nat (?p - ?b)) (m_logs l))"
    using s(3) getCmdAndTerm_show plain_log_drop assms(4) by simp
  from appendEntries_success [OF recv] sent have r: "?a \<le> ?p" "?p \<le> lastIndex f"
    "m_logs f' = take (nat (?p - ?a)) (m_logs f) @ drop (nat (?p - ?b)) (m_logs l)"
    "m_lastIncludedIndex f' = ?a"
    "?p \<noteq> ?a \<Longrightarrow> \<exists>e. log_at f ?p = Inr e \<and> m_term e = m_prevLogTerm args"
    by auto
  have last: "lastIndex f' = lastIndex l" and p: "?p \<le> lastIndex l"
    using s(1,2) r(1-4) by (auto simp: lastIndex_def)
  have "x = y" if "log_at f' j = Inr x" "log_at l j = Inr y" for j x y
  proof (cases "j \<le> ?p")
    case True
    with spliced_entry [OF r(3) refl r(4) refl r(1,2) s(1) p that(1)]
    have fj: "log_at f j = Inr x" by simp
    with True that(2) have "?p \<noteq> ?a" "?p \<noteq> ?b" by (auto simp: log_at_eq_Inr)
    with r(5) s(8) obtain e e' where "log_at f ?p = Inr e" "log_at l ?p = Inr e'" "m_term e = m_term e'" by auto
    with assms(5) True fj that(2) show ?thesis unfolding log_matching_def by blast
  next
    case False
    with spliced_entry [OF r(3) refl r(4) refl r(1,2) s(1) p that(1)] that(2) show ?thesis by simp
  qed
  with last show ?thesis by (auto simp: logs_agree_def)
qed

definition two_peers :: "PeersInfo list" where
  "two_peers = [\<lparr>m_port = (1, 2), peerId = 0, isInstallFlag = False\<rparr>, \<lparr>m_port = (3, 4), peerId = 1, isInstallFlag = False\<rparr>]"

definition sample_leader :: Raft where
  "sample_leader = blank_raft\<lparr>m_peers := two_peers, m_curTerm := 2, m_state := LEADER, m_nextIndex := [3, 2],
     m_matchIndex := [2, 0], m_logs := [\<lparr>m_command = ''put k v 7 1'', m_term = 1\<rparr>, \<lparr>m_command = ''put k w 7 2'', m_term = 2\<rparr>]\<rparr>"

definition sample_follower :: Raft where
  "sample_follower = blank_raft\<lparr>m_peers := two_peers, m_peerId := 1, m_curTerm := 1,
     m_logs := [\<lparr>m_command = ''put k v 7 1'', m_term = 1\<rparr>, \<lparr>m_command = ''get k 0 9 1'', m_term = 1\<rparr>]\<rparr>"

definition sample_args :: AppendEntriesArgs where
  "sample_args = \<lparr>aa_term = 2, aa_leaderId = 0, m_prevLogIndex = 1, m_prevLogTerm = 1, m_leaderCommit = 0,
     m_sendLogs = ''put k w 7 2,2;''\<rparr>"

lemma sample_exchange:
  "map_sum id (\<lambda>(c, args, l1). (c, args)) (sendAppendEntries_send sample_leader) = Inr (1, sample_args)"
  "map_sum id (\<lambda>(reply, f'). (m_success reply, m_logs f')) (appendEntries noon sample_follower sample_args) =
     Inr (True, m_logs sample_leader)"
  by code_simp+

theorem append_replicates_witness:
  "\<exists>c l1 reply f'. sendAppendEntries_send sample_leader = Inr (c, sample_args, l1) \<and>
     appendEntries noon sample_follower sample_args = Inr (reply, f') \<and> m_success reply \<and>
     logs_agree f' sample_leader"
proof -
  obtain c l1 reply f' where *: "sendAppendEntries_send sample_leader = Inr (c, sample_args, l1)"
    "appendEntries noon sample_follower sample_args = Inr (reply, f')" "m_success reply"
    using sample_exchange by (auto simp: map_sum_def split: sum.splits)
  have "plain_log (m_logs sample_leader)" by code_simp
  moreover have "log_matching sample_follower sample_leader"
    by (auto simp: log_matching_def log_at_eq_Inr lastIndex_def sample_follower_def sample_leader_def
        blank_raft_def nth_Cons split: nat.splits)
  ultimately show ?thesis using append_replicates [OF *] * by blast
qed

section \<open>The search for a common point\<close>

lemma log_at_total: "m_lastIncludedIndex r < i \<Longrightarrow> i \<le> lastIndex r \<Longrightarrow> \<exists>e \<in> set (m_logs r). log_at r i = Inr e"
  by (auto simp: log_at_eq_Inr lastIndex_def intro!: nth_mem)

lemma first_of_term_ok:
  "m_lastIncludedIndex r < lo \<Longrightarrow> lo \<le> prev \<Longrightarrow> log_at r prev = Inr e \<Longrightarrow>
     \<exists>i. first_of_term r (m_term e) lo prev = Inr i \<and> lo \<le> i \<and> i \<le> prev"
proof (induction r "m_term e" lo prev rule: first_of_term.induct)
  case (1 r lo prev)
  then have "lo \<le> lastIndex r" by (simp add: log_at_eq_Inr)
  with "1.prems" log_at_total obtain x where x: "log_at r lo = Inr x" by blast
  show ?case
  proof (cases "m_term x = m_term e")
    case True
    with "1.prems" x show ?thesis by (subst first_of_term.simps) simp
  next
    case False
    with "1.prems" x have "lo \<noteq> prev" by auto
    with "1.hyps" [OF "1.prems"(2) False] "1.prems" False x show ?thesis
      by (subst first_of_term.simps) force
  qed
qed

lemma leader_conflict_ok:
  "index \<le> lastIndex r \<Longrightarrow> \<exists>i. leader_conflict r t index = Inr i \<and> (i = - 1 \<or>
     m_lastIncludedIndex r < i \<and> i \<le> index \<and> (\<exists>e. log_at r i = Inr e \<and> m_term e = t))"
proof (induction r t index rule: leader_conflict.induct)
  case (1 r t index)
  show ?case
  proof (cases "m_lastIncludedIndex r < index")
    case True
    with "1.prems" log_at_total obtain x where x: "log_at r index = Inr x" by blast
    show ?thesis
    proof (cases "m_term x = t")
      case False
      from "1.IH" [OF True False] "1.prems" obtain i where "leader_conflict r t (index - 1) = Inr i"
        "i = - 1 \<or> m_lastIncludedIndex r < i \<and> i \<le> index - 1 \<and> (\<exists>e. log_at r i = Inr e \<and> m_term e = t)"
        by auto
      with True False x show ?thesis by (subst leader_conflict.simps) auto
    qed (use True x in \<open>subst leader_conflict.simps, simp\<close>)
  qed (subst leader_conflict.simps, simp)
qed

lemma append_conflict_bounds:
  assumes "append_conflict f args = Inr (Some (ct, ci))" "0 \<le> m_lastIncludedIndex f" "1 \<le> m_prevLogIndex args"
  shows "1 \<le> ci \<and> ci \<le> m_prevLogIndex args \<and>
    (ct = - 1 \<or> ct \<noteq> m_prevLogTerm args \<and> (\<exists>e \<in> set (m_logs f). m_term e = ct))"
proof -
  let ?p = "m_prevLogIndex args"
  consider "ct = - 1" "ci = 1" | "ct = - 1" "ci = lastIndex f + 1" "lastIndex f < ?p"
    | e where "m_lastIncludedIndex f < ?p" "log_at f ?p = Inr e" "m_term e \<noteq> m_prevLogTerm args" "ct = m_term e"
        "first_of_term f (m_term e) (m_lastIncludedIndex f + 1) ?p = Inr ci"
    using assms(1) by (fastforce simp: append_conflict_def rbind_eq_Inr split: if_splits)
  then show ?thesis
  proof cases
    case (3 e)
    with first_of_term_ok [of f "m_lastIncludedIndex f + 1" ?p e] assms(2)
      log_at_total [of f ?p] log_at_eq_Inr [of f ?p e]
    show ?thesis by auto
  qed (use assms in \<open>auto simp: lastIndex_def\<close>)
qed

lemma append_conflict_total:
  "\<exists>co. append_conflict f args = Inr co"
proof -
  let ?p = "m_prevLogIndex args"
  show ?thesis
  proof (cases "m_lastIncludedIndex f < ?p \<and> ?p \<le> lastIndex f")
    case True
    with log_at_total obtain e where "log_at f ?p = Inr e" by blast
    with True first_of_term_ok [of f "m_lastIncludedIndex f + 1" ?p e] show ?thesis
      by (auto simp: append_conflict_def)
  qed (auto simp: append_conflict_def)
qed

text \<open>What a follower that is alive and not ahead answers when it rejects.\<close>

lemma appendEntries_rejects:
  assumes "appendEntries now f args = Inr (reply, f')" "\<not> m_success reply"
    and "m_curTerm f \<le> aa_term args" "\<not> dead f"
  shows "append_conflict (enter_term now (aa_term args) f) args =
      Inr (Some (m_conflict_term reply, m_conflict_index reply))" "ar_term reply = m_curTerm f"
proof -
  obtain co where co: "append_conflict (enter_term now (aa_term args) f) args = Inr co"
    using append_conflict_total by blast
  from assms(1) obtain sent where s: "getCmdAndTerm (m_sendLogs args) = Inr sent"
    by (auto simp: appendEntries_def rbind_eq_Inr)
  with assms co show "append_conflict (enter_term now (aa_term args) f) args =
      Inr (Some (m_conflict_term reply, m_conflict_index reply))" "ar_term reply = m_curTerm f"
    by (cases co; force simp: appendEntries_def Let_def)+
qed



section \<open>Commitment\<close>

lemma sorted_middle_count:
  "sorted xs \<Longrightarrow> k < length xs \<Longrightarrow> length xs - k \<le> length (filter (\<lambda>x. xs ! k \<le> x) xs)"
proof -
  assume a: "sorted xs" "k < length xs"
  then have "\<forall>x \<in> set (drop k xs). xs ! k \<le> x"
    by (auto simp: in_set_conv_nth sorted_iff_nth_mono)
  then have "filter (\<lambda>x. xs ! k \<le> x) (drop k xs) = drop k xs" by (simp add: filter_id_conv)
  then have "length xs - k \<le> length (filter (\<lambda>x. xs ! k \<le> x) (take k xs @ drop k xs))"
    by (simp del: append_take_drop_id)
  then show ?thesis by simp
qed

lemma count_sorted: "length (filter P (sort xs)) = length (filter P xs)"
  by (metis filter_sort length_sort sort_key_const)

text \<open>The middle of the sorted match indices is reached by at least half of the peers.\<close>

lemma advance_commit_ok:
  assumes "advance_commit r = Inr r'" "m_commitIndex r' \<noteq> m_commitIndex r"
  shows "m_commitIndex r < m_commitIndex r'"
    "length (m_matchIndex r) \<le> 2 * length (filter (\<lambda>i. m_commitIndex r' \<le> i) (m_matchIndex r))"
    "odd (length (m_matchIndex r)) \<Longrightarrow>
       length (m_matchIndex r) < 2 * length (filter (\<lambda>i. m_commitIndex r' \<le> i) (m_matchIndex r))"
    "m_commitIndex r' \<le> m_lastIncludedIndex r \<or>
       (\<exists>e. log_at r (m_commitIndex r') = Inr e \<and> m_term e = m_curTerm r)"
proof -
  let ?n = "length (m_matchIndex r)"
  from assms obtain x where x: "at (sort (m_matchIndex r)) (?n div 2) = Inr x" "m_commitIndex r' = x"
    "m_commitIndex r < x" "x \<le> m_lastIncludedIndex r \<or> (\<exists>e. log_at r x = Inr e \<and> m_term e = m_curTerm r)"
    by (auto simp: advance_commit_def Let_def rbind_eq_Inr split: if_splits)
  then have k: "?n div 2 < length (sort (m_matchIndex r))" "x = sort (m_matchIndex r) ! (?n div 2)"
    by (auto simp: at_def split: if_splits)
  from sorted_middle_count [OF _ k(1)] k(2)
  have "?n - ?n div 2 \<le> length (filter (\<lambda>i. x \<le> i) (m_matchIndex r))" by (simp add: count_sorted)
  then show "?n \<le> 2 * length (filter (\<lambda>i. m_commitIndex r' \<le> i) (m_matchIndex r))"
    "odd ?n \<Longrightarrow> ?n < 2 * length (filter (\<lambda>i. m_commitIndex r' \<le> i) (m_matchIndex r))"
    unfolding x(2) by (linarith, presburger)
qed (use assms in \<open>auto simp: advance_commit_def Let_def rbind_eq_Inr split: if_splits\<close>)

text \<open>
  C3. Commitment: when the reply of a follower moves a leader's commit index, it moves
  forward, to an index that the match indices of a strict majority of the peers reach (for a
  cluster of odd size), and whose entry, unless it lies in the snapshot, is of the leader's
  current term.
\<close>

theorem commit_needs_majority:
  assumes "sendAppendEntries_reply c args reply r = Inr r'" "m_commitIndex r' \<noteq> m_commitIndex r"
    and "odd (length (m_matchIndex r))"
  shows "m_commitIndex r < m_commitIndex r' \<and>
    length (m_matchIndex r') < 2 * length (filter (\<lambda>i. m_commitIndex r' \<le> i) (m_matchIndex r')) \<and>
    (m_commitIndex r' \<le> m_lastIncludedIndex r' \<or>
      (\<exists>e. log_at r' (m_commitIndex r') = Inr e \<and> m_term e = m_curTerm r'))"
proof -
  from assms(1,2) obtain ni mi r1 where
    r1: "advance_commit (r\<lparr>m_nextIndex := ni, m_matchIndex := mi\<rparr>) = Inr r1" "r' = saveRaftState r1"
    "length mi = length (m_matchIndex r)"
    by (auto simp: sendAppendEntries_reply_def Let_def rbind_eq_Inr vec_set_def split: if_splits)
  let ?r = "r\<lparr>m_nextIndex := ni, m_matchIndex := mi\<rparr>"
  from advance_commit_fields [OF r1(1)] have "log_at r1 i = log_at ?r i" for i
    by (simp add: log_at_def idxToCompressLogPos_def)
  with advance_commit_ok [OF r1(1)] advance_commit_fields [OF r1(1)] assms(2,3) r1(2,3) show ?thesis
    by simp
qed

definition sample_reply :: AppendEntriesReply where
  "sample_reply = \<lparr>ar_term = 2, m_success = True, m_conflict_term = - 1, m_conflict_index = - 1\<rparr>"

theorem commit_needs_majority_witness:
  "\<exists>r'. sendAppendEntries_reply 1 sample_args sample_reply
       (sample_leader\<lparr>m_nextIndex := [3, 2, 1], m_matchIndex := [0, 0, 0]\<rparr>) = Inr r' \<and>
     m_commitIndex r' = 2 \<and> m_matchIndex r' = [2, 2, 0] \<and> length (filter (\<lambda>i. 2 \<le> i) (m_matchIndex r')) \<ge> 2"
proof -
  let ?l = "sample_leader\<lparr>m_nextIndex := [3, 2, 1], m_matchIndex := [0, 0, 0]\<rparr>"
  have "map_sum id (\<lambda>r'. (m_commitIndex r', m_matchIndex r')) (sendAppendEntries_reply 1 sample_args sample_reply ?l) =
      Inr (2, [2, 2, 0])" by code_simp
  then obtain r' where *: "sendAppendEntries_reply 1 sample_args sample_reply ?l = Inr r'"
    "m_commitIndex r' = 2" "m_matchIndex r' = [2, 2, 0]"
    by (auto simp: map_sum_def split: sum.splits)
  moreover have "m_commitIndex r' \<noteq> m_commitIndex ?l" "odd (length (m_matchIndex ?l))"
    using * by (simp_all add: sample_leader_def blank_raft_def)
  from commit_needs_majority [OF *(1) this] * have "3 < 2 * length (filter (\<lambda>i. 2 \<le> i) (m_matchIndex r'))" by simp
  ultimately show ?thesis by auto
qed

section \<open>Delivery\<close>

definition log_msg :: "Raft \<Rightarrow> int \<Rightarrow> ApplyMsg" where
  "log_msg r i = (let e = m_logs r ! nat (i - m_lastIncludedIndex r - 1)
     in \<lparr>commandValid = True, command = m_command e, commandIndex = i, commandTerm = m_term e,
         am_lastIncludedIndex = 0, am_lastIncludedTerm = 0, am_snapShot = []\<rparr>)"

lemma upto_split: "(i::int) < j \<Longrightarrow> [i + 1..j] = (i + 1) # [i + 1 + 1..j]"
  by (simp add: upto_rec1)

lemma collect_msgs_ok:
  "m_lastIncludedIndex r \<le> m_lastApplied r \<Longrightarrow> m_lastApplied r \<le> m_commitIndex r \<Longrightarrow> m_commitIndex r \<le> lastIndex r \<Longrightarrow>
     collect_msgs r ms = Inr (ms @ map (log_msg r) [m_lastApplied r + 1..m_commitIndex r],
       r\<lparr>m_lastApplied := m_commitIndex r\<rparr>)"
proof (induction r ms rule: collect_msgs.induct)
  case (1 r ms)
  show ?case
  proof (cases "m_lastApplied r < m_commitIndex r")
    case True
    let ?r1 = "r\<lparr>m_lastApplied := m_lastApplied r + 1\<rparr>"
    have e: "log_at ?r1 (m_lastApplied ?r1) = Inr (m_logs r ! nat (m_lastApplied r - m_lastIncludedIndex r))"
      using True "1.prems" by (simp add: log_at_eq_Inr lastIndex_def)
    have "log_msg ?r1 = log_msg r" by (simp add: fun_eq_iff log_msg_def)
    moreover have "lastIndex ?r1 = lastIndex r" by (simp add: lastIndex_def)
    ultimately show ?thesis using "1.IH" [OF True refl] "1.prems" True e
      by (subst collect_msgs.simps) (simp add: upto_split [OF True] log_msg_def Let_def)
  next
    case False
    with "1.prems" show ?thesis by (subst collect_msgs.simps) simp
  qed
qed

text \<open>
  C8. Delivery: one turn of the apply loop hands the application exactly the committed
  entries it has not seen, one message per index, in index order and without a gap, and
  then stands at the commit index.
\<close>

theorem apply_in_order:
  assumes "\<not> dead r" "m_lastIncludedIndex r \<le> m_lastApplied r" "m_lastApplied r \<le> m_commitIndex r"
    and "m_commitIndex r \<le> lastIndex r"
  shows "\<exists>r'. applyLogLoop r = Inr r' \<and> m_lastApplied r' = m_commitIndex r \<and>
     m_msgs r' = m_msgs r @ map (log_msg r) [m_lastApplied r + 1..m_commitIndex r]"
  using collect_msgs_ok [OF assms(2-4), of "[]"] assms(1) by (simp add: applyLogLoop_def)

theorem apply_in_order_witness:
  "\<exists>r'. applyLogLoop (sample_leader\<lparr>m_commitIndex := 2\<rparr>) = Inr r' \<and> m_lastApplied r' = 2 \<and>
     map commandIndex (m_msgs r') = [1, 2] \<and> map command (m_msgs r') = [''put k v 7 1'', ''put k w 7 2'']"
proof -
  have "[1..2] = [1, 2::int]" by (simp add: upto_rec1)
  with apply_in_order [of "sample_leader\<lparr>m_commitIndex := 2\<rparr>"] show ?thesis
    by (auto simp: sample_leader_def blank_raft_def lastIndex_def log_msg_def Let_def)
qed

section \<open>Snapshots\<close>

text \<open>
  C10. A snapshot up to \<open>index\<close> discards exactly the entries it covers: the log keeps its
  last index and every later entry at its index, and the term of the last covered entry is
  remembered.
\<close>

theorem snapshot_keeps_log:
  assumes "m_lastIncludedIndex r < index" "index \<le> lastIndex r"
  shows "\<exists>e r'. log_at r index = Inr e \<and> recvSnapShot r snap index = Inr (False, r') \<and>
     m_lastIncludedIndex r' = index \<and> m_lastIncludedTerm r' = m_term e \<and>
     lastIndex r' = lastIndex r \<and> lastTerm r' = lastTerm r \<and>
     (\<forall>i > index. log_at r' i = log_at r i) \<and> (\<forall>i \<le> index. log_at r' i = Inl BadAccess)"
proof -
  obtain e where e: "log_at r index = Inr e" using log_at_total assms by blast
  let ?d = "nat (index - m_lastIncludedIndex r)"
  define r' where "r' = saveSnapShot (saveRaftState (r\<lparr>m_lastIncludedTerm := m_term e, m_lastIncludedIndex := index,
      m_logs := drop ?d (m_logs r), persister := (persister r)\<lparr>snapShot := snap\<rparr>\<rparr>))"
  have rv: "recvSnapShot r snap index = Inr (False, r')"
    using assms e by (simp add: recvSnapShot_def r'_def)
  have f: "m_lastIncludedIndex r' = index" "m_lastIncludedTerm r' = m_term e" "m_logs r' = drop ?d (m_logs r)"
    by (simp_all add: r'_def)
  have d: "?d \<le> length (m_logs r)" "0 < ?d" using assms by (auto simp: lastIndex_def)
  have "log_at r' i = log_at r i" if "index < i" for i
  proof -
    from that d have "nat (i - m_lastIncludedIndex r - 1) = ?d + nat (i - index - 1)" by auto
    with that d f assms show ?thesis
      by (auto simp: log_at_def idxToCompressLogPos_def vec_at_def at_def)
  qed
  moreover have "lastTerm r' = lastTerm r"
  proof (cases "?d = length (m_logs r)")
    case True
    with f e d have "m_logs r' = []" "last (m_logs r) = e"
      by (auto simp: log_at_eq_Inr last_conv_nth nat_diff_distrib)
    with d f show ?thesis by (auto simp: lastTerm_def)
  next
    case False
    with d f show ?thesis by (auto simp: lastTerm_def)
  qed
  moreover have "\<forall>i \<le> index. log_at r' i = Inl BadAccess"
    using f by (auto simp: log_at_def idxToCompressLogPos_def vec_at_def)
  moreover have "lastIndex r' = lastIndex r" using f d by (auto simp: lastIndex_def)
  ultimately show ?thesis using e rv f by blast
qed

theorem snapshot_keeps_log_witness:
  "\<exists>r'. recvSnapShot sample_leader ''k:v'' 1 = Inr (False, r') \<and> m_lastIncludedTerm r' = 1 \<and>
     log_at r' 2 = log_at sample_leader 2"
proof -
  have "m_lastIncludedIndex sample_leader < 1" "1 \<le> lastIndex sample_leader"
    by (simp_all add: sample_leader_def blank_raft_def lastIndex_def)
  from snapshot_keeps_log [OF this, of "''k:v''"] obtain e r' where
    "log_at sample_leader 1 = Inr e" "recvSnapShot sample_leader ''k:v'' 1 = Inr (False, r')"
    "m_lastIncludedTerm r' = m_term e" "\<forall>i > 1. log_at r' i = log_at sample_leader i" by blast
  moreover have "map_sum id m_term (log_at sample_leader 1) = Inr 1" by code_simp
  ultimately show ?thesis by auto
qed



text \<open>
  C33. A follower cuts its log at the previous index of every accepted append, also of one
  that was overtaken: an append that carries a shorter piece of the same log, arriving after a
  longer one that was committed, removes committed entries, and the commit index is left
  behind the end of the log, so that the apply loop then reads outside the log.
\<close>

theorem stale_append_truncates:
  "let f = sample_leader\<lparr>m_state := FOLLOWER, m_commitIndex := 2, m_lastApplied := 1\<rparr>;
       args = \<lparr>aa_term = 2, aa_leaderId = 1, m_prevLogIndex = 0, m_prevLogTerm = 0, m_leaderCommit = 0,
               m_sendLogs = ''put k v 7 1,1;''\<rparr>
   in \<exists>reply f'. appendEntries noon f args = Inr (reply, f') \<and> m_success reply \<and>
        lastIndex f' = 1 \<and> m_commitIndex f' = 2 \<and> applyLogLoop f' = Inl BadAccess"
proof -
  let ?f = "sample_leader\<lparr>m_state := FOLLOWER, m_commitIndex := 2, m_lastApplied := 1\<rparr>"
  let ?a = "\<lparr>aa_term = 2, aa_leaderId = 1, m_prevLogIndex = 0, m_prevLogTerm = 0, m_leaderCommit = 0,
               m_sendLogs = ''put k v 7 1,1;''\<rparr>"
  have "map_sum id (\<lambda>(reply, f'). (m_success reply, lastIndex f', m_commitIndex f', m_lastApplied f', dead f',
      m_lastIncludedIndex f')) (appendEntries noon ?f ?a) = Inr (True, 1, 2, 1, False, 0)"
    by code_simp
  then obtain reply f' where *: "appendEntries noon ?f ?a = Inr (reply, f')" "m_success reply" "lastIndex f' = 1"
    "m_commitIndex f' = 2" "m_lastApplied f' = 1" "\<not> dead f'" "m_lastIncludedIndex f' = 0"
    by (auto simp: map_sum_def split: sum.splits)
  then have "length (m_logs f') = 1" by (simp add: lastIndex_def)
  with * have "applyLogLoop f' = Inl BadAccess"
    by (simp add: applyLogLoop_def collect_msgs.simps [of f'] log_at_def idxToCompressLogPos_def vec_at_def at_def)
  with * show ?thesis by (auto simp: Let_def)
qed

end
