(* ===== verification/Kv_Server.thy ===== *)
theory Kv_Server
  imports Raft_Log
begin

text \<open>
  The key/value server on top of Raft, \<^verbatim>\<open>6.824/src/kvRaft/server.cpp\<close>, and its client,
  \<^verbatim>\<open>client.cpp\<close>. A request handler registers a context object, waits on a named pipe and
  then reads the context; it is two functions, before and after the wait. The contexts live
  on the handlers' stacks and the request map points to them: \<open>opctxs\<close> is that store and an
  address is a position in it. The iteration order of an \<^verbatim>\<open>unordered_map\<close> is a parameter of
  \<^verbatim>\<open>getSnapShot\<close>.
\<close>

section \<open>Model\<close>

subsection \<open>Data\<close>

definition EVERY_SERVER_PORT :: nat where
  "EVERY_SERVER_PORT = 3"

definition COMMOM_PORT :: int where
  "COMMOM_PORT = 1234"

record kvServerInfo =
  peersInfo :: PeersInfo
  m_kvPort :: "int list"

record OpContext =
  ctx_op :: Operation
  fifoName :: string
  ctx_isWrongLeader :: bool
  isIgnored :: bool
  isKeyExisted :: bool
  ctx_value :: string

definition new_OpContext :: "Operation \<Rightarrow> OpContext" where
  "new_OpContext x = \<lparr>ctx_op = x,
     fifoName = ''fifo-'' @ to_string (clientId x) @ ''-'' @ to_string (requestId x),
     ctx_isWrongLeader = False, isIgnored = False, isKeyExisted = True, ctx_value = []\<rparr>"

record GetArgs =
  ga_key :: string
  ga_clientId :: int
  ga_requestId :: int

record GetReply =
  gr_value :: string
  gr_isWrongLeader :: bool
  isKeyExist :: bool

record PutAppendArgs =
  pa_key :: string
  pa_value :: string
  pa_op :: string
  pa_clientId :: int
  pa_requestId :: int

record PutAppendReply =
  pr_isWrongLeader :: bool

record KVServer =
  m_raft :: Raft
  m_id :: int
  kv_port :: "int list"
  cur_portId :: nat
  m_maxraftstate :: int
  m_lastAppliedIndex :: int
  m_database :: "string \<rightharpoonup> string"
  m_clientSeqMap :: "int \<rightharpoonup> int"
  m_requestMap :: "int \<rightharpoonup> nat"
  opctxs :: "OpContext list"
  fifos :: "string list"

subsection \<open>Start\<close>

definition getKvServerPort :: "nat \<Rightarrow> kvServerInfo list" where
  "getKvServerPort num = map (\<lambda>i.
     \<lparr>peersInfo = \<lparr>m_port = (COMMOM_PORT + int i, COMMOM_PORT + int i + int num), peerId = int i,
                   isInstallFlag = False\<rparr>,
      m_kvPort = map (\<lambda>j. COMMOM_PORT + int i + (int j + 2) * int num) [0..<EVERY_SERVER_PORT]\<rparr>) [0..<num]"

definition getRaftPort :: "kvServerInfo list \<Rightarrow> PeersInfo list" where
  "getRaftPort kvInfo = map peersInfo kvInfo"

definition StartKvServer :: "timeval \<Rightarrow> kvServerInfo list \<Rightarrow> int \<Rightarrow> int \<Rightarrow> KVServer \<Rightarrow> KVServer res" where
  "StartKvServer now kvInfo me maxRaftState kv =
     rbind (vec_at kvInfo me) (\<lambda>info.
     rbind (Make now (getRaftPort kvInfo) me (m_raft kv)) (\<lambda>raft.
       Inr (kv\<lparr>m_id := me, kv_port := m_kvPort info, m_maxraftstate := maxRaftState,
               m_lastAppliedIndex := 0, m_raft := raft, m_database := Map.empty,
               m_clientSeqMap := Map.empty, m_requestMap := Map.empty\<rparr>)))"

text \<open>Each RPC thread takes the next port.\<close>

definition RPCserver :: "KVServer \<Rightarrow> (int \<times> KVServer) res" where
  "RPCserver kv = rbind (at (kv_port kv) (cur_portId kv)) (\<lambda>port.
     Inr (port, kv\<lparr>cur_portId := cur_portId kv + 1\<rparr>))"

subsection \<open>Request handlers\<close>

text \<open>
  Entering a request: \<open>Inl\<close> nothing registered because this server does not lead, \<open>Inr\<close> the
  log index and the address of the registered context.
\<close>

definition enter_request :: "KVServer \<Rightarrow> Operation \<Rightarrow> (int \<times> nat) option \<times> KVServer" where
  "enter_request kv x =
     (let (ret, raft) = start (m_raft kv) x;
          x' = x\<lparr>op_term := sr_curTerm ret, op_index := m_cmdIndex ret\<rparr>;
          kv1 = kv\<lparr>m_raft := raft\<rparr>
      in if \<not> isLeader ret then (None, kv1)
         else (Some (m_cmdIndex ret, length (opctxs kv1)),
               kv1\<lparr>m_requestMap := (m_requestMap kv1)(m_cmdIndex ret \<mapsto> length (opctxs kv1)),
                   opctxs := opctxs kv1 @ [new_OpContext x']\<rparr>))"

definition get_begin :: "KVServer \<Rightarrow> GetArgs \<Rightarrow> (int \<times> nat) option \<times> KVServer" where
  "get_begin kv args = enter_request kv
     \<lparr>op = ''get'', key = ga_key args, val = ''random'', clientId = ga_clientId args,
      requestId = ga_requestId args, op_term = 0, op_index = 0\<rparr>"

definition get_end :: "KVServer \<Rightarrow> (int \<times> nat) option \<Rightarrow> bool \<Rightarrow> GetReply \<times> KVServer" where
  "get_end kv entered isRecved =
     (let reply = \<lparr>gr_value = [], gr_isWrongLeader = False, isKeyExist = True\<rparr>
      in case entered of
           None \<Rightarrow> (reply\<lparr>gr_isWrongLeader := True\<rparr>, kv)
         | Some (index, a) \<Rightarrow>
             (let c = opctxs kv ! a
              in (if isRecved
                  then if ctx_isWrongLeader c then reply\<lparr>gr_isWrongLeader := True\<rparr>
                       else if \<not> isKeyExisted c then reply\<lparr>isKeyExist := False\<rparr>
                       else reply\<lparr>gr_value := ctx_value c\<rparr>
                  else reply\<lparr>gr_isWrongLeader := True\<rparr>,
                  kv\<lparr>m_requestMap := (m_requestMap kv)(index := None)\<rparr>)))"

definition putAppend_begin :: "KVServer \<Rightarrow> PutAppendArgs \<Rightarrow> (int \<times> nat) option \<times> KVServer" where
  "putAppend_begin kv args = enter_request kv
     \<lparr>op = pa_op args, key = pa_key args, val = pa_value args, clientId = pa_clientId args,
      requestId = pa_requestId args, op_term = 0, op_index = 0\<rparr>"

definition putAppend_end :: "KVServer \<Rightarrow> (int \<times> nat) option \<Rightarrow> bool \<Rightarrow> PutAppendReply \<times> KVServer" where
  "putAppend_end kv entered isRecved =
     (case entered of
        None \<Rightarrow> (\<lparr>pr_isWrongLeader = True\<rparr>, kv)
      | Some (index, a) \<Rightarrow>
          (\<lparr>pr_isWrongLeader = (if isRecved then ctx_isWrongLeader (opctxs kv ! a) else True)\<rparr>,
           kv\<lparr>m_requestMap := (m_requestMap kv)(index := None)\<rparr>))"

subsection \<open>Snapshots\<close>

definition getSnapShot :: "string list \<Rightarrow> int list \<Rightarrow> KVServer \<Rightarrow> string" where
  "getSnapShot ks cs kv =
     concat (map (\<lambda>k. (k @ '' '' @ the (m_database kv k)) @ ''.'') ks) @ '';'' @
     concat (map (\<lambda>c. (to_string c @ '' '' @ to_string (the (m_clientSeqMap kv c))) @ ''.'') cs)"

text \<open>A pair cut at the first blank; without a blank the second part would start behind the end.\<close>

definition split_pair :: "string \<Rightarrow> (string \<times> string) res" where
  "split_pair s =
     (let j = find_idx (\<lambda>c. c = CHR '' '') s
      in if j = length s then Inl (Throw ''length_error'') else Inr (take j s, drop (Suc j) s))"

fun put_pairs :: "('k \<rightharpoonup> 'v) \<Rightarrow> (string \<times> string \<Rightarrow> 'k \<times> 'v) \<Rightarrow> string list \<Rightarrow> ('k \<rightharpoonup> 'v) res" where
  "put_pairs m f [] = Inr m"
| "put_pairs m f (s # ss) =
     rbind (split_pair s) (\<lambda>p. put_pairs (m(fst (f p) \<mapsto> snd (f p))) f ss)"

text \<open>
  The pieces of a snapshot text. The variable that collects a piece is not cleared between
  the two loops, so an unterminated rest of the first part is glued to the second.
\<close>

definition snapshot_pieces :: "string \<Rightarrow> (string list \<times> string list) res" where
  "snapshot_pieces snap =
     (let (ps, tmp) = cut (CHR '';'') [] snap;
          str = ps @ (if tmp \<noteq> [] then [tmp] else [])
      in rbind (at str 0) (\<lambda>s0.
         let (kvData, rest) = cut (CHR ''.'') [] s0
         in rbind (at str 1) (\<lambda>s1. Inr (kvData, fst (cut (CHR ''.'') rest s1)))))"

definition recoverySnapShot :: "KVServer \<Rightarrow> string \<Rightarrow> KVServer res" where
  "recoverySnapShot kv snap =
     rbind (snapshot_pieces snap) (\<lambda>(kvData, clientSeq).
       rbind (put_pairs (m_database kv) id kvData) (\<lambda>db.
       rbind (put_pairs (m_clientSeqMap kv) (\<lambda>(c, v). (atoi c, atoi v)) clientSeq) (\<lambda>sq.
         Inr (kv\<lparr>m_database := db, m_clientSeqMap := sq\<rparr>))))"

subsection \<open>Applying\<close>

definition ctx_update :: "nat option \<Rightarrow> (OpContext \<Rightarrow> OpContext) \<Rightarrow> KVServer \<Rightarrow> KVServer" where
  "ctx_update a f kv = (case a of None \<Rightarrow> kv | Some i \<Rightarrow> kv\<lparr>opctxs := (opctxs kv)[i := f (opctxs kv ! i)]\<rparr>)"

definition apply_operation :: "KVServer \<Rightarrow> int \<Rightarrow> Operation \<Rightarrow> KVServer" where
  "apply_operation kv index x =
     (let kv1 = kv\<lparr>m_lastAppliedIndex := index\<rparr>;
          opctx = m_requestMap kv1 index;
          kv2 = ctx_update opctx (\<lambda>c. if op_term (ctx_op c) \<noteq> op_term x
                                     then c\<lparr>ctx_isWrongLeader := True\<rparr> else c) kv1;
          prev = m_clientSeqMap kv2 (clientId x);
          kv3 = kv2\<lparr>m_clientSeqMap := (m_clientSeqMap kv2)(clientId x \<mapsto> requestId x)\<rparr>;
          kv4 = (if op x = ''put'' \<or> op x = ''append''
                 then if prev = None \<or> the prev < requestId x
                      then if op x = ''put''
                           then kv3\<lparr>m_database := (m_database kv3)(key x \<mapsto> val x)\<rparr>
                           else case m_database kv3 (key x) of
                                  Some v \<Rightarrow> kv3\<lparr>m_database := (m_database kv3)(key x \<mapsto> v @ val x)\<rparr>
                                | None \<Rightarrow> kv3\<lparr>m_database := (m_database kv3)(key x \<mapsto> val x)\<rparr>
                      else ctx_update opctx (\<lambda>c. c\<lparr>isIgnored := True\<rparr>) kv3
                 else ctx_update opctx (\<lambda>c.
                        case m_database kv3 (key x) of
                          Some v \<Rightarrow> c\<lparr>ctx_value := v\<rparr>
                        | None \<Rightarrow> c\<lparr>isKeyExisted := False, ctx_value := []\<rparr>) kv3)
      in case opctx of
           None \<Rightarrow> kv4
         | Some i \<Rightarrow> kv4\<lparr>fifos := fifos kv4 @ [fifoName (opctxs kv4 ! i)]\<rparr>)"

definition apply_msg :: "KVServer \<Rightarrow> ApplyMsg \<Rightarrow> KVServer res" where
  "apply_msg kv msg =
     (if \<not> commandValid msg
      then rbind (if am_snapShot msg = []
                  then Inr (kv\<lparr>m_database := Map.empty, m_clientSeqMap := Map.empty\<rparr>)
                  else recoverySnapShot kv (am_snapShot msg))
             (\<lambda>kv1. Inr (kv1\<lparr>m_lastAppliedIndex := am_lastIncludedIndex msg\<rparr>))
      else rbind (getOperation msg) (\<lambda>x. Inr (apply_operation kv (commandIndex msg) x)))"

text \<open>One turn of \<^verbatim>\<open>applyLoop\<close> and of \<^verbatim>\<open>snapShotLoop\<close>.\<close>

definition applyLoop :: "KVServer \<Rightarrow> KVServer res" where
  "applyLoop kv = rbind (getBackMsg (m_raft kv)) (apply_msg kv)"

definition snapShotLoop :: "string list \<Rightarrow> int list \<Rightarrow> KVServer \<Rightarrow> (bool \<times> KVServer) res" where
  "snapShotLoop ks cs kv =
     (if m_maxraftstate kv \<noteq> - 1 \<and> ExceedLogSize (m_raft kv) (m_maxraftstate kv)
      then rbind (recvSnapShot (m_raft kv) (getSnapShot ks cs kv) (m_lastAppliedIndex kv))
             (\<lambda>(locked, raft). Inr (locked, kv\<lparr>m_raft := raft\<rparr>))
      else Inr (False, kv))"

definition getRaftState :: "KVServer \<Rightarrow> bool" where
  "getRaftState kv = snd (getState (m_raft kv))"

definition killRaft :: "KVServer \<Rightarrow> KVServer" where
  "killRaft kv = kv\<lparr>m_raft := kill (m_raft kv)\<rparr>"

definition activateRaft :: "KVServer \<Rightarrow> KVServer" where
  "activateRaft kv = kv\<lparr>m_raft := activate (m_raft kv)\<rparr>"

subsection \<open>The client\<close>

record Clerk =
  servers :: "int list list"
  leaderId :: nat
  ck_clientId :: int
  ck_requestId :: int

definition getServerPort :: "nat \<Rightarrow> int list list" where
  "getServerPort num = map (\<lambda>i. map (\<lambda>j. COMMOM_PORT + int i + (int j + 2) * int num) [0..<3]) [0..<num]"

definition new_Clerk :: "nat \<Rightarrow> nat \<Rightarrow> int list list \<Rightarrow> Clerk" where
  "new_Clerk rand1 rand2 srvs =
     \<lparr>servers = srvs, leaderId = rand2 mod length srvs, ck_clientId = int (rand1 mod 10000) + 1,
      ck_requestId = 0\<rparr>"

definition getCurRequestId :: "Clerk \<Rightarrow> int \<times> Clerk" where
  "getCurRequestId ck = (ck_requestId ck, ck\<lparr>ck_requestId := ck_requestId ck + 1\<rparr>)"

definition getCurLeader :: "Clerk \<Rightarrow> nat" where
  "getCurLeader ck = leaderId ck"

definition getChangeLeader :: "Clerk \<Rightarrow> nat \<times> Clerk" where
  "getChangeLeader ck =
     (let l = (leaderId ck + 1) mod length (servers ck) in (l, ck\<lparr>leaderId := l\<rparr>))"

text \<open>
  The retry loop of both requests. \<open>answers\<close> is what the calls return, in order, \<open>None\<close> for
  "wrong leader"; the result holds the servers called, and the answer, or \<open>None\<close> while the
  loop still runs when the answers are used up.
\<close>

fun clerk_call :: "nat \<Rightarrow> 'r option list \<Rightarrow> Clerk \<Rightarrow> nat list \<times> 'r option \<times> Clerk" where
  "clerk_call cur_leader [] ck = ([], None, ck)"
| "clerk_call cur_leader (Some r # answers) ck = ([cur_leader], Some r, ck)"
| "clerk_call cur_leader (None # answers) ck =
     (let (l, ck1) = getChangeLeader ck; (called, r, ck2) = clerk_call l answers ck1
      in (cur_leader # called, r, ck2))"

definition answer_of_get :: "GetReply \<Rightarrow> string option" where
  "answer_of_get reply = (if gr_isWrongLeader reply then None
     else if isKeyExist reply then Some (gr_value reply) else Some [])"

definition clerk_get :: "string \<Rightarrow> GetReply list \<Rightarrow> Clerk \<Rightarrow> GetArgs \<times> nat list \<times> string option \<times> Clerk" where
  "clerk_get k replies ck =
     (let (rid, ck1) = getCurRequestId ck
      in (\<lparr>ga_key = k, ga_clientId = ck_clientId ck1, ga_requestId = rid\<rparr>,
          clerk_call (getCurLeader ck1) (map answer_of_get replies) ck1))"

definition clerk_putAppend ::
  "string \<Rightarrow> string \<Rightarrow> string \<Rightarrow> PutAppendReply list \<Rightarrow> Clerk \<Rightarrow> PutAppendArgs \<times> nat list \<times> unit option \<times> Clerk" where
  "clerk_putAppend k v operation replies ck =
     (let (rid, ck1) = getCurRequestId ck
      in (\<lparr>pa_key = k, pa_value = v, pa_op = operation, pa_clientId = ck_clientId ck1, pa_requestId = rid\<rparr>,
          clerk_call (getCurLeader ck1) (map (\<lambda>r. if pr_isWrongLeader r then None else Some ()) replies) ck1))"

section \<open>The state machine\<close>

text \<open>What the clients see of a server: the database and the last request of each client.\<close>

definition kv_view :: "KVServer \<Rightarrow> (string \<rightharpoonup> string) \<times> (int \<rightharpoonup> int)" where
  "kv_view kv = (m_database kv, m_clientSeqMap kv)"

definition db_apply :: "(string \<rightharpoonup> string) \<Rightarrow> Operation \<Rightarrow> (string \<rightharpoonup> string)" where
  "db_apply db x =
     (if op x = ''put'' then db(key x \<mapsto> val x)
      else if op x = ''append'' then db(key x \<mapsto> (case db (key x) of None \<Rightarrow> [] | Some v \<Rightarrow> v) @ val x)
      else db)"

definition spec_op ::
  "(string \<rightharpoonup> string) \<times> (int \<rightharpoonup> int) \<Rightarrow> Operation \<Rightarrow> (string \<rightharpoonup> string) \<times> (int \<rightharpoonup> int)" where
  "spec_op v x =
     (if case snd v (clientId x) of None \<Rightarrow> True | Some i \<Rightarrow> i < requestId x
      then db_apply (fst v) x else fst v,
      (snd v)(clientId x \<mapsto> requestId x))"

definition spec_msg ::
  "(string \<rightharpoonup> string) \<times> (int \<rightharpoonup> int) \<Rightarrow> ApplyMsg \<Rightarrow> ((string \<rightharpoonup> string) \<times> (int \<rightharpoonup> int)) res" where
  "spec_msg v msg =
     (if commandValid msg then rbind (getOperation msg) (\<lambda>x. Inr (spec_op v x))
      else if am_snapShot msg = [] then Inr (Map.empty, Map.empty)
      else rbind (snapshot_pieces (am_snapShot msg)) (\<lambda>(kvData, clientSeq).
             rbind (put_pairs (fst v) id kvData) (\<lambda>db.
             rbind (put_pairs (snd v) (\<lambda>(c, v). (atoi c, atoi v)) clientSeq) (\<lambda>sq. Inr (db, sq)))))"

lemma ctx_update_view [simp]:
  "m_database (ctx_update a f kv) = m_database kv" "m_clientSeqMap (ctx_update a f kv) = m_clientSeqMap kv"
  by (simp_all add: ctx_update_def split: option.split)

lemma apply_operation_view: "kv_view (apply_operation kv index x) = spec_op (kv_view kv) x"
  by (auto simp: apply_operation_def Let_def kv_view_def spec_op_def db_apply_def split: option.splits)

lemma recoverySnapShot_view:
  "map_sum id kv_view (recoverySnapShot kv snap) =
     rbind (snapshot_pieces snap) (\<lambda>(kvData, clientSeq).
       rbind (put_pairs (m_database kv) id kvData) (\<lambda>db.
       rbind (put_pairs (m_clientSeqMap kv) (\<lambda>(c, v). (atoi c, atoi v)) clientSeq) (\<lambda>sq. Inr (db, sq))))"
  by (auto simp: recoverySnapShot_def kv_view_def rbind_def split: sum.split)

lemma kv_view_lastApplied [simp]: "kv_view (kv\<lparr>m_lastAppliedIndex := i\<rparr>) = kv_view kv"
  by (simp add: kv_view_def)

lemma apply_msg_view: "map_sum id kv_view (apply_msg kv msg) = spec_msg (kv_view kv) msg"
proof (cases "commandValid msg")
  case True
  then show ?thesis
    by (cases "getOperation msg") (simp_all add: apply_msg_def spec_msg_def apply_operation_view)
next
  case False
  have "map_sum id kv_view (rbind m (\<lambda>kv1. Inr (kv1\<lparr>m_lastAppliedIndex := i\<rparr>))) = map_sum id kv_view m"
    for m :: "KVServer res" and i
    by (cases m) simp_all
  with False show ?thesis
    by (simp add: apply_msg_def spec_msg_def recoverySnapShot_view) (simp add: kv_view_def)
qed

interpretation kvs: replicated apply_msg kv_view spec_msg
  by unfold_locales (rule apply_msg_view)

text \<open>
  C4. The servers are replicas: a server that applies a sequence of messages moves its
  database and its table of client requests as the specification does, whatever requests it
  is handling itself, so two servers that start equal and apply the same messages stay equal
  (or stop with the same fault).
\<close>

theorem kv_replicas_agree:
  assumes "kv_view a = kv_view b"
  shows "map_sum id kv_view (foldM apply_msg a msgs) = foldM spec_msg (kv_view a) msgs \<and>
    map_sum id kv_view (foldM apply_msg a msgs) = map_sum id kv_view (foldM apply_msg b msgs)"
  using kvs.run_refines kvs.replicas_agree [OF assms] by blast

definition empty_kv :: KVServer where
  "empty_kv = \<lparr>m_raft = blank_raft, m_id = 0, kv_port = [], cur_portId = 0, m_maxraftstate = - 1,
     m_lastAppliedIndex = 0, m_database = Map.empty, m_clientSeqMap = Map.empty, m_requestMap = Map.empty,
     opctxs = [], fifos = []\<rparr>"

definition cmd_msg :: "int \<Rightarrow> string \<Rightarrow> ApplyMsg" where
  "cmd_msg i cmd = \<lparr>commandValid = True, command = cmd, commandIndex = i, commandTerm = 1,
     am_lastIncludedIndex = 0, am_lastIncludedTerm = 0, am_snapShot = []\<rparr>"

theorem kv_replicas_agree_witness:
  "kv_view empty_kv = kv_view (empty_kv\<lparr>m_requestMap := [1 \<mapsto> 0], opctxs := [new_OpContext
      \<lparr>op = ''put'', key = ''k'', val = ''v'', clientId = 7, requestId = 0, op_term = 1, op_index = 1\<rparr>]\<rparr>) \<and>
   map_sum id kv_view (foldM apply_msg empty_kv [cmd_msg 1 ''put k v 7 0'']) =
   map_sum id kv_view (foldM apply_msg (empty_kv\<lparr>m_requestMap := [1 \<mapsto> 0], opctxs := [new_OpContext
      \<lparr>op = ''put'', key = ''k'', val = ''v'', clientId = 7, requestId = 0, op_term = 1, op_index = 1\<rparr>]\<rparr>)
     [cmd_msg 1 ''put k v 7 0''])"
proof -
  let ?b = "empty_kv\<lparr>m_requestMap := [1 \<mapsto> 0], opctxs := [new_OpContext
      \<lparr>op = ''put'', key = ''k'', val = ''v'', clientId = 7, requestId = 0, op_term = 1, op_index = 1\<rparr>]\<rparr>"
  have "kv_view empty_kv = kv_view ?b" by (simp add: kv_view_def empty_kv_def)
  with kv_replicas_agree [OF this] show ?thesis by blast
qed

section \<open>At most once\<close>

text \<open>The requests of each client come in the order of their ids, duplicates allowed.\<close>

definition in_order :: "Operation list \<Rightarrow> bool" where
  "in_order = sorted_wrt (\<lambda>x y. clientId x = clientId y \<longrightarrow> requestId x \<le> requestId y)"

text \<open>The first occurrence of every request.\<close>

fun once :: "(int \<times> int) set \<Rightarrow> Operation list \<Rightarrow> Operation list" where
  "once seen [] = []"
| "once seen (x # xs) =
     (if (clientId x, requestId x) \<in> seen then once seen xs
      else x # once (insert (clientId x, requestId x) seen) xs)"

definition seen_inv :: "(int \<times> int) set \<Rightarrow> (int \<rightharpoonup> int) \<Rightarrow> Operation list \<Rightarrow> bool" where
  "seen_inv seen sq xs \<longleftrightarrow>
     (\<forall>c. case sq c of None \<Rightarrow> \<forall>i. (c, i) \<notin> seen
        | Some i \<Rightarrow> (c, i) \<in> seen \<and> (\<forall>j. (c, j) \<in> seen \<longrightarrow> j \<le> i) \<and>
            (\<forall>x \<in> set xs. clientId x = c \<longrightarrow> i \<le> requestId x))"

lemma seen_inv_step:
  assumes "seen_inv seen sq (x # xs)" "in_order (x # xs)"
  shows "seen_inv (insert (clientId x, requestId x) seen) (sq(clientId x \<mapsto> requestId x)) xs"
    "(clientId x, requestId x) \<in> seen \<longleftrightarrow> \<not> (case sq (clientId x) of None \<Rightarrow> True | Some i \<Rightarrow> i < requestId x)"
proof -
  have c: "case sq (clientId x) of None \<Rightarrow> \<forall>i. (clientId x, i) \<notin> seen
        | Some i \<Rightarrow> (clientId x, i) \<in> seen \<and> (\<forall>j. (clientId x, j) \<in> seen \<longrightarrow> j \<le> i) \<and> i \<le> requestId x"
    using assms(1) [unfolded seen_inv_def, THEN spec, of "clientId x"] by (auto split: option.splits)
  then show "(clientId x, requestId x) \<in> seen \<longleftrightarrow>
      \<not> (case sq (clientId x) of None \<Rightarrow> True | Some i \<Rightarrow> i < requestId x)"
    by (auto split: option.splits)
  show "seen_inv (insert (clientId x, requestId x) seen) (sq(clientId x \<mapsto> requestId x)) xs"
    unfolding seen_inv_def
  proof
    fix d
    show "case (sq(clientId x \<mapsto> requestId x)) d of
        None \<Rightarrow> \<forall>i. (d, i) \<notin> insert (clientId x, requestId x) seen
      | Some i \<Rightarrow> (d, i) \<in> insert (clientId x, requestId x) seen \<and>
          (\<forall>j. (d, j) \<in> insert (clientId x, requestId x) seen \<longrightarrow> j \<le> i) \<and>
          (\<forall>x \<in> set xs. clientId x = d \<longrightarrow> i \<le> requestId x)"
    proof (cases "d = clientId x")
      case True
      with c assms(2) show ?thesis by (fastforce simp: in_order_def split: option.splits)
    next
      case False
      with assms(1) [unfolded seen_inv_def, THEN spec, of d] show ?thesis
        by (auto split: option.splits)
    qed
  qed
qed

lemma spec_ops_once:
  "in_order xs \<Longrightarrow> seen_inv seen sq xs \<Longrightarrow>
     fst (foldl spec_op (db, sq) xs) = foldl db_apply db (once seen xs)"
proof (induction xs arbitrary: seen sq db)
  case (Cons x xs)
  note st = seen_inv_step [OF Cons.prems(2,1)]
  have o: "in_order xs" using Cons.prems(1) by (simp add: in_order_def)
  show ?case
  proof (cases "(clientId x, requestId x) \<in> seen")
    case True
    with st(2) have "spec_op (db, sq) x = (db, sq(clientId x \<mapsto> requestId x))" by (simp add: spec_op_def)
    with True Cons.IH [OF o st(1)] show ?thesis
      by (simp only: insert_absorb foldl_Cons once.simps if_True)
  next
    case False
    with st(2) have "spec_op (db, sq) x = (db_apply db x, sq(clientId x \<mapsto> requestId x))"
      by (simp add: spec_op_def)
    with False Cons.IH [OF o st(1)] show ?thesis by (simp only: foldl_Cons once.simps if_False)
  qed
qed simp

lemma spec_msgs_ops:
  "list_all2 (\<lambda>m x. commandValid m \<and> getOperation m = Inr x) msgs ops \<Longrightarrow>
     foldM spec_msg v msgs = Inr (foldl spec_op v ops)"
  by (induction msgs ops arbitrary: v rule: list_all2_induct) (simp_all add: spec_msg_def)

text \<open>
  C9. At most once: when the requests of each client reach the log in the order of their
  ids, with any number of duplicates in between (as a client makes them that repeats a request
  until it is answered before it sends the next), a server that applies them ends with the
  database in which every request has been executed exactly once.
\<close>

theorem kv_at_most_once:
  assumes "list_all2 (\<lambda>m x. commandValid m \<and> getOperation m = Inr x) msgs ops" "in_order ops"
    and "m_database kv = Map.empty" "m_clientSeqMap kv = Map.empty"
  shows "\<exists>kv'. foldM apply_msg kv msgs = Inr kv' \<and> m_database kv' = foldl db_apply Map.empty (once {} ops)"
proof -
  have "map_sum id kv_view (foldM apply_msg kv msgs) = Inr (foldl spec_op (Map.empty, Map.empty) ops)"
    using kvs.run_refines [of kv msgs] spec_msgs_ops [OF assms(1)] assms(3,4) by (simp add: kv_view_def)
  then obtain kv' where "foldM apply_msg kv msgs = Inr kv'"
    "kv_view kv' = foldl spec_op (Map.empty, Map.empty) ops"
    by (cases "foldM apply_msg kv msgs") auto
  moreover have "seen_inv {} Map.empty ops" by (simp add: seen_inv_def)
  ultimately show ?thesis using spec_ops_once [OF assms(2)] by (metis fst_conv kv_view_def)
qed

theorem kv_at_most_once_witness:
  "\<exists>kv'. foldM apply_msg empty_kv [cmd_msg 1 ''append k v 7 0'', cmd_msg 2 ''append k v 7 0'', cmd_msg 3 ''append k w 7 1''] = Inr kv' \<and>
     m_database kv' ''k'' = Some ''vw''"
proof -
  let ?op = "\<lambda>v i. \<lparr>op = ''append'', key = ''k'', val = v, clientId = 7, requestId = i, op_term = 1, op_index = 0\<rparr>"
  let ?ops = "[?op ''v'' 0, ?op ''v'' 0, ?op ''w'' 1]"
  have g: "getOperation (cmd_msg i ''append k v 7 0'') = Inr (?op ''v'' 0)"
    "getOperation (cmd_msg i ''append k w 7 1'') = Inr (?op ''w'' 1)" for i
    unfolding getOperation_def cmd_msg_def ApplyMsg.simps by code_simp+
  have "list_all2 (\<lambda>m x. commandValid m \<and> getOperation m = Inr x)
      [cmd_msg 1 ''append k v 7 0'', cmd_msg 2 ''append k v 7 0'', cmd_msg 3 ''append k w 7 1''] ?ops"
    by (simp add: g) (simp add: cmd_msg_def)
  from kv_at_most_once [OF this, of empty_kv] show ?thesis
    by (auto simp: in_order_def empty_kv_def db_apply_def)
qed

text \<open>
  C34. The table of requests holds the last id applied, not the greatest: a late duplicate
  of request 1 after request 2 sets the entry back, and a following duplicate of request 2 is
  executed a second time.
\<close>

theorem kv_late_duplicate_reapplied:
  "\<exists>kv'. foldM apply_msg empty_kv [cmd_msg 1 ''put k v 7 1'', cmd_msg 2 ''append k w 7 2'',
        cmd_msg 3 ''put k v 7 1'', cmd_msg 4 ''append k w 7 2''] = Inr kv' \<and>
     m_database kv' ''k'' = Some ''vww''"
proof -
  let ?p = "\<lparr>op = ''put'', key = ''k'', val = ''v'', clientId = 7, requestId = 1, op_term = 1, op_index = 0\<rparr>"
  let ?a = "\<lparr>op = ''append'', key = ''k'', val = ''w'', clientId = 7, requestId = 2, op_term = 1, op_index = 0\<rparr>"
  let ?ms = "[cmd_msg 1 ''put k v 7 1'', cmd_msg 2 ''append k w 7 2'', cmd_msg 3 ''put k v 7 1'', cmd_msg 4 ''append k w 7 2'']"
  have g: "getOperation (cmd_msg i ''put k v 7 1'') = Inr ?p" "getOperation (cmd_msg i ''append k w 7 2'') = Inr ?a" for i
    unfolding getOperation_def cmd_msg_def ApplyMsg.simps by code_simp+
  have "list_all2 (\<lambda>m x. commandValid m \<and> getOperation m = Inr x) ?ms [?p, ?a, ?p, ?a]"
    by (simp add: g) (simp add: cmd_msg_def)
  from kvs.run_refines [of empty_kv ?ms] spec_msgs_ops [OF this]
  have "map_sum id kv_view (foldM apply_msg empty_kv ?ms) = Inr (foldl spec_op (kv_view empty_kv) [?p, ?a, ?p, ?a])"
    by simp
  then obtain kv' where "foldM apply_msg empty_kv ?ms = Inr kv'"
    "kv_view kv' = foldl spec_op (kv_view empty_kv) [?p, ?a, ?p, ?a]"
    by (cases "foldM apply_msg empty_kv ?ms") auto
  then show ?thesis by (auto simp: kv_view_def empty_kv_def spec_op_def db_apply_def)
qed

section \<open>Snapshots\<close>

lemma split_pair_ok: "CHR '' '' \<notin> set a \<Longrightarrow> split_pair (a @ '' '' @ b) = Inr (a, b)"
proof -
  assume "CHR '' '' \<notin> set a"
  then have "find_idx (\<lambda>c. c = CHR '' '') (a @ '' '' @ b) = length a"
    using find_idx_append [of a "\<lambda>c. c = CHR '' ''" "CHR '' ''" b] by auto
  then show ?thesis by (simp add: split_pair_def)
qed

lemma put_pairs_ok:
  "\<forall>k \<in> set ks. CHR '' '' \<notin> set (g k) \<Longrightarrow>
     put_pairs m f (map (\<lambda>k. g k @ '' '' @ h k) ks) =
     Inr (foldl (\<lambda>m k. m(fst (f (g k, h k)) \<mapsto> snd (f (g k, h k)))) m ks)"
proof (induction ks arbitrary: m)
  case (Cons k ks)
  with split_pair_ok [of "g k" "h k"] show ?case by (simp del: fun_upd_apply)
qed simp

lemma foldl_update: "set ks \<subseteq> dom d \<Longrightarrow> foldl (\<lambda>m k. m(k \<mapsto> the (d k))) m ks = m ++ (d |` set ks)"
proof (induction ks arbitrary: m)
  case (Cons k ks)
  then show ?case by (auto simp: map_add_def restrict_map_def fun_eq_iff split: option.split)
qed simp

text \<open>Databases whose keys and values the separators of the snapshot text leave intact.\<close>

definition plain_db :: "(string \<rightharpoonup> string) \<Rightarrow> bool" where
  "plain_db db \<longleftrightarrow> (\<forall>k v. db k = Some v \<longrightarrow>
     set k \<inter> {CHR '' '', CHR ''.'', CHR '';''} = {} \<and> set v \<inter> {CHR ''.'', CHR '';''} = {})"

lemma snapshot_pieces_ok:
  assumes "ps \<noteq> []" "qs \<noteq> []" "\<forall>p \<in> set ps \<union> set qs. p \<noteq> [] \<and> set p \<inter> {CHR ''.'', CHR '';''} = {}"
  shows "snapshot_pieces (concat (map (\<lambda>p. p @ ''.'') ps) @ '';'' @ concat (map (\<lambda>q. q @ ''.'') qs)) = Inr (ps, qs)"
proof -
  let ?s = "concat (map (\<lambda>p. p @ ''.'') ps)" and ?t = "concat (map (\<lambda>q. q @ ''.'') qs)"
  have "CHR '';'' \<notin> set ?s" "CHR '';'' \<notin> set ?t" "?s \<noteq> []" "?t \<noteq> []" using assms by auto
  then have "cut (CHR '';'') [] (?s @ '';'' @ ?t) = ([?s], ?t)"
    using cut_pieces [of "[?s]" "CHR '';''" ?t] by simp
  moreover have "cut (CHR ''.'') [] ?s = (ps, [])" "cut (CHR ''.'') [] ?t = (qs, [])"
    using cut_pieces [of ps "CHR ''.''" "[]"] cut_pieces [of qs "CHR ''.''" "[]"] assms(3) by auto
  ultimately show ?thesis using \<open>?t \<noteq> []\<close> by (simp add: snapshot_pieces_def)
qed

text \<open>
  C22. A snapshot taken by one server and recovered by another adds to that server the whole
  database and request table of the first, in whatever order the hash maps were listed;
  both must be non-empty, and keys and values free of the separators of the text.
\<close>

theorem kv_snapshot_roundtrip:
  assumes "set ks = dom (m_database kv)" "set cs = dom (m_clientSeqMap kv)" "ks \<noteq> []" "cs \<noteq> []"
    and "plain_db (m_database kv)"
  shows "recoverySnapShot kv0 (getSnapShot ks cs kv) =
    Inr (kv0\<lparr>m_database := m_database kv0 ++ m_database kv,
             m_clientSeqMap := m_clientSeqMap kv0 ++ m_clientSeqMap kv\<rparr>)"
proof -
  let ?kp = "\<lambda>k. k @ '' '' @ the (m_database kv k)"
  let ?cp = "\<lambda>c. to_string c @ '' '' @ to_string (the (m_clientSeqMap kv c))"
  have d: "set k \<inter> {CHR '' '', CHR ''.'', CHR '';''} = {}"
    "set (the (m_database kv k)) \<inter> {CHR ''.'', CHR '';''} = {}" if "k \<in> set ks" for k
  proof -
    from that assms(1) obtain v where "m_database kv k = Some v" by auto
    with assms(5) show "set k \<inter> {CHR '' '', CHR ''.'', CHR '';''} = {}"
      "set (the (m_database kv k)) \<inter> {CHR ''.'', CHR '';''} = {}" unfolding plain_db_def by (metis option.sel)+
  qed
  have t: "CHR '' '' \<notin> set (to_string i)" "CHR ''.'' \<notin> set (to_string i)" "CHR '';'' \<notin> set (to_string i)" for i
    by (auto dest: to_string_chars simp: is_digit_def)
  have "\<forall>p \<in> set (map ?kp ks) \<union> set (map ?cp cs). p \<noteq> [] \<and> set p \<inter> {CHR ''.'', CHR '';''} = {}"
    using d t by auto
  with assms(3,4) have "snapshot_pieces (getSnapShot ks cs kv) = Inr (map ?kp ks, map ?cp cs)"
    using snapshot_pieces_ok [of "map ?kp ks" "map ?cp cs"] by (simp add: getSnapShot_def comp_def)
  moreover have "put_pairs (m_database kv0) id (map ?kp ks) = Inr (m_database kv0 ++ m_database kv)"
    using put_pairs_ok [of ks "\<lambda>k. k" "m_database kv0" id "\<lambda>k. the (m_database kv k)"] d
      foldl_update [of ks "m_database kv"] assms(1)
    by (auto simp: restrict_map_def fun_eq_iff map_add_def domIff split: option.split)
  moreover have "put_pairs (m_clientSeqMap kv0) (\<lambda>(c, v). (atoi c, atoi v)) (map ?cp cs) =
      Inr (m_clientSeqMap kv0 ++ m_clientSeqMap kv)"
    using put_pairs_ok [of cs to_string "m_clientSeqMap kv0" "\<lambda>(c, v). (atoi c, atoi v)"
        "\<lambda>c. to_string (the (m_clientSeqMap kv c))"] t foldl_update [of cs "m_clientSeqMap kv"] assms(2)
    by (auto simp: restrict_map_def fun_eq_iff map_add_def domIff split: option.split)
  ultimately show ?thesis by (simp add: recoverySnapShot_def)
qed

theorem kv_snapshot_roundtrip_witness:
  "recoverySnapShot empty_kv (getSnapShot [''k''] [7] (empty_kv\<lparr>m_database := [''k'' \<mapsto> ''v w''], m_clientSeqMap := [7 \<mapsto> 3]\<rparr>)) =
     Inr (empty_kv\<lparr>m_database := [''k'' \<mapsto> ''v w''], m_clientSeqMap := [7 \<mapsto> 3]\<rparr>)"
  using kv_snapshot_roundtrip [of "[''k'']" "empty_kv\<lparr>m_database := [''k'' \<mapsto> ''v w''], m_clientSeqMap := [7 \<mapsto> 3]\<rparr>" "[7]" empty_kv]
  by (simp add: plain_db_def empty_kv_def)

text \<open>
  C35. A snapshot taken while the database is still empty (only reads so far) cannot be
  recovered: its text has one part instead of two, and the second is read anyway.
\<close>

theorem kv_snapshot_empty_db_fault:
  assumes "m_database kv = Map.empty" "set cs = dom (m_clientSeqMap kv)" "cs \<noteq> []"
  shows "recoverySnapShot kv0 (getSnapShot [] cs kv) = Inl BadAccess"
proof -
  let ?t = "concat (map (\<lambda>c. (to_string c @ '' '' @ to_string (the (m_clientSeqMap kv c))) @ ''.'') cs)"
  have "CHR '';'' \<notin> set (to_string i)" for i by (auto dest: to_string_chars simp: is_digit_def)
  then have "CHR '';'' \<notin> set ?t" by auto
  then have "cut (CHR '';'') [] ('';'' @ ?t) = ([], ?t)"
    using cut_plain [of "CHR '';''" ?t "[]" "[]"] by simp
  moreover have "?t \<noteq> []" using assms(3) by (cases cs) auto
  ultimately have "snapshot_pieces ('';'' @ ?t) = Inl BadAccess"
    by (simp add: snapshot_pieces_def at_def split: prod.split)
  then show ?thesis by (simp add: recoverySnapShot_def getSnapShot_def)
qed

theorem kv_snapshot_empty_db_fault_witness:
  "recoverySnapShot empty_kv (getSnapShot [] [7] (empty_kv\<lparr>m_clientSeqMap := [7 \<mapsto> 3]\<rparr>)) = Inl BadAccess"
  using kv_snapshot_empty_db_fault [of "empty_kv\<lparr>m_clientSeqMap := [7 \<mapsto> 3]\<rparr>" "[7]" empty_kv]
  by (simp add: empty_kv_def)

section \<open>Answers\<close>


definition leading_kv :: KVServer where
  "leading_kv = empty_kv\<lparr>m_raft := sample_leader, m_database := [''k'' \<mapsto> ''v'']\<rparr>"


end
