(* ===== verification/Kv_Handoff.thy ===== *)
theory Kv_Handoff
  imports Kv_Server
begin

text \<open>
  The hand-over of messages from the Raft layer to the key/value layer, with the two
  semaphores between them (\<^verbatim>\<open>6.824/src/kvRaft/locker.h\<close>, \<^verbatim>\<open>raft.hpp\<close>, \<^verbatim>\<open>server.cpp\<close>), and
  the port numbers on which the servers listen and the clients call.
\<close>

section \<open>Model\<close>

text \<open>
  A semaphore is its counter; \<open>wait\<close> blocks (\<open>None\<close>) at 0. A producer is a thread that runs
  \<^verbatim>\<open>applyLogLoop\<close> or \<^verbatim>\<open>installSnapShotTokvServer\<close>; any number of them may be active.
\<close>

definition wait :: "nat \<Rightarrow> nat option" where
  "wait m_sem = (if 0 < m_sem then Some (m_sem - 1) else None)"

definition post :: "nat \<Rightarrow> nat" where
  "post m_sem = m_sem + 1"

datatype producer = Waiting | Ready ApplyMsg | Pushed

datatype consumer = Listening | Woken | Applied

record handoff =
  m_recvSem :: nat
  m_sendSem :: nat
  h_msgs :: "ApplyMsg list"
  producers :: "nat \<Rightarrow> producer"
  consumer :: consumer
  applied :: "ApplyMsg list"

definition handoff_init :: handoff where
  "handoff_init = \<lparr>m_recvSem = 1, m_sendSem = 0, h_msgs = [], producers = (\<lambda>_. Waiting),
     consumer = Listening, applied = []\<rparr>"

inductive handoff_step :: "handoff \<Rightarrow> handoff \<Rightarrow> bool" where
  waitRecv: "producers s p = Waiting \<Longrightarrow> wait (m_recvSem s) = Some n \<Longrightarrow>
    handoff_step s (s\<lparr>m_recvSem := n, producers := (producers s)(p := Ready msg)\<rparr>)"
| push: "producers s p = Ready msg \<Longrightarrow>
    handoff_step s (s\<lparr>h_msgs := h_msgs s @ [msg], producers := (producers s)(p := Pushed)\<rparr>)"
| postSend: "producers s p = Pushed \<Longrightarrow>
    handoff_step s (s\<lparr>m_sendSem := post (m_sendSem s), producers := (producers s)(p := Waiting)\<rparr>)"
| waitSend: "consumer s = Listening \<Longrightarrow> wait (m_sendSem s) = Some n \<Longrightarrow>
    handoff_step s (s\<lparr>m_sendSem := n, consumer := Woken\<rparr>)"
| getBack: "consumer s = Woken \<Longrightarrow> h_msgs s \<noteq> [] \<Longrightarrow>
    handoff_step s (s\<lparr>applied := applied s @ [last (h_msgs s)], consumer := Applied\<rparr>)"
| postRecv: "consumer s = Applied \<Longrightarrow>
    handoff_step s (s\<lparr>m_recvSem := post (m_recvSem s), consumer := Listening\<rparr>)"

abbreviation handoff_reach :: "handoff \<Rightarrow> bool" where
  "handoff_reach \<equiv> handoff_step\<^sup>*\<^sup>* handoff_init"

section \<open>One message at a time\<close>

text \<open>
  One token travels round: receive semaphore, a producer, send semaphore, the consumer.
  Where it is decides whether the last message has been applied.
\<close>

definition all_waiting :: "handoff \<Rightarrow> bool" where
  "all_waiting s \<longleftrightarrow> (\<forall>p. producers s p = Waiting)"

definition only :: "handoff \<Rightarrow> nat \<Rightarrow> bool" where
  "only s p \<longleftrightarrow> (\<forall>q. q \<noteq> p \<longrightarrow> producers s q = Waiting)"

definition behind :: "handoff \<Rightarrow> bool" where
  "behind s \<longleftrightarrow> (\<exists>msg. h_msgs s = applied s @ [msg])"

definition handoff_inv :: "handoff \<Rightarrow> bool" where
  "handoff_inv s \<longleftrightarrow>
     (m_recvSem s = 1 \<and> m_sendSem s = 0 \<and> all_waiting s \<and> consumer s = Listening \<and> h_msgs s = applied s) \<or>
     (m_recvSem s = 0 \<and> m_sendSem s = 0 \<and> consumer s = Listening \<and>
       (\<exists>p msg. producers s p = Ready msg \<and> only s p) \<and> h_msgs s = applied s) \<or>
     (m_recvSem s = 0 \<and> m_sendSem s = 0 \<and> consumer s = Listening \<and>
       (\<exists>p. producers s p = Pushed \<and> only s p) \<and> behind s) \<or>
     (m_recvSem s = 0 \<and> m_sendSem s = 1 \<and> all_waiting s \<and> consumer s = Listening \<and> behind s) \<or>
     (m_recvSem s = 0 \<and> m_sendSem s = 0 \<and> all_waiting s \<and> consumer s = Woken \<and> behind s) \<or>
     (m_recvSem s = 0 \<and> m_sendSem s = 0 \<and> all_waiting s \<and> consumer s = Applied \<and> h_msgs s = applied s)"

lemmas handoff_defs = handoff_inv_def all_waiting_def only_def behind_def wait_def post_def

lemma handoff_inv_init: "handoff_inv handoff_init"
  by (simp add: handoff_inv_def handoff_init_def all_waiting_def)

lemma handoff_inv_step: "handoff_step s s' \<Longrightarrow> handoff_inv s \<Longrightarrow> handoff_inv s'"
proof (induction rule: handoff_step.induct)
  case (waitRecv s p n msg)
  then show ?case by (auto simp: handoff_defs split: if_splits)
next
  case (push s p msg)
  then have "only s p" "m_recvSem s = 0" "m_sendSem s = 0" "consumer s = Listening" "h_msgs s = applied s"
    by (auto simp: handoff_defs) (metis producer.distinct producer.inject)+
  then show ?case by (auto simp: handoff_defs)
next
  case (postSend s p)
  then have "only s p" "m_recvSem s = 0" "m_sendSem s = 0" "consumer s = Listening" "behind s"
    by (auto simp: handoff_defs) (metis producer.distinct)+
  then show ?case by (auto simp: handoff_defs)
next
  case (waitSend s n)
  then show ?case by (auto simp: handoff_defs split: if_splits)
next
  case (getBack s)
  then show ?case by (auto simp: handoff_defs)
next
  case (postRecv s)
  then show ?case by (auto simp: handoff_defs)
qed

lemma handoff_inv_reach: "handoff_reach s \<Longrightarrow> handoff_inv s"
  by (induction rule: rtranclp_induct) (auto intro: handoff_inv_init handoff_inv_step)

lemma handoff_progress: "handoff_inv s \<Longrightarrow> \<exists>s'. handoff_step s s'"
  unfolding handoff_inv_def all_waiting_def behind_def
  using waitRecv [of s 0 0] waitSend [of s 0] getBack [of s] postRecv [of s] push [of s] postSend [of s]
  by (elim disjE) (auto simp: wait_def; blast)+

text \<open>
  C17. The hand-over loses, repeats and reorders nothing: although the key/value layer always
  reads the last element of the shared vector, in every reachable state of any number of
  producers and the consumer, what it has applied is what was pushed, in order, up to at most
  one message it has still to read; it never reads the empty vector, and the system never
  gets stuck.
\<close>

theorem handoff_exactly_once:
  assumes "handoff_reach s"
  shows "(h_msgs s = applied s \<or> (\<exists>msg. h_msgs s = applied s @ [msg])) \<and>
    \<not> (consumer s = Woken \<and> h_msgs s = []) \<and> (\<exists>s'. handoff_step s s')"
proof -
  have inv: "handoff_inv s" by (rule handoff_inv_reach [OF assms])
  then have "\<exists>s'. handoff_step s s'" by (rule handoff_progress)
  with inv show ?thesis by (auto simp: handoff_inv_def behind_def)
qed

theorem handoff_exactly_once_witness:
  "\<exists>s. handoff_reach s \<and> h_msgs s = [cmd_msg 1 ''get k r 7 0''] \<and> applied s = [] \<and>
     (h_msgs s = applied s \<or> (\<exists>msg. h_msgs s = applied s @ [msg]))"
proof -
  let ?m = "cmd_msg 1 ''get k r 7 0''"
  let ?s1 = "handoff_init\<lparr>m_recvSem := 0, producers := (producers handoff_init)(0 := Ready ?m)\<rparr>"
  let ?s2 = "?s1\<lparr>h_msgs := h_msgs ?s1 @ [?m], producers := (producers ?s1)(0 := Pushed)\<rparr>"
  have "handoff_step handoff_init ?s1"
    by (rule waitRecv) (simp_all add: handoff_init_def wait_def)
  moreover have "handoff_step ?s1 ?s2" by (rule push) simp
  ultimately have r: "handoff_reach ?s2" by (meson rtranclp.rtrancl_into_rtrancl rtranclp.rtrancl_refl)
  from handoff_exactly_once [OF r] r show ?thesis by (intro exI [of _ ?s2]) (simp add: handoff_init_def)
qed

section \<open>Ports\<close>

text \<open>All ports of a cluster: two per Raft peer and those of its key/value server.\<close>

definition all_ports :: "kvServerInfo list \<Rightarrow> int list" where
  "all_ports infos = concat (map (\<lambda>i. fst (m_port (peersInfo i)) # snd (m_port (peersInfo i)) # m_kvPort i) infos)"

lemma all_ports_grid:
  "all_ports (getKvServerPort n) =
     map (\<lambda>(i, j). COMMOM_PORT + int (i + j * n)) (List.product [0..<n] [0..<5])"
proof -
  have "[0..<5] = [0, 1, 2, 3, 4::nat]" "[0..<EVERY_SERVER_PORT] = [0, 1, 2::nat]"
    by (simp_all add: EVERY_SERVER_PORT_def upt_rec)
  then show ?thesis
    by (simp add: all_ports_def getKvServerPort_def product_concat_map map_concat comp_def algebra_simps)
qed

lemma grid_inj:
  assumes "i < n" "i' < n" "i + j * n = i' + j' * (n :: nat)"
  shows "i = i' \<and> j = j'"
proof -
  from assms(1,2) have "(i + j * n) mod n = i" "(i' + j' * n) mod n = i'" by simp_all
  with assms have "i = i'" by metis
  with assms show ?thesis by auto
qed

text \<open>
  C39. The port numbers fit: no two listeners of a cluster (two per Raft peer, three per
  key/value server) share a port, and the ports on which a client calls the servers are the
  ones on which they listen.
\<close>

theorem ports_fit:
  "distinct (all_ports (getKvServerPort n)) \<and> getServerPort n = map m_kvPort (getKvServerPort n)"
proof
  have "inj_on (\<lambda>(i, j). COMMOM_PORT + int (i + j * n)) (set (List.product [0..<n] [0..<5]))"
  proof (rule inj_onI, clarify)
    fix i j i' j'
    assume "(i, j) \<in> set (List.product [0..<n] [0..<5])" "(i', j') \<in> set (List.product [0..<n] [0..<5])"
      "COMMOM_PORT + int (i + j * n) = COMMOM_PORT + int (i' + j' * n)"
    then have "i < n" "i' < n" "i + j * n = i' + j' * n" by (simp_all only: set_product) (auto simp flip: of_nat_add of_nat_mult)
    from grid_inj [OF this] show "i = i' \<and> j = j'" .
  qed
  then show "distinct (all_ports (getKvServerPort n))"
    unfolding all_ports_grid distinct_map by (simp add: distinct_product)
  show "getServerPort n = map m_kvPort (getKvServerPort n)"
    by (simp add: getServerPort_def getKvServerPort_def EVERY_SERVER_PORT_def)
qed

end
