(* ===== verification/Pool_Size.thy ===== *)
theory Pool_Size
  imports Prelude
begin

text \<open>
  The size classes of the memory pool, class \<^verbatim>\<open>SizeClass\<close> of
  \<^verbatim>\<open>ConcurrentMemoryPool/Common.h\<close>: which free list serves a size, to which size it is
  rounded, how many objects and pages move at once. A \<^verbatim>\<open>size_t\<close> is a natural number below
  \<open>2 ^ 64\<close>; the sizes here are small and only the subtraction can wrap, which \<open>size_sub\<close>
  writes out.
\<close>

section \<open>Model\<close>

definition MAX_BYTES :: nat where
  "MAX_BYTES = 64 * 1024"

definition NLISTS :: nat where
  "NLISTS = 184"

definition PAGE_SHIFT :: nat where
  "PAGE_SHIFT = 12"

definition NPAGES :: nat where
  "NPAGES = 129"

definition size_sub :: "nat \<Rightarrow> nat \<Rightarrow> nat" where
  "size_sub a b = (a + 2 ^ 64 - b) mod 2 ^ 64"

text \<open>The private helpers \<^verbatim>\<open>_Index\<close> and \<^verbatim>\<open>_Roundup\<close>; the mask clears the low bits.\<close>

definition index_in :: "nat \<Rightarrow> nat \<Rightarrow> nat" where
  "index_in sz align =
     (let alignnum = push_bit align 1 in size_sub (drop_bit align (size_sub (sz + alignnum) 1)) 1)"

definition roundup_to :: "nat \<Rightarrow> nat \<Rightarrow> nat" where
  "roundup_to sz align =
     (let alignnum = push_bit align 1; x = size_sub (sz + alignnum) 1
      in x - take_bit align x)"

definition Index :: "nat \<Rightarrow> nat res" where
  "Index sz =
     (if \<not> sz \<le> MAX_BYTES then Inl AssertFail
      else if sz \<le> 128 then Inr (index_in sz 3)
      else if sz \<le> 1024 then Inr (index_in (sz - 128) 4 + 16)
      else if sz \<le> 8192 then Inr (index_in (sz - 1024) 7 + 16 + 56)
      else Inr (index_in (sz - 8 * 1024) 10 + 16 + 56 + 56))"

definition Roundup :: "nat \<Rightarrow> nat res" where
  "Roundup bytes =
     (if \<not> bytes \<le> MAX_BYTES then Inl AssertFail
      else if bytes \<le> 128 then Inr (roundup_to bytes 3)
      else if bytes \<le> 1024 then Inr (roundup_to bytes 4)
      else if bytes \<le> 8192 then Inr (roundup_to bytes 7)
      else Inr (roundup_to bytes 10))"

definition NumMoveSize :: "nat \<Rightarrow> nat" where
  "NumMoveSize sz = (if sz = 0 then 0 else min 512 (max 2 (MAX_BYTES div sz)))"

definition NumMovePage :: "nat \<Rightarrow> nat" where
  "NumMovePage sz =
     (let npage = drop_bit PAGE_SHIFT (NumMoveSize sz * sz) in if npage = 0 then 1 else npage)"

section \<open>Size classes\<close>

lemma size_sub_small: "b \<le> a \<Longrightarrow> a < 2 ^ 64 \<Longrightarrow> size_sub a b = a - b"
proof -
  assume a: "b \<le> a" "a < 2 ^ 64"
  have "size_sub a b = ((a - b) + 2 ^ 64) mod 2 ^ 64"
    unfolding size_sub_def using a(1) by (simp only: Nat.add_diff_assoc2)
  also have "\<dots> = (a - b) mod 2 ^ 64" by (rule mod_add_self2)
  also have "\<dots> = a - b" using a(2) by (intro mod_less) linarith
  finally show ?thesis .
qed

lemma div_offset: "r < a \<Longrightarrow> (k * a + r) div a = (k::nat)"
  by simp

lemma div_next: "0 < a \<Longrightarrow> (x + a) div a = Suc (x div (a::nat))"
  using div_add_self2 [of a x] by simp

lemma align_pow: "align \<le> 12 \<Longrightarrow> (2::nat) ^ align \<le> 4096"
  using power_increasing [of align 12 "2::nat"] by simp

lemma index_in_eq:
  assumes "1 \<le> sz" "sz \<le> 2 ^ 40" "align \<le> 12"
  shows "index_in sz align = (sz - 1) div 2 ^ align"
proof -
  have "size_sub (sz + 2 ^ align) 1 = (sz - 1) + 2 ^ align"
    using assms align_pow [of align] by (subst size_sub_small) auto
  moreover have "((sz - 1) + 2 ^ align) div 2 ^ align = Suc ((sz - 1) div 2 ^ align)"
    by (rule div_next) simp
  moreover have "size_sub (Suc ((sz - 1) div 2 ^ align)) 1 = (sz - 1) div 2 ^ align"
    using le_less_trans [OF div_le_dividend [of "sz - 1" "2 ^ align"], of "2 ^ 64 - 1"] assms(2)
    by (subst size_sub_small) auto
  ultimately show ?thesis
    by (simp add: index_in_def Let_def push_bit_eq_mult drop_bit_eq_div)
qed

lemma roundup_to_eq:
  assumes "1 \<le> sz" "sz \<le> 2 ^ 40" "align \<le> 12"
  shows "roundup_to sz align = ((sz - 1) div 2 ^ align + 1) * 2 ^ align"
proof -
  have "size_sub (sz + 2 ^ align) 1 = (sz - 1) + 2 ^ align"
    using assms align_pow [of align] by (subst size_sub_small) auto
  moreover have "x - x mod 2 ^ align = (x div 2 ^ align) * 2 ^ align" for x :: nat
    by (simp add: minus_mod_eq_div_mult)
  moreover have "((sz - 1) + 2 ^ align) div 2 ^ align = Suc ((sz - 1) div 2 ^ align)"
    by (rule div_next) simp
  ultimately show ?thesis by (simp add: roundup_to_def Let_def push_bit_eq_mult take_bit_eq_mod)
qed

text \<open>A size above a multiple \<open>lo\<close> of the alignment: its position and its rounding.\<close>

lemma size_step:
  assumes "lo < sz" "sz \<le> 2 ^ 20" "al \<le> 12" "a = 2 ^ al" "lo = m * a" "q = index_in (sz - lo) al"
  shows "roundup_to sz al = lo + (q + 1) * a" "index_in ((q + 1) * a) al = q"
    "roundup_to (lo + (q + 1) * a) al = lo + (q + 1) * a" "sz \<le> lo + (q + 1) * a" "lo + q * a < sz"
proof -
  have a: "0 < a" "a \<le> 4096" using align_pow [OF assms(3)] assms(4) by simp_all
  have q: "q = (sz - lo - 1) div a" using index_in_eq [of "sz - lo" al] assms by simp
  obtain r where r: "sz - lo - 1 = q * a + r" "r < a"
    using div_mult_mod_eq [of "sz - lo - 1" a] mod_less_divisor [OF a(1)] unfolding q by metis
  have sz: "sz - 1 = (m + q) * a + r" and bounds: "sz \<le> lo + (q + 1) * a" "lo + q * a < sz"
    using r assms(1,5) by (auto simp: algebra_simps)
  have d: "(sz - 1) div a = m + q" unfolding sz using r(2) by (rule div_offset)
  have "(q + 1) * a - 1 = q * a + (a - 1)" "lo + (q + 1) * a - 1 = (m + q) * a + (a - 1)"
    using a assms(5) by (auto simp: algebra_simps)
  with a(1) div_offset [of "a - 1" a]
  have last: "((q + 1) * a - 1) div a = q" "(lo + (q + 1) * a - 1) div a = m + q" by simp_all
  have big: "(q + 1) * a \<le> 2 ^ 40" "lo + (q + 1) * a \<le> 2 ^ 40" "1 \<le> (q + 1) * a"
    using bounds(2) assms(2) a by auto
  show "roundup_to sz al = lo + (q + 1) * a"
    using roundup_to_eq [of sz al] assms d by (simp add: algebra_simps)
  show "index_in ((q + 1) * a) al = q"
    using index_in_eq [OF big(3,1) assms(3)] last(1) assms(4) by simp
  have "1 \<le> lo + (q + 1) * a" using big(3) by simp
  from roundup_to_eq [OF this big(2) assms(3)] show "roundup_to (lo + (q + 1) * a) al = lo + (q + 1) * a"
    using last(2) assms(4,5) by (simp add: algebra_simps)
  show "sz \<le> lo + (q + 1) * a" "lo + q * a < sz" by (fact bounds)+
qed

lemma range_ok:
  assumes "lo < sz" "sz \<le> hi" "hi = lo + cnt * a" "hi \<le> 2 ^ 20" "al \<le> 12" "a = 2 ^ al" "lo = m * a"
    and I: "\<And>x. lo < x \<Longrightarrow> x \<le> hi \<Longrightarrow> Index x = Inr (index_in (x - lo) al + base)"
    and R: "\<And>x. lo < x \<Longrightarrow> x \<le> hi \<Longrightarrow> Roundup x = Inr (roundup_to x al)"
  shows "\<exists>i r. Index sz = Inr i \<and> i < base + cnt \<and> Roundup sz = Inr r \<and> sz \<le> r \<and> r \<le> hi \<and>
    lo + a \<le> r \<and> r < sz + a \<and> Index r = Inr i \<and> Roundup r = Inr r"
proof -
  have sz: "sz \<le> 2 ^ 20" using assms(2,4) by linarith
  obtain q where q: "q = index_in (sz - lo) al" by simp
  note st = size_step [OF assms(1) sz assms(5-7) q]
  have "q * a < cnt * a" using st(5) assms(2,3) by linarith
  then have qc: "q < cnt" by simp
  then have "(q + 1) * a \<le> cnt * a" by (intro mult_right_mono) simp_all
  then have r: "lo + (q + 1) * a \<le> hi" using assms(3) by simp
  have lo: "lo < lo + (q + 1) * a" "lo + a \<le> lo + (q + 1) * a" using assms(6) by simp_all
  have "lo + (q + 1) * a < sz + a" using st(5) by simp
  moreover have "Index (lo + (q + 1) * a) = Inr (q + base)" using I [OF lo(1) r] st(2) by simp
  ultimately show ?thesis
    using I [OF assms(1,2)] R [OF assms(1,2)] R [OF lo(1) r] st(1,3,4) q qc r lo(2)
    by (intro exI [of _ "q + base"] exI [of _ "lo + (q + 1) * a"]) simp
qed

lemmas class_defs = Index_def Roundup_def MAX_BYTES_def NLISTS_def

lemma class_range:
  "sz \<le> 128 \<Longrightarrow> 0 < sz \<Longrightarrow> \<exists>i r. Index sz = Inr i \<and> i < 0 + 16 \<and> Roundup sz = Inr r \<and> sz \<le> r \<and> r \<le> 128 \<and>
    0 + 8 \<le> r \<and> r < sz + 8 \<and> Index r = Inr i \<and> Roundup r = Inr r"
  "128 < sz \<Longrightarrow> sz \<le> 1024 \<Longrightarrow> \<exists>i r. Index sz = Inr i \<and> i < 16 + 56 \<and> Roundup sz = Inr r \<and> sz \<le> r \<and> r \<le> 1024 \<and>
    128 + 16 \<le> r \<and> r < sz + 16 \<and> Index r = Inr i \<and> Roundup r = Inr r"
  "1024 < sz \<Longrightarrow> sz \<le> 8192 \<Longrightarrow> \<exists>i r. Index sz = Inr i \<and> i < 72 + 56 \<and> Roundup sz = Inr r \<and> sz \<le> r \<and> r \<le> 8192 \<and>
    1024 + 128 \<le> r \<and> r < sz + 128 \<and> Index r = Inr i \<and> Roundup r = Inr r"
  "8192 < sz \<Longrightarrow> sz \<le> 65536 \<Longrightarrow> \<exists>i r. Index sz = Inr i \<and> i < 128 + 56 \<and> Roundup sz = Inr r \<and> sz \<le> r \<and> r \<le> 65536 \<and>
    8192 + 1024 \<le> r \<and> r < sz + 1024 \<and> Index r = Inr i \<and> Roundup r = Inr r"
  subgoal by (rule range_ok [where m = 0 and al = 3]) (simp_all add: class_defs)
  subgoal by (rule range_ok [where m = 8 and al = 4]) (simp_all add: class_defs)
  subgoal by (rule range_ok [where m = 8 and al = 7]) (simp_all add: class_defs)
  subgoal by (rule range_ok [where m = 8 and al = 10]) (simp_all add: class_defs)
  done



text \<open>
  A request of zero bytes has no free list: the index computation wraps round to the
  largest \<^verbatim>\<open>size_t\<close> instead of a list number.
\<close>

lemma index_zero_wraps: "Index 0 = Inr (2 ^ 64 - 1)"
proof -
  have "size_sub 8 1 = 7" by (simp add: size_sub_small)
  moreover have "size_sub 0 1 = 2 ^ 64 - 1" by (simp add: size_sub_def)
  ultimately show ?thesis
    by (simp add: Index_def index_in_def Let_def push_bit_eq_mult drop_bit_eq_div del: One_nat_def)
qed

lemma NumMoveSize_bounds: "1 \<le> sz \<Longrightarrow> 2 \<le> NumMoveSize sz \<and> NumMoveSize sz \<le> 512"
  by (auto simp: NumMoveSize_def)

lemma NumMove_bytes: "1 \<le> sz \<Longrightarrow> sz \<le> MAX_BYTES \<Longrightarrow> NumMoveSize sz * sz \<le> 2 * MAX_BYTES"
proof -
  assume a: "1 \<le> sz" "sz \<le> MAX_BYTES"
  have "MAX_BYTES div sz * sz \<le> MAX_BYTES" by simp
  moreover have "NumMoveSize sz \<le> max 2 (MAX_BYTES div sz)" using a by (simp add: NumMoveSize_def)
  then have "NumMoveSize sz * sz \<le> max 2 (MAX_BYTES div sz) * sz" by (rule mult_right_mono) simp
  moreover have "max 2 (MAX_BYTES div sz) * sz \<le> max (2 * sz) (MAX_BYTES div sz * sz)" by (simp add: max_def)
  ultimately show ?thesis using a(2) by linarith
qed

text \<open>
  C36. The number of pages requested for a size class can always be served: it is between 1 and
  32 and so passes the assertion of the page cache, and the pages hold at least one object.
\<close>

theorem move_pages_fit:
  assumes "1 \<le> sz" "sz \<le> MAX_BYTES"
  shows "1 \<le> NumMovePage sz \<and> NumMovePage sz \<le> 32 \<and> NumMovePage sz < NPAGES \<and>
    sz \<le> NumMovePage sz * 2 ^ PAGE_SHIFT"
proof -
  define b where "b = NumMoveSize sz * sz"
  have b: "b \<le> 131072" "2 * sz \<le> b"
    using NumMove_bytes [OF assms] NumMoveSize_bounds [OF assms(1)] by (auto simp: b_def MAX_BYTES_def)
  have p: "NumMovePage sz = (if b div 4096 = 0 then 1 else b div 4096)"
    by (simp add: NumMovePage_def b_def PAGE_SHIFT_def drop_bit_eq_div Let_def)
  have "b div 4096 \<le> 131072 div 4096" using b(1) by (rule div_le_mono)
  moreover have "sz \<le> b div 4096 * 4096" if "b div 4096 \<noteq> 0"
    using that b(2) div_mult_mod_eq [of b 4096] mod_less_divisor [of 4096 b] by linarith
  moreover have "sz \<le> 4096" if "b div 4096 = 0" using that b(2) by (simp add: div_eq_0_iff)
  ultimately show ?thesis using p by (auto simp: NPAGES_def PAGE_SHIFT_def)
qed

theorem move_pages_fit_witness: "1 \<le> NumMovePage 144 \<and> 144 \<le> NumMovePage 144 * 2 ^ PAGE_SHIFT"
  using move_pages_fit [of 144] by (simp add: MAX_BYTES_def)

end
