(* ===== verification/Pool_Span.thy ===== *)
theory Pool_Span
  imports Pool_Size
begin

text \<open>
  Spans and lists of spans, \<^verbatim>\<open>struct Span\<close> and \<^verbatim>\<open>class SpanList\<close> of
  \<^verbatim>\<open>ConcurrentMemoryPool/Common.h\<close>. Spans are objects with addresses, linked by their
  \<^verbatim>\<open>_prev\<close> and \<^verbatim>\<open>_next\<close> pointers into rings with a head node; all lists live in one store,
  because erasing a span writes to its neighbours wherever they are. A null pointer is 0, and
  touching an address that holds no span is the fault \<open>BadAccess\<close>. The theory shows that
  the pointer operations implement operations on lists of addresses.
\<close>

section \<open>Model\<close>

record Span =
  pageid :: nat
  npage :: nat
  sprev :: nat
  snext :: nat
  slist :: nat
  objsize :: nat
  usecount :: nat

text \<open>
  The state of the pool: the spans, the address the next \<^verbatim>\<open>new Span\<close> returns, the heads of
  the lists of the page cache and of the central cache, the map from pages to spans, the word
  at each address (the links of the free objects), the addresses \<^verbatim>\<open>VirtualAlloc\<close> is going to
  return (0 when it fails) and those given to \<^verbatim>\<open>VirtualFree\<close>.
\<close>

record Pool =
  spans :: "nat \<rightharpoonup> Span"
  next_addr :: nat
  page_heads :: "nat list"
  central_heads :: "nat list"
  idspanmap :: "nat \<rightharpoonup> nat"
  mem :: "nat \<Rightarrow> nat"
  os :: "nat list"
  freed :: "nat list"

definition rd :: "nat \<Rightarrow> Pool \<Rightarrow> Span res" where
  "rd p s = (case spans s p of None \<Rightarrow> Inl BadAccess | Some x \<Rightarrow> Inr x)"

definition wr :: "nat \<Rightarrow> (Span \<Rightarrow> Span) \<Rightarrow> Pool \<Rightarrow> Pool res" where
  "wr p f s = rbind (rd p s) (\<lambda>x. Inr (s\<lparr>spans := (spans s)(p \<mapsto> f x)\<rparr>))"

definition new_Span :: "Pool \<Rightarrow> nat \<times> Pool" where
  "new_Span s = (next_addr s,
     s\<lparr>spans := (spans s)(next_addr s \<mapsto>
         \<lparr>pageid = 0, npage = 0, sprev = 0, snext = 0, slist = 0, objsize = 0, usecount = 0\<rparr>),
       next_addr := next_addr s + 1\<rparr>)"

definition delete_Span :: "nat \<Rightarrow> Pool \<Rightarrow> Pool" where
  "delete_Span p s = s\<lparr>spans := (spans s)(p := None)\<rparr>"

definition new_SpanList :: "Pool \<Rightarrow> (nat \<times> Pool) res" where
  "new_SpanList s =
     (let (h, s1) = new_Span s
      in rbind (wr h (\<lambda>x. x\<lparr>snext := h\<rparr>) s1) (\<lambda>s2.
         rbind (wr h (\<lambda>x. x\<lparr>sprev := h\<rparr>) s2) (\<lambda>s3. Inr (h, s3))))"

definition Begin :: "nat \<Rightarrow> Pool \<Rightarrow> nat res" where
  "Begin h s = rbind (rd h s) (\<lambda>x. Inr (snext x))"

definition End :: "nat \<Rightarrow> nat" where
  "End h = h"

definition Empty :: "nat \<Rightarrow> Pool \<Rightarrow> bool res" where
  "Empty h s = rbind (rd h s) (\<lambda>x. Inr (snext x = h))"

definition Insert :: "nat \<Rightarrow> nat \<Rightarrow> Pool \<Rightarrow> Pool res" where
  "Insert cur newspan s =
     rbind (rd cur s) (\<lambda>x. let prev = sprev x in
     rbind (wr prev (\<lambda>x. x\<lparr>snext := newspan\<rparr>) s) (\<lambda>s1.
     rbind (wr newspan (\<lambda>x. x\<lparr>snext := cur\<rparr>) s1) (\<lambda>s2.
     rbind (wr newspan (\<lambda>x. x\<lparr>sprev := prev\<rparr>) s2) (\<lambda>s3.
       wr cur (\<lambda>x. x\<lparr>sprev := newspan\<rparr>) s3))))"

definition Erase :: "nat \<Rightarrow> Pool \<Rightarrow> Pool res" where
  "Erase cur s =
     rbind (rd cur s) (\<lambda>x. let prev = sprev x; nxt = snext x in
     rbind (wr prev (\<lambda>x. x\<lparr>snext := nxt\<rparr>) s) (\<lambda>s1.
       wr nxt (\<lambda>x. x\<lparr>sprev := prev\<rparr>) s1))"

definition PushBack :: "nat \<Rightarrow> nat \<Rightarrow> Pool \<Rightarrow> Pool res" where
  "PushBack h newspan s = Insert (End h) newspan s"

definition PushFront :: "nat \<Rightarrow> nat \<Rightarrow> Pool \<Rightarrow> Pool res" where
  "PushFront h newspan s = rbind (Begin h s) (\<lambda>b. Insert b newspan s)"

definition PopBack :: "nat \<Rightarrow> Pool \<Rightarrow> (nat \<times> Pool) res" where
  "PopBack h s = rbind (rd h s) (\<lambda>x. rbind (Erase (sprev x) s) (\<lambda>s1. Inr (sprev x, s1)))"

definition PopFront :: "nat \<Rightarrow> Pool \<Rightarrow> (nat \<times> Pool) res" where
  "PopFront h s = rbind (rd h s) (\<lambda>x. rbind (Erase (snext x) s) (\<lambda>s1. Inr (snext x, s1)))"

section \<open>Rings\<close>

definition nx :: "Pool \<Rightarrow> nat \<rightharpoonup> nat" where
  "nx s p = map_option snext (spans s p)"

definition pv :: "Pool \<Rightarrow> nat \<rightharpoonup> nat" where
  "pv s p = map_option sprev (spans s p)"

text \<open>What a span holds besides its links.\<close>

definition payload :: "Pool \<Rightarrow> nat \<Rightarrow> (nat \<times> nat \<times> nat \<times> nat \<times> nat) option" where
  "payload s p = map_option (\<lambda>x. (pageid x, npage x, slist x, objsize x, usecount x)) (spans s p)"

text \<open>From \<open>a\<close> over \<open>xs\<close> to \<open>b\<close>, in both directions.\<close>

fun linked :: "Pool \<Rightarrow> nat \<Rightarrow> nat list \<Rightarrow> nat \<Rightarrow> bool" where
  "linked s a [] b \<longleftrightarrow> nx s a = Some b \<and> pv s b = Some a"
| "linked s a (x # xs) b \<longleftrightarrow> nx s a = Some x \<and> pv s x = Some a \<and> linked s x xs b"

definition dll :: "Pool \<Rightarrow> nat \<Rightarrow> nat list \<Rightarrow> bool" where
  "dll s h xs \<longleftrightarrow> distinct (h # xs) \<and> linked s h xs h"

text \<open>A step that only relinks: all else in the pool stays.\<close>

definition relinked :: "Pool \<Rightarrow> Pool \<Rightarrow> bool" where
  "relinked s s' \<longleftrightarrow> payload s' = payload s \<and> (\<exists>m. s' = s\<lparr>spans := m\<rparr>)"

lemma linked_append: "linked s a (xs @ y # ys) b \<longleftrightarrow> linked s a xs y \<and> linked s y ys b"
  by (induction xs arbitrary: a) auto

lemma linked_frame:
  "linked s a xs b \<Longrightarrow> \<forall>p \<in> insert a (set xs). nx s' p = nx s p \<Longrightarrow> \<forall>p \<in> insert b (set xs). pv s' p = pv s p \<Longrightarrow>
     linked s' a xs b"
  by (induction xs arbitrary: a) auto

lemma dll_frame:
  "dll s h xs \<Longrightarrow> \<forall>p \<in> insert h (set xs). nx s' p = nx s p \<and> pv s' p = pv s p \<Longrightarrow> dll s' h xs"
  unfolding dll_def by (auto intro: linked_frame)

lemma rd_ok: "nx s p = Some q \<Longrightarrow> \<exists>x. spans s p = Some x \<and> rd p s = Inr x \<and> snext x = q"
  by (auto simp: nx_def rd_def)

lemma wr_ok: "spans s p = Some x \<Longrightarrow> wr p f s = Inr (s\<lparr>spans := (spans s)(p \<mapsto> f x)\<rparr>)"
  by (simp add: wr_def rd_def)

lemma relinked_refl [simp]: "relinked s s"
  unfolding relinked_def by (metis Pool.surjective Pool.update_convs(1))

lemma relinked_trans: "relinked s t \<Longrightarrow> relinked t u \<Longrightarrow> relinked s u"
  by (auto simp: relinked_def)

lemma Insert_ok:
  assumes "pv s cur = Some p" "spans s p \<noteq> None" "spans s n \<noteq> None" "n \<noteq> p" "n \<noteq> cur"
  shows "\<exists>s'. Insert cur n s = Inr s' \<and> relinked s s' \<and>
    nx s' = (nx s)(p \<mapsto> n, n \<mapsto> cur) \<and> pv s' = (pv s)(n \<mapsto> p, cur \<mapsto> n)"
proof -
  from assms obtain c xp xn where c: "spans s cur = Some c" "sprev c = p"
    and xp: "spans s p = Some xp" and xn: "spans s n = Some xn" by (auto simp: pv_def)
  show ?thesis
  proof (cases "p = cur")
    case True
    with c xp xn assms(4,5) show ?thesis
      by (auto simp: Insert_def rd_def wr_def Let_def relinked_def payload_def nx_def pv_def fun_eq_iff)
  next
    case False
    with c xp xn assms(4,5) show ?thesis
      by (auto simp: Insert_def rd_def wr_def Let_def relinked_def payload_def nx_def pv_def fun_eq_iff)
  qed
qed

lemma Erase_ok:
  assumes "pv s x = Some p" "nx s x = Some q" "spans s p \<noteq> None" "spans s q \<noteq> None"
  shows "\<exists>s'. Erase x s = Inr s' \<and> relinked s s' \<and> nx s' = (nx s)(p \<mapsto> q) \<and> pv s' = (pv s)(q \<mapsto> p)"
proof -
  from assms obtain c xp xq where c: "spans s x = Some c" "sprev c = p" "snext c = q"
    and xp: "spans s p = Some xp" and xq: "spans s q = Some xq" by (auto simp: pv_def nx_def)
  then show ?thesis
    by (cases "p = q")
      (auto simp: Erase_def rd_def wr_def Let_def relinked_def payload_def nx_def pv_def fun_eq_iff)
qed

lemma linked_ends: "linked s a xs b \<Longrightarrow> pv s b = Some (last (a # xs)) \<and> nx s a = Some (hd (xs @ [b]))"
  by (induction xs arbitrary: a) auto

lemma linked_nodes: "linked s a xs b \<Longrightarrow> p \<in> set (a # xs @ [b]) \<Longrightarrow> spans s p \<noteq> None"
proof (induction xs arbitrary: a)
  case (Cons x xs)
  then show ?case by (auto simp: nx_def pv_def)
qed (auto simp: nx_def pv_def)

lemma linked_retarget:
  "linked s a xs c \<Longrightarrow> distinct (a # xs) \<Longrightarrow> \<forall>p \<in> set (butlast (a # xs)). nx s' p = nx s p \<Longrightarrow>
     nx s' (last (a # xs)) = Some d \<Longrightarrow> \<forall>x \<in> set xs. pv s' x = pv s x \<Longrightarrow> pv s' d = Some (last (a # xs)) \<Longrightarrow>
     linked s' a xs d"
proof (induction xs arbitrary: a)
  case (Cons x xs)
  then have "linked s' x xs d" by auto
  with Cons.prems show ?case by auto
qed simp

lemma butlast_not_last: "distinct xs \<Longrightarrow> p \<in> set (butlast xs) \<Longrightarrow> p \<noteq> last xs"
  by (cases xs rule: rev_cases) auto

text \<open>Where the frame of a change ends: links of other nodes stay.\<close>

definition links_outside :: "nat set \<Rightarrow> Pool \<Rightarrow> Pool \<Rightarrow> bool" where
  "links_outside A s s' \<longleftrightarrow> (\<forall>p. p \<notin> A \<longrightarrow> nx s' p = nx s p \<and> pv s' p = pv s p)"

lemma dll_outside: "dll s h xs \<Longrightarrow> links_outside A s s' \<Longrightarrow> A \<inter> insert h (set xs) = {} \<Longrightarrow> dll s' h xs"
  by (rule dll_frame) (auto simp: links_outside_def)

lemma dll_insert:
  assumes "dll s h (xs @ ys)" "n \<notin> set (h # xs @ ys)" "spans s n \<noteq> None"
  shows "\<exists>s'. Insert (hd (ys @ [h])) n s = Inr s' \<and> relinked s s' \<and> dll s' h (xs @ n # ys) \<and>
    links_outside (set (n # h # xs @ ys)) s s'"
proof -
  let ?c = "hd (ys @ [h])" and ?p = "last (h # xs)"
  have d: "distinct (h # xs @ ys)" and l: "linked s h xs ?c"
    and r: "ys \<noteq> [] \<Longrightarrow> linked s ?c (tl ys) h"
    using assms(1) by (cases ys; auto simp: dll_def linked_append)+
  have mem: "?p \<in> set (h # xs)" "?c \<in> set (h # ys)" by (auto simp: neq_Nil_conv) (cases ys; simp)
  from linked_nodes [OF l, of ?p] mem have "spans s ?p \<noteq> None" by auto
  with Insert_ok [of s ?c ?p n] linked_ends [OF l] assms(2,3) mem obtain s' where
    s': "Insert ?c n s = Inr s'" "relinked s s'"
    and nx': "nx s' = (nx s)(?p \<mapsto> n, n \<mapsto> ?c)" and pv': "pv s' = (pv s)(n \<mapsto> ?p, ?c \<mapsto> n)" by auto
  have cx: "?c \<notin> set xs" using d by (cases ys) auto
  have "linked s' h xs n"
  proof (rule linked_retarget [OF l])
    show "\<forall>p \<in> set (butlast (h # xs)). nx s' p = nx s p"
    proof
      fix p
      assume p: "p \<in> set (butlast (h # xs))"
      with d have "p \<noteq> ?p" by (intro butlast_not_last) auto
      moreover from in_set_butlastD [OF p] assms(2) have "p \<noteq> n" by auto
      ultimately show "nx s' p = nx s p" using nx' by simp
    qed
    show "\<forall>x \<in> set xs. pv s' x = pv s x" using cx assms(2) pv' by auto
  qed (use d nx' pv' assms(2) mem in auto)
  moreover have "linked s' n ys h"
  proof (cases ys)
    case Nil
    with nx' pv' assms(2) mem show ?thesis by auto
  next
    case (Cons y zs)
    have "linked s' y zs h"
    proof (rule linked_frame)
      show "linked s y zs h" using r Cons by simp
      show "\<forall>p \<in> insert y (set zs). nx s' p = nx s p" using nx' d Cons assms(2) mem(1) by auto
      show "\<forall>p \<in> insert h (set zs). pv s' p = pv s p" using pv' d Cons assms(2) by auto
    qed
    with Cons nx' pv' assms(2) mem d show ?thesis by auto
  qed
  moreover have "links_outside (set (n # h # xs @ ys)) s s'"
    using nx' pv' mem by (auto simp: links_outside_def)
  ultimately show ?thesis using s' d assms(2) by (auto simp: dll_def linked_append)
qed

lemma dll_erase:
  assumes "dll s h (xs @ x # ys)"
  shows "\<exists>s'. Erase x s = Inr s' \<and> relinked s s' \<and> dll s' h (xs @ ys) \<and>
    links_outside (set (h # xs @ ys)) s s' \<and> nx s' x = nx s x \<and> pv s' x = pv s x"
proof -
  let ?q = "hd (ys @ [h])" and ?p = "last (h # xs)"
  have d: "distinct (h # xs @ x # ys)" and l: "linked s h xs x" and r: "linked s x ys h"
    using assms by (auto simp: dll_def linked_append)
  have mem: "?p \<in> set (h # xs)" "?q \<in> set (h # ys)" by (auto simp: neq_Nil_conv) (cases ys; simp)
  from linked_nodes [OF l, of ?p] linked_nodes [OF r, of ?q] mem
  have "spans s ?p \<noteq> None" "spans s ?q \<noteq> None" by auto
  with Erase_ok [of s x ?p ?q] linked_ends [OF l] linked_ends [OF r] obtain s' where
    s': "Erase x s = Inr s'" "relinked s s'"
    and nx': "nx s' = (nx s)(?p \<mapsto> ?q)" and pv': "pv s' = (pv s)(?q \<mapsto> ?p)" by auto
  have qx: "?q \<notin> set xs" using d by (cases ys) auto
  have lq: "linked s' h xs ?q"
  proof (rule linked_retarget [OF l])
    show "\<forall>p \<in> set (butlast (h # xs)). nx s' p = nx s p"
    proof
      fix p
      assume "p \<in> set (butlast (h # xs))"
      with d have "p \<noteq> ?p" by (intro butlast_not_last) auto
      then show "nx s' p = nx s p" using nx' by simp
    qed
    show "\<forall>x \<in> set xs. pv s' x = pv s x" using qx pv' by auto
  qed (use d nx' pv' in auto)
  have "linked s' h (xs @ ys) h"
  proof (cases ys)
    case (Cons y zs)
    have "linked s' y zs h"
    proof (rule linked_frame)
      show "linked s y zs h" using r Cons by simp
      show "\<forall>p \<in> insert y (set zs). nx s' p = nx s p" using nx' d Cons mem(1) by auto
      show "\<forall>p \<in> insert h (set zs). pv s' p = pv s p" using pv' d Cons by auto
    qed
    with lq Cons show ?thesis by (simp add: linked_append)
  qed (use lq in simp)
  moreover have "links_outside (set (h # xs @ ys)) s s'" "nx s' x = nx s x" "pv s' x = pv s x"
    using nx' pv' mem d by (auto simp: links_outside_def)
  ultimately show ?thesis using s' d by (auto simp: dll_def)
qed

section \<open>The list operations\<close>

lemma spans_dom: "relinked s s' \<Longrightarrow> spans s' p = None \<longleftrightarrow> spans s p = None"
proof -
  assume "relinked s s'"
  then have "payload s' p = payload s p" by (simp add: relinked_def)
  then show ?thesis by (auto simp: payload_def)
qed

lemma PushFront_ok:
  assumes "dll s h xs" "n \<notin> set (h # xs)" "spans s n \<noteq> None"
  shows "\<exists>s'. PushFront h n s = Inr s' \<and> relinked s s' \<and> dll s' h (n # xs) \<and>
    links_outside (set (n # h # xs)) s s'"
proof -
  have "nx s h = Some (hd (xs @ [h]))" using assms(1) linked_ends by (simp add: dll_def)
  with rd_ok obtain x where "rd h s = Inr x" "snext x = hd (xs @ [h])" by blast
  with dll_insert [of s h "[]" xs n] assms show ?thesis by (simp add: PushFront_def Begin_def)
qed

lemma PushBack_ok:
  assumes "dll s h xs" "n \<notin> set (h # xs)" "spans s n \<noteq> None"
  shows "\<exists>s'. PushBack h n s = Inr s' \<and> relinked s s' \<and> dll s' h (xs @ [n]) \<and>
    links_outside (set (n # h # xs)) s s'"
  using dll_insert [of s h xs "[]" n] assms by (simp add: PushBack_def End_def)

lemma PopFront_ok:
  assumes "dll s h (x # xs)"
  shows "\<exists>s'. PopFront h s = Inr (x, s') \<and> relinked s s' \<and> dll s' h xs \<and> links_outside (set (h # xs)) s s'"
proof -
  have "nx s h = Some x" using assms by (simp add: dll_def)
  with rd_ok obtain y where "rd h s = Inr y" "snext y = x" by blast
  with dll_erase [of s h "[]" x xs] assms show ?thesis by (auto simp: PopFront_def)
qed

lemma PopBack_ok:
  assumes "dll s h (xs @ [x])"
  shows "\<exists>s'. PopBack h s = Inr (x, s') \<and> relinked s s' \<and> dll s' h xs \<and> links_outside (set (h # xs)) s s'"
proof -
  have "pv s h = Some x" using assms linked_ends [of s h "xs @ [x]" h] by (simp add: dll_def)
  then obtain y where "rd h s = Inr y" "sprev y = x" by (auto simp: pv_def rd_def)
  with dll_erase [of s h xs x "[]"] assms show ?thesis by (auto simp: PopBack_def)
qed

lemma Empty_ok: "dll s h xs \<Longrightarrow> Empty h s = Inr (xs = [])"
proof -
  assume d: "dll s h xs"
  then have "nx s h = Some (hd (xs @ [h]))" using linked_ends by (simp add: dll_def)
  with rd_ok obtain x where "rd h s = Inr x" "snext x = hd (xs @ [h])" by blast
  with d show ?thesis by (cases xs) (auto simp: Empty_def dll_def)
qed

text \<open>
  The calls on a list with a given head, and what they do to a list of addresses together
  with the set of all spans. A span may be inserted if it is not in the list, and erased if it
  is; popping needs a non-empty list.
\<close>

datatype span_call = CPushFront nat | CPushBack nat | CPopFront | CPopBack | CErase nat | CEmpty

fun span_step :: "nat \<Rightarrow> span_call \<Rightarrow> Pool \<Rightarrow> (nat option \<times> Pool) res" where
  "span_step h (CPushFront n) s = rbind (PushFront h n s) (\<lambda>s'. Inr (None, s'))"
| "span_step h (CPushBack n) s = rbind (PushBack h n s) (\<lambda>s'. Inr (None, s'))"
| "span_step h CPopFront s = rbind (PopFront h s) (\<lambda>(x, s'). Inr (Some x, s'))"
| "span_step h CPopBack s = rbind (PopBack h s) (\<lambda>(x, s'). Inr (Some x, s'))"
| "span_step h (CErase x) s = rbind (Erase x s) (\<lambda>s'. Inr (None, s'))"
| "span_step h CEmpty s = rbind (Empty h s) (\<lambda>b. Inr (if b then Some 1 else Some 0, s))"

fun span_spec :: "span_call \<Rightarrow> nat list \<Rightarrow> nat option \<times> nat list" where
  "span_spec (CPushFront n) xs = (None, n # xs)"
| "span_spec (CPushBack n) xs = (None, xs @ [n])"
| "span_spec CPopFront xs = (Some (hd xs), tl xs)"
| "span_spec CPopBack xs = (Some (last xs), butlast xs)"
| "span_spec (CErase x) xs = (None, remove1 x xs)"
| "span_spec CEmpty xs = (if xs = [] then Some 1 else Some 0, xs)"

fun span_call_ok :: "nat set \<Rightarrow> nat \<Rightarrow> span_call \<Rightarrow> nat list \<Rightarrow> bool" where
  "span_call_ok A h (CPushFront n) xs \<longleftrightarrow> n \<in> A \<and> n \<notin> set (h # xs)"
| "span_call_ok A h (CPushBack n) xs \<longleftrightarrow> n \<in> A \<and> n \<notin> set (h # xs)"
| "span_call_ok A h CPopFront xs \<longleftrightarrow> xs \<noteq> []"
| "span_call_ok A h CPopBack xs \<longleftrightarrow> xs \<noteq> []"
| "span_call_ok A h (CErase x) xs \<longleftrightarrow> x \<in> set xs"
| "span_call_ok A h CEmpty xs \<longleftrightarrow> True"

text \<open>The ring represents the list, and of the pool \<open>s0\<close> at the start only links have changed.\<close>

definition span_rel :: "Pool \<Rightarrow> nat \<Rightarrow> Pool \<Rightarrow> nat list \<Rightarrow> bool" where
  "span_rel s0 h s xs \<longleftrightarrow> dll s h xs \<and> relinked s0 s"

lemma span_step_simulates:
  assumes "span_rel s0 h s xs" "span_call_ok (dom (spans s0)) h c xs"
  shows "\<exists>s'. span_step h c s = Inr (fst (span_spec c xs), s') \<and> span_rel s0 h s' (snd (span_spec c xs))"
proof -
  have d: "dll s h xs" and r: "relinked s0 s" using assms(1) by (auto simp: span_rel_def)
  have new: "n \<in> dom (spans s0) \<Longrightarrow> spans s n \<noteq> None" for n using spans_dom [OF r, of n] by auto
  note rel = span_rel_def relinked_trans [OF r]
  show ?thesis
  proof (cases c)
    case (CPushFront n)
    with PushFront_ok [OF d, of n] assms(2) new [of n] show ?thesis by (auto simp: rel)
  next
    case (CPushBack n)
    with PushBack_ok [OF d, of n] assms(2) new [of n] show ?thesis by (auto simp: rel)
  next
    case CPopFront
    with PopFront_ok [of s h "hd xs" "tl xs"] d assms(2) show ?thesis by (auto simp: rel)
  next
    case CPopBack
    with PopBack_ok [of s h "butlast xs" "last xs"] d assms(2) show ?thesis by (auto simp: rel)
  next
    case (CErase x)
    with assms(2) obtain ys zs where "xs = ys @ x # zs" "x \<notin> set ys" by (auto dest: split_list_first)
    with dll_erase [of s h ys x zs] d CErase show ?thesis by (auto simp: rel remove1_append)
  next
    case CEmpty
    with Empty_ok [OF d] assms(1) show ?thesis by simp
  qed
qed

interpretation sl: simulation "span_step h" span_spec "span_rel s0 h" "span_call_ok (dom (spans s0)) h"
  for s0 h by unfold_locales (rule span_step_simulates)

text \<open>
  C13. The linked lists of spans are lists: any sequence of calls on a list, each within its
  condition, returns what the same calls on a plain list of addresses return, ends in a
  well-linked ring for the resulting list, and changes nothing in the pool but links.
\<close>

theorem span_list_refines:
  assumes "dll s h xs" "calls_ok span_spec (span_call_ok (dom (spans s)) h) cs xs"
  shows "\<exists>s'. run_calls (span_step h) cs s = Inr (fst (run_spec span_spec cs xs), s') \<and>
    dll s' h (snd (run_spec span_spec cs xs)) \<and> relinked s s'"
  using sl.run_simulates [of s h s xs cs] assms by (auto simp: span_rel_def)

definition empty_pool :: Pool where
  "empty_pool = \<lparr>spans = Map.empty, next_addr = 1, page_heads = [], central_heads = [], idspanmap = Map.empty,
     mem = (\<lambda>_. 0), os = [], freed = []\<rparr>"

theorem span_list_refines_witness:
  "\<exists>s h s'. new_SpanList empty_pool = Inr (h, s) \<and>
     run_calls (span_step h) [CPushFront 2, CPushBack 3, CPopBack, CErase 2, CEmpty]
       (snd (new_Span (snd (new_Span s)))) = Inr ([None, None, Some 3, None, Some 1], s') \<and> dll s' h []"
proof -
  let ?n = "\<lparr>pageid = 0, npage = 0, sprev = 0, snext = 0, slist = 0, objsize = 0, usecount = 0\<rparr>"
  let ?h = "?n\<lparr>snext := 1, sprev := 1\<rparr>"
  let ?s = "empty_pool\<lparr>spans := [1 \<mapsto> ?h], next_addr := 2\<rparr>"
  let ?t = "empty_pool\<lparr>spans := [1 \<mapsto> ?h, 2 \<mapsto> ?n, 3 \<mapsto> ?n], next_addr := 4\<rparr>"
  let ?cs = "[CPushFront 2, CPushBack 3, CPopBack, CErase 2, CEmpty]"
  have n: "new_SpanList empty_pool = Inr (1, ?s)" "snd (new_Span (snd (new_Span ?s))) = ?t"
    by (simp_all add: new_SpanList_def new_Span_def wr_def rd_def empty_pool_def)
  have "dll ?t 1 []" by (simp add: dll_def nx_def pv_def)
  moreover have "calls_ok span_spec (span_call_ok (dom (spans ?t)) 1) ?cs []" by simp
  ultimately obtain s' where "run_calls (span_step 1) ?cs ?t = Inr (fst (run_spec span_spec ?cs []), s')"
    "dll s' 1 (snd (run_spec span_spec ?cs []))"
    using span_list_refines [of ?t 1 "[]" ?cs] by blast
  with n show ?thesis by auto
qed

end
