(* ===== verification/Pool_Page.thy ===== *)
theory Pool_Page
  imports Pool_Span
begin

text \<open>
  The page cache of the memory pool, \<^verbatim>\<open>ConcurrentMemoryPool/PageCache.cpp\<close>: it hands out spans
  of whole pages, splits larger ones, asks the system for more, and merges neighbours when a
  span comes back. The recursion of \<^verbatim>\<open>_NewSpan\<close> and the merge loops get fuel; running out
  of it is the fault \<open>Throw\<close>, and the theorems show that the fuel given is enough.
\<close>

section \<open>Model\<close>

definition page_of :: "nat \<Rightarrow> nat" where
  "page_of ptr = drop_bit PAGE_SHIFT ptr"

definition addr_of :: "nat \<Rightarrow> nat" where
  "addr_of pid = push_bit PAGE_SHIFT pid"

definition map_pages :: "nat \<Rightarrow> nat \<Rightarrow> nat \<Rightarrow> Pool \<Rightarrow> Pool" where
  "map_pages base n span s =
     s\<lparr>idspanmap := foldl (\<lambda>m i. m(base + i \<mapsto> span)) (idspanmap s) [0..<n]\<rparr>"

definition VirtualAlloc :: "Pool \<Rightarrow> nat \<times> Pool" where
  "VirtualAlloc s = (case os s of [] \<Rightarrow> (0, s) | a # as \<Rightarrow> (a, s\<lparr>os := as\<rparr>))"

definition VirtualFree :: "nat \<Rightarrow> Pool \<Rightarrow> Pool" where
  "VirtualFree ptr s = s\<lparr>freed := freed s @ [ptr]\<rparr>"

text \<open>The loop of \<^verbatim>\<open>_NewSpan\<close> for the first list from \<open>i\<close> on that is not empty.\<close>

function scan_lists :: "nat \<Rightarrow> Pool \<Rightarrow> nat option res" where
  "scan_lists i s =
     (if i < NPAGES
      then rbind (at (page_heads s) i) (\<lambda>h. rbind (Empty h s) (\<lambda>e.
             if e then scan_lists (i + 1) s else Inr (Some i)))
      else Inr None)"
  by pat_completeness auto
termination
  by (relation "measure (\<lambda>(i, s). NPAGES - i)") auto

declare scan_lists.simps [simp del]

text \<open>Splitting \<open>n\<close> pages off the first span of list \<open>i\<close>.\<close>

definition split_span :: "nat \<Rightarrow> nat \<Rightarrow> Pool \<Rightarrow> (nat \<times> Pool) res" where
  "split_span n i s =
     rbind (at (page_heads s) i) (\<lambda>h. rbind (PopFront h s) (\<lambda>(span, s1).
       let (splist, s2) = new_Span s1
       in rbind (rd span s2) (\<lambda>x.
          rbind (wr splist (\<lambda>y. y\<lparr>pageid := pageid x\<rparr>) s2) (\<lambda>s3.
          rbind (wr splist (\<lambda>y. y\<lparr>npage := n\<rparr>) s3) (\<lambda>s4.
          rbind (wr span (\<lambda>y. y\<lparr>pageid := pageid y + n\<rparr>) s4) (\<lambda>s5.
          rbind (wr span (\<lambda>y. y\<lparr>npage := npage y - n\<rparr>) s5) (\<lambda>s6.
            let s7 = map_pages (pageid x) n splist s6
            in rbind (rd span s7) (\<lambda>y. rbind (at (page_heads s7) (npage y)) (\<lambda>hr.
               rbind (PushFront hr span s7) (\<lambda>s8. Inr (splist, s8)))))))))))"

text \<open>Asking the system for 128 pages; the answer is not checked here.\<close>

definition grow :: "Pool \<Rightarrow> Pool res" where
  "grow s =
     (let (span, s1) = new_Span s; (ptr, s2) = VirtualAlloc s1
      in rbind (wr span (\<lambda>y. y\<lparr>pageid := page_of ptr\<rparr>) s2) (\<lambda>s3.
         rbind (wr span (\<lambda>y. y\<lparr>npage := NPAGES - 1\<rparr>) s3) (\<lambda>s4.
           let s5 = map_pages (page_of ptr) (NPAGES - 1) span s4
           in rbind (at (page_heads s5) (NPAGES - 1)) (\<lambda>h. PushFront h span s5))))"

fun NewSpan_rec :: "nat \<Rightarrow> nat \<Rightarrow> Pool \<Rightarrow> (nat \<times> Pool) res" where
  "NewSpan_rec 0 n s = Inl (Throw ''fuel'')"
| "NewSpan_rec (Suc fuel) n s =
     (if \<not> n < NPAGES then Inl AssertFail
      else rbind (at (page_heads s) n) (\<lambda>h. rbind (Empty h s) (\<lambda>e.
        if \<not> e then PopFront h s
        else rbind (scan_lists (n + 1) s) (\<lambda>found.
          case found of
            Some i \<Rightarrow> split_span n i s
          | None \<Rightarrow> rbind (grow s) (\<lambda>s1. NewSpan_rec fuel n s1)))))"

definition NewSpan :: "nat \<Rightarrow> Pool \<Rightarrow> (nat \<times> Pool) res" where
  "NewSpan n s = NewSpan_rec 2 n s"

definition AllocBigPageObj :: "nat \<Rightarrow> Pool \<Rightarrow> (nat \<times> Pool) res" where
  "AllocBigPageObj sz s =
     (if \<not> sz > MAX_BYTES then Inl AssertFail
      else let sz = roundup_to sz PAGE_SHIFT; n = page_of sz
           in if n < NPAGES
              then rbind (NewSpan n s) (\<lambda>(span, s1).
                     rbind (wr span (\<lambda>y. y\<lparr>objsize := sz\<rparr>) s1) (\<lambda>s2. Inr (span, s2)))
              else let (ptr, s1) = VirtualAlloc s
                   in if ptr = 0 then Inl (Throw ''bad_alloc'')
                      else let (span, s2) = new_Span s1
                           in rbind (wr span (\<lambda>y. y\<lparr>npage := n, pageid := page_of ptr, objsize := addr_of n\<rparr>) s2)
                                (\<lambda>s3. Inr (span, s3\<lparr>idspanmap := (idspanmap s3)(page_of ptr \<mapsto> span)\<rparr>)))"

definition MapObjectToSpan :: "nat \<Rightarrow> Pool \<Rightarrow> nat res" where
  "MapObjectToSpan obj s =
     (case idspanmap s (page_of obj) of None \<Rightarrow> Inl AssertFail | Some span \<Rightarrow> Inr span)"

text \<open>The two merge loops of \<^verbatim>\<open>ReleaseSpanToPageCache\<close>.\<close>

fun merge_back :: "nat \<Rightarrow> nat \<Rightarrow> Pool \<Rightarrow> (nat \<times> Pool) res" where
  "merge_back 0 cur s = Inl (Throw ''fuel'')"
| "merge_back (Suc fuel) cur s =
     rbind (rd cur s) (\<lambda>c.
       case idspanmap s (size_sub (pageid c) 1) of
         None \<Rightarrow> Inr (cur, s)
       | Some prev \<Rightarrow> rbind (rd prev s) (\<lambda>p.
           if usecount p \<noteq> 0 then Inr (cur, s)
           else if npage c + npage p > NPAGES - 1 then Inr (cur, s)
           else rbind (at (page_heads s) (npage p)) (\<lambda>_. rbind (Erase prev s) (\<lambda>s1.
                rbind (wr prev (\<lambda>y. y\<lparr>npage := npage y + npage c\<rparr>) s1) (\<lambda>s2.
                  merge_back fuel prev (delete_Span cur (map_pages (pageid c) (npage c) prev s2)))))))"

fun merge_forward :: "nat \<Rightarrow> nat \<Rightarrow> Pool \<Rightarrow> Pool res" where
  "merge_forward 0 cur s = Inl (Throw ''fuel'')"
| "merge_forward (Suc fuel) cur s =
     rbind (rd cur s) (\<lambda>c.
       case idspanmap s (pageid c + npage c) of
         None \<Rightarrow> Inr s
       | Some nxt \<Rightarrow> rbind (rd nxt s) (\<lambda>q.
           if usecount q \<noteq> 0 then Inr s
           else if npage c + npage q \<ge> NPAGES - 1 then Inr s
           else rbind (at (page_heads s) (npage q)) (\<lambda>_. rbind (Erase nxt s) (\<lambda>s1.
                rbind (wr cur (\<lambda>y. y\<lparr>npage := npage y + npage q\<rparr>) s1) (\<lambda>s2.
                  merge_forward fuel cur (delete_Span nxt (map_pages (pageid q) (npage q) cur s2)))))))"

definition ReleaseSpanToPageCache :: "nat \<Rightarrow> Pool \<Rightarrow> Pool res" where
  "ReleaseSpanToPageCache cur s =
     rbind (rd cur s) (\<lambda>c.
       if npage c \<ge> NPAGES
       then Inr (delete_Span cur (VirtualFree (addr_of (pageid c))
              (s\<lparr>idspanmap := (idspanmap s)(pageid c := None)\<rparr>)))
       else rbind (merge_back NPAGES cur s) (\<lambda>(cur1, s1).
            rbind (merge_forward NPAGES cur1 s1) (\<lambda>s2.
            rbind (rd cur1 s2) (\<lambda>c1. rbind (at (page_heads s2) (npage c1)) (\<lambda>h. PushFront h cur1 s2)))))"

definition FreeBigPageObj :: "nat \<Rightarrow> nat \<Rightarrow> Pool \<Rightarrow> Pool res" where
  "FreeBigPageObj ptr span s =
     rbind (rd span s) (\<lambda>x.
       let n = page_of (objsize x)
       in if n < NPAGES
          then rbind (wr span (\<lambda>y. y\<lparr>objsize := 0\<rparr>) s) (\<lambda>s1. ReleaseSpanToPageCache span s1)
          else Inr (VirtualFree ptr (delete_Span span (s\<lparr>idspanmap := (idspanmap s)(n := None)\<rparr>))))"

section \<open>The invariant of the page lists\<close>

text \<open>Node set of list \<open>i\<close>, its head included.\<close>

definition nodes :: "Pool \<Rightarrow> (nat \<Rightarrow> nat list) \<Rightarrow> nat \<Rightarrow> nat set" where
  "nodes s L i = set (page_heads s ! i # L i)"

text \<open>A span of \<open>n\<close> free pages: all of them map to it.\<close>

definition free_span :: "Pool \<Rightarrow> nat \<Rightarrow> nat \<Rightarrow> bool" where
  "free_span s x n \<longleftrightarrow> (\<exists>y. spans s x = Some y \<and> npage y = n \<and> 1 \<le> n \<and> usecount y = 0 \<and>
     (\<forall>k < n. idspanmap s (pageid y + k) = Some x))"

definition page_inv :: "Pool \<Rightarrow> (nat \<Rightarrow> nat list) \<Rightarrow> bool" where
  "page_inv s L \<longleftrightarrow> length (page_heads s) = NPAGES \<and>
     (\<forall>i < NPAGES. dll s (page_heads s ! i) (L i)) \<and>
     (\<forall>i < NPAGES. \<forall>j < NPAGES. i \<noteq> j \<longrightarrow> nodes s L i \<inter> nodes s L j = {}) \<and>
     (\<forall>i < NPAGES. \<forall>x \<in> set (L i). free_span s x i) \<and>
     (\<forall>p. spans s p \<noteq> None \<longrightarrow> p < next_addr s)"

lemma map_pages_eq:
  "idspanmap (map_pages base n p s) = (\<lambda>k. if base \<le> k \<and> k < base + n then Some p else idspanmap s k)"
proof (induction n)
  case 0
  then show ?case by (auto simp: map_pages_def fun_eq_iff)
next
  case (Suc n)
  then show ?case by (auto simp: map_pages_def fun_eq_iff less_Suc_eq)
qed

lemma map_pages_fields [simp]:
  "spans (map_pages base n p s) = spans s" "page_heads (map_pages base n p s) = page_heads s"
  "next_addr (map_pages base n p s) = next_addr s" "os (map_pages base n p s) = os s"
  "mem (map_pages base n p s) = mem s" "central_heads (map_pages base n p s) = central_heads s"
  by (simp_all add: map_pages_def)

lemma nx_cong: "spans s' p = spans s p \<Longrightarrow> nx s' p = nx s p \<and> pv s' p = pv s p"
  by (simp add: nx_def pv_def)

lemma free_span_cong:
  "free_span s x n \<Longrightarrow> spans s' x = spans s x \<Longrightarrow>
     (\<And>y k. spans s x = Some y \<Longrightarrow> k < n \<Longrightarrow> idspanmap s' (pageid y + k) = idspanmap s (pageid y + k)) \<Longrightarrow> free_span s' x n"
  unfolding free_span_def by metis

lemma free_span_relinked: "free_span s x n \<Longrightarrow> relinked s s' \<Longrightarrow> free_span s' x n"
proof -
  assume a: "free_span s x n" "relinked s s'"
  then have "payload s' x = payload s x" "idspanmap s' = idspanmap s" by (auto simp: relinked_def)
  with a(1) show ?thesis by (auto simp: free_span_def payload_def)
qed

text \<open>Changes outside the lists and outside the pages of the listed spans keep the invariant.\<close>

lemma page_inv_frame:
  assumes "page_inv s L" "page_heads s' = page_heads s"
    and "\<And>p i. i < NPAGES \<Longrightarrow> p \<in> nodes s L i \<Longrightarrow> spans s' p = spans s p"
    and "\<And>k x i. idspanmap s k = Some x \<Longrightarrow> i < NPAGES \<Longrightarrow> x \<in> set (L i) \<Longrightarrow> idspanmap s' k = idspanmap s k"
    and "\<And>p. spans s' p \<noteq> None \<Longrightarrow> p < next_addr s'"
  shows "page_inv s' L"
proof -
  have n: "nodes s' L = nodes s L" using assms(2) by (auto simp: nodes_def)
  have "dll s' (page_heads s' ! i) (L i)" if "i < NPAGES" for i
  proof (rule dll_frame)
    show "dll s (page_heads s' ! i) (L i)" using assms(1,2) that by (simp add: page_inv_def)
    show "\<forall>p \<in> insert (page_heads s' ! i) (set (L i)). nx s' p = nx s p \<and> pv s' p = pv s p"
    proof
      fix p
      assume "p \<in> insert (page_heads s' ! i) (set (L i))"
      with assms(2) assms(3) [OF that, of p] have "spans s' p = spans s p" by (simp add: nodes_def)
      then show "nx s' p = nx s p \<and> pv s' p = pv s p" by (rule nx_cong)
    qed
  qed
  moreover have "free_span s' x i" if "i < NPAGES" "x \<in> set (L i)" for i x
  proof -
    have f: "free_span s x i" using assms(1) that by (simp add: page_inv_def)
    then show ?thesis
    proof (rule free_span_cong)
      show "spans s' x = spans s x" using assms(3) [of i x] that by (simp add: nodes_def)
      show "idspanmap s' (pageid y + k) = idspanmap s (pageid y + k)" if "spans s x = Some y" "k < i" for y k
        using f that assms(4) [OF _ \<open>i < NPAGES\<close> \<open>x \<in> set (L i)\<close>] by (auto simp: free_span_def)
    qed
  qed
  ultimately show ?thesis using assms(1,2,5) n by (simp add: page_inv_def)
qed

lemma relinked_fields:
  assumes "relinked s s'"
  shows "page_heads s' = page_heads s" "idspanmap s' = idspanmap s" "next_addr s' = next_addr s"
    "os s' = os s" "mem s' = mem s" "central_heads s' = central_heads s"
  using assms by (auto simp: relinked_def)

text \<open>Relinking one list keeps the invariant for the changed list.\<close>

lemma page_inv_relink:
  assumes "page_inv s L" "i < NPAGES" "relinked s s'" "dll s' (page_heads s ! i) xs"
    and "links_outside (insert n (nodes s L i)) s s'"
    and "set xs \<subseteq> insert n (set (L i))" "\<forall>x \<in> set xs. free_span s x i"
    and "n \<in> set (L i) \<or> (\<forall>j < NPAGES. n \<notin> nodes s L j)"
  shows "page_inv s' (L(i := xs))"
proof -
  note f = relinked_fields [OF assms(3)]
  have sub: "nodes s' (L(i := xs)) j \<subseteq> (if j = i then insert n (nodes s L i) else nodes s L j)" for j
    using assms(6) f by (auto simp: nodes_def)
  have dis: "insert n (nodes s L i) \<inter> nodes s L j = {}" if "j < NPAGES" "j \<noteq> i" for j
    using assms(1,2,8) that by (auto simp: page_inv_def nodes_def)
  have "dll s' (page_heads s' ! j) ((L(i := xs)) j)" if "j < NPAGES" for j
  proof (cases "j = i")
    case False
    have "dll s (page_heads s ! j) (L j)" using assms(1) that by (simp add: page_inv_def)
    from dll_outside [OF this assms(5)] dis [OF that False] False f show ?thesis by (simp add: nodes_def)
  qed (use assms(4) f in simp)
  moreover have "nodes s' (L(i := xs)) j \<inter> nodes s' (L(i := xs)) k = {}" if "j < NPAGES" "k < NPAGES" "j \<noteq> k" for j k
  proof -
    have "nodes s L j \<inter> nodes s L k = {}" using assms(1) that by (simp add: page_inv_def)
    with sub [of j] sub [of k] dis [of j] dis [of k] that show ?thesis by (auto split: if_splits)
  qed
  moreover have "free_span s' x j" if "j < NPAGES" "x \<in> set ((L(i := xs)) j)" for j x
    using assms(1,7) that by (intro free_span_relinked [OF _ assms(3)]) (auto simp: page_inv_def split: if_splits)
  ultimately show ?thesis
    using assms(1) f spans_dom [OF assms(3)] by (simp add: page_inv_def)
qed

lemma page_pop:
  assumes "page_inv s L" "i < NPAGES" "L i = x # xs"
  shows "\<exists>s'. PopFront (page_heads s ! i) s = Inr (x, s') \<and> page_inv s' (L(i := xs)) \<and> relinked s s' \<and>
    free_span s' x i \<and> (\<forall>j < NPAGES. x \<notin> nodes s' (L(i := xs)) j)"
proof -
  have d: "dll s (page_heads s ! i) (x # xs)" using assms by (auto simp: page_inv_def)
  from PopFront_ok [OF this] obtain s' where s': "PopFront (page_heads s ! i) s = Inr (x, s')" "relinked s s'"
    "dll s' (page_heads s ! i) xs" "links_outside (set (page_heads s ! i # xs)) s s'" by blast
  have fs: "free_span s y i" if "y \<in> set (L i)" for y using assms(1,2) that by (simp add: page_inv_def)
  have "links_outside (insert x (nodes s L i)) s s'"
    using s'(4) assms(3) by (auto simp: links_outside_def nodes_def)
  with page_inv_relink [OF assms(1,2) s'(2,3), of x] assms(3) fs have inv: "page_inv s' (L(i := xs))" by auto
  have "x \<notin> nodes s' (L(i := xs)) j" if "j < NPAGES" for j
  proof (cases "j = i")
    case True
    with d relinked_fields [OF s'(2)] show ?thesis by (auto simp: nodes_def dll_def)
  next
    case False
    with assms that have "nodes s L i \<inter> nodes s L j = {}" by (simp add: page_inv_def)
    with False assms(3) relinked_fields [OF s'(2)] show ?thesis by (auto simp: nodes_def)
  qed
  with s' inv free_span_relinked [OF fs s'(2), of x] assms(3) show ?thesis by auto
qed

lemma page_push:
  assumes "page_inv s L" "i < NPAGES" "free_span s x i" "\<forall>j < NPAGES. x \<notin> nodes s L j"
  shows "\<exists>s'. PushFront (page_heads s ! i) x s = Inr s' \<and> page_inv s' (L(i := x # L i)) \<and> relinked s s'"
proof -
  have d: "dll s (page_heads s ! i) (L i)" using assms by (auto simp: page_inv_def)
  have "x \<notin> set (page_heads s ! i # L i)" "spans s x \<noteq> None" using assms by (auto simp: nodes_def free_span_def)
  from PushFront_ok [OF d this] obtain s' where s': "PushFront (page_heads s ! i) x s = Inr s'" "relinked s s'"
    "dll s' (page_heads s ! i) (x # L i)" "links_outside (set (x # page_heads s ! i # L i)) s s'" by blast
  have "\<forall>y \<in> set (x # L i). free_span s y i" using assms(1-3) by (auto simp: page_inv_def)
  with page_inv_relink [OF assms(1,2) s'(2,3), of x] s'(4) assms(4) have "page_inv s' (L(i := x # L i))"
    by (simp add: nodes_def insert_commute)
  with s' show ?thesis by blast
qed

lemma scan_lists_ok:
  assumes "page_inv s L"
  shows "\<exists>r. scan_lists i s = Inr r \<and> (case r of None \<Rightarrow> \<forall>j. i \<le> j \<longrightarrow> j < NPAGES \<longrightarrow> L j = []
    | Some j \<Rightarrow> i \<le> j \<and> j < NPAGES \<and> L j \<noteq> [])"
  using assms
proof (induction i s rule: scan_lists.induct)
  case (1 i s)
  show ?case
  proof (cases "i < NPAGES")
    case True
    have "at (page_heads s) i = Inr (page_heads s ! i)" "Empty (page_heads s ! i) s = Inr (L i = [])"
      using True "1.prems" Empty_ok by (auto simp: page_inv_def)
    note e = this
    show ?thesis
    proof (cases "L i = []")
      case Nil: True
      with e True have step: "scan_lists i s = scan_lists (i + 1) s" by (subst scan_lists.simps) simp
      from "1.IH" [OF True] Nil "1.prems" obtain r where r: "scan_lists (i + 1) s = Inr r"
        "case r of None \<Rightarrow> \<forall>j. i + 1 \<le> j \<longrightarrow> j < NPAGES \<longrightarrow> L j = []
          | Some j \<Rightarrow> i + 1 \<le> j \<and> j < NPAGES \<and> L j \<noteq> []" by auto
      have "L j = []" if "r = None" "i \<le> j" "j < NPAGES" for j
        using r(2) that Nil by (cases "j = i") auto
      with r step show ?thesis by (auto split: option.splits)
    next
      case False
      with e True have "scan_lists i s = Inr (Some i)" by (subst scan_lists.simps) simp
      with True False show ?thesis by simp
    qed
  qed (subst scan_lists.simps, simp)
qed

section \<open>Handing out spans\<close>

text \<open>A span of \<open>n\<close> pages that is in no list of the page cache.\<close>

definition handed_out :: "Pool \<Rightarrow> (nat \<Rightarrow> nat list) \<Rightarrow> nat \<Rightarrow> nat \<Rightarrow> bool" where
  "handed_out s L x n \<longleftrightarrow> page_inv s L \<and> free_span s x n \<and> (\<forall>j < NPAGES. x \<notin> nodes s L j)"

lemma node_exists: "page_inv s L \<Longrightarrow> j < NPAGES \<Longrightarrow> p \<in> nodes s L j \<Longrightarrow> spans s p \<noteq> None \<and> p < next_addr s"
proof -
  assume a: "page_inv s L" "j < NPAGES" "p \<in> nodes s L j"
  then have "linked s (page_heads s ! j) (L j) (page_heads s ! j)" by (simp add: page_inv_def dll_def)
  from linked_nodes [OF this, of p] a show ?thesis by (auto simp: nodes_def page_inv_def)
qed

lemma nodes_cons: "page_heads s' = page_heads s \<Longrightarrow> nodes s' (L(i := x # L i)) j \<subseteq> insert x (nodes s L j)"
  by (auto simp: nodes_def)

lemma split_span_ok:
  assumes "page_inv s L" "1 \<le> n" "n < i" "i < NPAGES" "L i \<noteq> []"
  shows "\<exists>x s' L'. split_span n i s = Inr (x, s') \<and> handed_out s' L' x n"
proof -
  obtain x xs where L: "L i = x # xs" using assms(5) by (auto simp: neq_Nil_conv)
  let ?L1 = "L(i := xs)"
  from page_pop [OF assms(1,4) L] obtain s1 where s1: "PopFront (page_heads s ! i) s = Inr (x, s1)"
    "page_inv s1 ?L1" "relinked s s1" "free_span s1 x i" "\<forall>j < NPAGES. x \<notin> nodes s1 ?L1 j" by blast
  from s1(4) obtain y where y: "spans s1 x = Some y" "npage y = i" "usecount y = 0"
    "\<forall>k < i. idspanmap s1 (pageid y + k) = Some x" by (auto simp: free_span_def)
  let ?p = "next_addr s1"
  have px: "x \<noteq> ?p" using s1(2) y(1) by (auto simp: page_inv_def)
  have pn: "?p \<notin> nodes s1 ?L1 j" if "j < NPAGES" for j using node_exists [OF s1(2) that] by blast
  let ?z = "\<lparr>pageid = pageid y, npage = n, sprev = 0, snext = 0, slist = 0, objsize = 0, usecount = 0\<rparr>"
  let ?y' = "y\<lparr>pageid := pageid y + n, npage := npage y - n\<rparr>"
  define s6 where "s6 = s1\<lparr>next_addr := ?p + 1, spans := (spans s1)(?p \<mapsto> ?z, x \<mapsto> ?y')\<rparr>"
  define s7 where "s7 = map_pages (pageid y) n ?p s6"
  have f7: "spans s7 = (spans s1)(?p \<mapsto> ?z, x \<mapsto> ?y')" "page_heads s7 = page_heads s1" "next_addr s7 = ?p + 1"
    by (simp_all add: s7_def s6_def)
  have m7: "idspanmap s7 = (\<lambda>k. if pageid y \<le> k \<and> k < pageid y + n then Some ?p else idspanmap s1 k)"
  proof -
    have "idspanmap s6 = idspanmap s1" by (simp add: s6_def)
    then show ?thesis by (auto simp: s7_def map_pages_eq fun_eq_iff)
  qed
  have inv7: "page_inv s7 ?L1"
  proof (rule page_inv_frame [OF s1(2) f7(2)])
    show "spans s7 p = spans s1 p" if "j < NPAGES" "p \<in> nodes s1 ?L1 j" for p j
      using that s1(5) pn f7(1) by auto
    show "idspanmap s7 k = idspanmap s1 k" if "idspanmap s1 k = Some u" "j < NPAGES" "u \<in> set (?L1 j)" for k u j
    proof -
      have "u \<noteq> x" using that s1(5) by (auto simp: nodes_def)
      moreover have "idspanmap s1 k = Some x" if "pageid y \<le> k" "k < pageid y + n"
        using y(4) [rule_format, of "k - pageid y"] that assms(3) by simp
      ultimately show ?thesis using that(1) m7 by auto
    qed
    show "p < next_addr s7" if "spans s7 p \<noteq> None" for p
      using that s1(2) f7 y(1) by (auto simp: page_inv_def less_Suc_eq split: if_splits)
  qed
  have rest: "idspanmap s1 (pageid y + n + k) = Some x" if "k < i - n" for k
    using y(4) [rule_format, of "n + k"] that by (simp add: add.assoc)
  have fx: "free_span s7 x (i - n)" and fp: "free_span s7 ?p n"
    using f7 m7 y rest assms(2,3) px by (auto simp: free_span_def)
  have n7: "nodes s7 ?L1 j = nodes s1 ?L1 j" for j using f7 by (simp add: nodes_def)
  have i': "i - n < NPAGES" using assms by simp
  from page_push [OF inv7 i' fx] s1(5) n7 obtain s8 where s8: "PushFront (page_heads s7 ! (i - n)) x s7 = Inr s8"
    "page_inv s8 (?L1(i - n := x # ?L1 (i - n)))" "relinked s7 s8" by auto
  have "\<forall>j < NPAGES. ?p \<notin> nodes s8 (?L1(i - n := x # ?L1 (i - n))) j"
    using nodes_cons [OF relinked_fields(1) [OF s8(3)], of ?L1 "i - n" x] pn n7 px by blast
  with s8(2) free_span_relinked [OF fp s8(3)] have out: "handed_out s8 (?L1(i - n := x # ?L1 (i - n))) ?p n"
    by (simp add: handed_out_def)
  have h: "at (page_heads s) i = Inr (page_heads s ! i)" "at (page_heads s7) (i - n) = Inr (page_heads s7 ! (i - n))"
    using assms(1,4) i' inv7 by (simp_all add: page_inv_def)
  have rx: "rd x s7 = Inr ?y'" "npage ?y' = i - n" using f7 y(2) by (simp_all add: rd_def)
  have s7': "map_pages (pageid y) n ?p (s1\<lparr>next_addr := Suc ?p, spans := (spans s1)(?p \<mapsto> ?z,
      x \<mapsto> y\<lparr>pageid := pageid y + n, npage := i - n\<rparr>)\<rparr>) = s7"
    by (simp add: s7_def s6_def y(2))
  have "split_span n i s = Inr (?p, s8)"
    using s1(1) h [unfolded f7(2)] rx s8(1) [unfolded f7(2)] y(1,2) px s7'
    by (simp add: split_span_def new_Span_def rd_def wr_def)
  with out show ?thesis by blast
qed

text \<open>What the system gives: an aligned address whose 128 pages no span has yet.\<close>

definition fresh_chunk :: "Pool \<Rightarrow> nat \<Rightarrow> bool" where
  "fresh_chunk s a \<longleftrightarrow> a mod 2 ^ PAGE_SHIFT = 0 \<and> (\<forall>k < NPAGES - 1. idspanmap s (page_of a + k) = None)"

lemma NPAGES_bounds: "NPAGES - 1 < NPAGES" "1 \<le> NPAGES - 1"
  by (simp_all add: NPAGES_def)

lemma grow_ok:
  assumes "page_inv s L" "os s = a # as" "fresh_chunk s a"
  shows "\<exists>x s'. grow s = Inr s' \<and> page_inv s' (L(NPAGES - 1 := x # L (NPAGES - 1)))"
proof -
  let ?p = "next_addr s" and ?n = "NPAGES - 1"
  let ?z = "\<lparr>pageid = page_of a, npage = ?n, sprev = 0, snext = 0, slist = 0, objsize = 0, usecount = 0\<rparr>"
  define s4 where "s4 = s\<lparr>next_addr := ?p + 1, os := as, spans := (spans s)(?p \<mapsto> ?z)\<rparr>"
  define s5 where "s5 = map_pages (page_of a) ?n ?p s4"
  have f: "spans s5 = (spans s)(?p \<mapsto> ?z)" "page_heads s5 = page_heads s" "next_addr s5 = ?p + 1"
    by (simp_all add: s5_def s4_def)
  have m: "idspanmap s5 k = (if page_of a \<le> k \<and> k < page_of a + ?n then Some ?p else idspanmap s k)" for k
  proof -
    have "idspanmap s4 = idspanmap s" by (simp add: s4_def)
    then show ?thesis by (auto simp: s5_def map_pages_eq)
  qed
  have pn: "?p \<notin> nodes s L j" if "j < NPAGES" for j using node_exists [OF assms(1) that] by blast
  have inv: "page_inv s5 L"
  proof (rule page_inv_frame [OF assms(1) f(2)])
    show "spans s5 p = spans s p" if "j < NPAGES" "p \<in> nodes s L j" for p j using that pn f(1) by auto
    show "idspanmap s5 k = idspanmap s k" if "idspanmap s k = Some u" "j < NPAGES" "u \<in> set (L j)" for k u j
      using m [of k] assms(3) that(1) by (auto simp: fresh_chunk_def dest!: spec [of _ "k - page_of a"])
    show "p < next_addr s5" if "spans s5 p \<noteq> None" for p
      using that assms(1) f by (auto simp: page_inv_def less_Suc_eq split: if_splits)
  qed
  have "free_span s5 ?p ?n" using f m NPAGES_bounds by (auto simp: free_span_def)
  from page_push [OF inv NPAGES_bounds(1) this] pn f(2) obtain s' where
    s': "PushFront (page_heads s5 ! ?n) ?p s5 = Inr s'" "page_inv s' (L(?n := ?p # L ?n))" by (auto simp: nodes_def)
  have "at (page_heads s5) ?n = Inr (page_heads s5 ! ?n)" using inv NPAGES_bounds by (simp add: page_inv_def)
  moreover have "map_pages (page_of a) ?n ?p (s\<lparr>next_addr := Suc ?p, os := as, spans := (spans s)(?p \<mapsto> ?z)\<rparr>) = s5"
    by (simp add: s5_def s4_def)
  ultimately have "grow s = Inr s'"
    using s'(1) assms(2) f(2) by (simp add: grow_def new_Span_def VirtualAlloc_def wr_def rd_def)
  with s'(2) show ?thesis by blast
qed

text \<open>With a suitable list at hand no recursion is needed; growing provides one.\<close>

lemma NewSpan_rec_served:
  assumes "page_inv s L" "1 \<le> n" "n \<le> i" "i < NPAGES" "L i \<noteq> []"
  shows "\<exists>x s' L'. NewSpan_rec (Suc fuel) n s = Inr (x, s') \<and> handed_out s' L' x n"
proof -
  have n: "n < NPAGES" using assms(3,4) by simp
  have h: "at (page_heads s) n = Inr (page_heads s ! n)" "Empty (page_heads s ! n) s = Inr (L n = [])"
    using assms(1) n Empty_ok by (auto simp: page_inv_def)
  show ?thesis
  proof (cases "L n")
    case (Cons x xs)
    from page_pop [OF assms(1) n Cons] h Cons n show ?thesis by (auto simp: handed_out_def)
  next
    case Nil
    from scan_lists_ok [OF assms(1), of "n + 1"] obtain r where r: "scan_lists (n + 1) s = Inr r"
      "case r of None \<Rightarrow> \<forall>j. n + 1 \<le> j \<longrightarrow> j < NPAGES \<longrightarrow> L j = []
        | Some j \<Rightarrow> n + 1 \<le> j \<and> j < NPAGES \<and> L j \<noteq> []" by blast
    have "i \<noteq> n" using Nil assms(5) by auto
    with r(2) assms(3-5) obtain j where j: "r = Some j" "n < j" "j < NPAGES" "L j \<noteq> []"
      by (cases r) (auto simp: Suc_le_eq nat_less_le)
    with split_span_ok [OF assms(1,2), of j] h Nil n r(1) show ?thesis by auto
  qed
qed

text \<open>
  C5. The page cache hands out what is asked for: as long as the system gives fresh memory
  when the cache needs some, a request for 1 to 128 pages returns (after at most one recursive
  call) a span of exactly that many pages, with every one of its pages registered for it and
  in no list of the cache; and the cache keeps its invariant: well-linked disjoint lists,
  spans filed under their number of pages, and all pages of a free span registered for it.
\<close>

theorem NewSpan_ok:
  assumes "page_inv s L" "1 \<le> n" "n < NPAGES" "os s = a # as" "fresh_chunk s a"
  shows "\<exists>x s' L'. NewSpan n s = Inr (x, s') \<and> handed_out s' L' x n"
proof -
  have two: "NewSpan n s = NewSpan_rec (Suc (Suc 0)) n s" by (simp add: NewSpan_def numeral_2_eq_2)
  show ?thesis
  proof (cases "\<exists>i. n \<le> i \<and> i < NPAGES \<and> L i \<noteq> []")
    case True
    with NewSpan_rec_served [OF assms(1,2)] two show ?thesis by auto
  next
    case False
    have h: "at (page_heads s) n = Inr (page_heads s ! n)" "Empty (page_heads s ! n) s = Inr (L n = [])"
      using assms(1,3) Empty_ok by (auto simp: page_inv_def)
    from scan_lists_ok [OF assms(1), of "n + 1"] False have "scan_lists (n + 1) s = Inr None"
      by (fastforce split: option.splits)
    moreover from grow_ok [OF assms(1,4,5)] obtain x s1 where
      s1: "grow s = Inr s1" "page_inv s1 (L(NPAGES - 1 := x # L (NPAGES - 1)))" by blast
    ultimately have "NewSpan_rec (Suc (Suc 0)) n s = NewSpan_rec (Suc 0) n s1"
      using h False assms(3) by simp
    moreover have "n \<le> NPAGES - 1" using assms(3) by simp
    ultimately show ?thesis
      using NewSpan_rec_served [OF s1(2) assms(2), of "NPAGES - 1" 0] NPAGES_bounds two by auto
  qed
qed

text \<open>A page cache as the program starts it: one empty list for each number of pages.\<close>

definition start_pool :: "nat list \<Rightarrow> Pool" where
  "start_pool chunks = empty_pool\<lparr>
     spans := (\<lambda>p. if 1 \<le> p \<and> p \<le> NPAGES then Some \<lparr>pageid = 0, npage = 0, sprev = p, snext = p, slist = 0,
       objsize = 0, usecount = 0\<rparr> else None),
     next_addr := NPAGES + 1, page_heads := [1..<NPAGES + 1], os := chunks\<rparr>"

lemma start_pool_inv: "page_inv (start_pool chunks) (\<lambda>_. [])"
  by (auto simp: page_inv_def start_pool_def dll_def nx_def pv_def nodes_def simp del: upt_Suc)

theorem NewSpan_ok_witness:
  "\<exists>x s' L'. NewSpan 3 (start_pool [2 ^ 20]) = Inr (x, s') \<and> handed_out s' L' x 3"
proof -
  have "fresh_chunk (start_pool [2 ^ 20]) (2 ^ 20)"
    by (simp add: fresh_chunk_def start_pool_def empty_pool_def PAGE_SHIFT_def)
  with NewSpan_ok [OF start_pool_inv, of 3 "[2 ^ 20]" "2 ^ 20" "[]"] show ?thesis
    by (simp add: NPAGES_def start_pool_def)
qed

section \<open>Taking spans back\<close>

text \<open>
  A page is registered for a span only if it is one of the span's pages; page 0 is not used.
\<close>

definition map_exact :: "Pool \<Rightarrow> bool" where
  "map_exact s \<longleftrightarrow> (\<forall>k x. idspanmap s k = Some x \<longrightarrow> 1 \<le> k \<and> k < 2 ^ 64 \<and>
     (\<exists>y. spans s x = Some y \<and> pageid y \<le> k \<and> k < pageid y + npage y))"

text \<open>Every registered span that counts no objects in use, other than \<open>cur\<close>, is in a list.\<close>

definition idle_listed :: "Pool \<Rightarrow> (nat \<Rightarrow> nat list) \<Rightarrow> nat \<Rightarrow> bool" where
  "idle_listed s L cur \<longleftrightarrow> (\<forall>k x y. idspanmap s k = Some x \<longrightarrow> x \<noteq> cur \<longrightarrow> spans s x = Some y \<longrightarrow>
     usecount y = 0 \<longrightarrow> (\<exists>i < NPAGES. x \<in> set (L i)))"

text \<open>A span of \<open>n\<close> pages on its way back into the lists.\<close>

definition releasing :: "Pool \<Rightarrow> (nat \<Rightarrow> nat list) \<Rightarrow> nat \<Rightarrow> nat \<Rightarrow> bool" where
  "releasing s L cur n \<longleftrightarrow> handed_out s L cur n \<and> n < NPAGES \<and> map_exact s \<and> idle_listed s L cur"

lemma map_exactD:
  "map_exact s \<Longrightarrow> idspanmap s k = Some x \<Longrightarrow> spans s x = Some y \<Longrightarrow>
     1 \<le> k \<and> k < 2 ^ 64 \<and> pageid y \<le> k \<and> k < pageid y + npage y"
  unfolding map_exact_def by force

lemma map_exact_span: "map_exact s \<Longrightarrow> idspanmap s k = Some x \<Longrightarrow> \<exists>y. spans s x = Some y"
  unfolding map_exact_def by blast

lemma page_erase:
  assumes "page_inv s L" "i < NPAGES" "x \<in> set (L i)"
  shows "\<exists>s'. Erase x s = Inr s' \<and> page_inv s' (L(i := remove1 x (L i))) \<and> relinked s s' \<and>
    (\<forall>j < NPAGES. x \<notin> nodes s' (L(i := remove1 x (L i))) j)"
proof -
  have d: "dll s (page_heads s ! i) (L i)" using assms by (auto simp: page_inv_def)
  from assms(3) obtain ys zs where L: "L i = ys @ x # zs" "x \<notin> set ys" by (auto dest: split_list_first)
  have dist: "x \<noteq> page_heads s ! i" "x \<notin> set zs" using d L by (auto simp: dll_def)
  have r: "remove1 x (L i) = ys @ zs" using L by (simp add: remove1_append)
  from dll_erase [of s "page_heads s ! i" ys x zs] d L(1) obtain s' where s': "Erase x s = Inr s'" "relinked s s'"
    "dll s' (page_heads s ! i) (ys @ zs)" "links_outside (set (page_heads s ! i # ys @ zs)) s s'" by auto
  have "links_outside (insert x (nodes s L i)) s s'" using s'(4) L(1) by (auto simp: links_outside_def nodes_def)
  moreover have "\<forall>y \<in> set (ys @ zs). free_span s y i" using assms(1,2) L(1) by (auto simp: page_inv_def)
  ultimately have inv: "page_inv s' (L(i := ys @ zs))"
    using page_inv_relink [OF assms(1,2) s'(2,3), of x] L(1) assms(3) by auto
  have "x \<notin> nodes s' (L(i := ys @ zs)) j" if "j < NPAGES" for j
  proof (cases "j = i")
    case True
    with dist L relinked_fields [OF s'(2)] show ?thesis by (auto simp: nodes_def)
  next
    case False
    with assms that have "nodes s L i \<inter> nodes s L j = {}" by (simp add: page_inv_def)
    with False L(1) relinked_fields [OF s'(2)] show ?thesis by (auto simp: nodes_def)
  qed
  with s' inv r show ?thesis by auto
qed

text \<open>
  Absorbing the idle span \<open>b\<close> of \<open>m\<close> pages into \<open>a\<close> of \<open>n\<close> pages, when the pages of \<open>b\<close>
  follow those of \<open>a\<close>: the state change both merge loops make.
\<close>

definition absorb :: "nat \<Rightarrow> nat \<Rightarrow> nat \<Rightarrow> nat \<Rightarrow> Pool \<Rightarrow> Pool" where
  "absorb a b base m s =
     delete_Span b (map_pages base m a (s\<lparr>spans := (spans s)(a := map_option (\<lambda>y. y\<lparr>npage := npage y + m\<rparr>) (spans s a))\<rparr>))"

lemma absorb_ok:
  assumes "page_inv s L" "free_span s a n" "free_span s b m" "a \<noteq> b" "map_exact s"
    and "spans s a = Some ya" "spans s b = Some yb" "pageid yb = pageid ya + n" "n + m < NPAGES"
    and "\<forall>j < NPAGES. a \<notin> nodes s L j \<and> b \<notin> nodes s L j"
    and "\<forall>k x y. idspanmap s k = Some x \<longrightarrow> x \<noteq> a \<longrightarrow> x \<noteq> b \<longrightarrow> spans s x = Some y \<longrightarrow>
       usecount y = 0 \<longrightarrow> (\<exists>i < NPAGES. x \<in> set (L i))"
  shows "releasing (absorb a b (pageid yb) m s) L a (n + m)"
proof -
  let ?s = "absorb a b (pageid yb) m s" and ?y = "ya\<lparr>npage := npage ya + m\<rparr>"
  have sp: "spans ?s = (spans s)(a \<mapsto> ?y, b := None)" "page_heads ?s = page_heads s" "next_addr ?s = next_addr s"
    using assms(6) by (simp_all add: absorb_def delete_Span_def)
  have mp: "idspanmap ?s k = (if pageid yb \<le> k \<and> k < pageid yb + m then Some a else idspanmap s k)" for k
    by (auto simp: absorb_def delete_Span_def map_pages_eq)
  have na: "npage ya = n" "usecount ya = 0" "\<forall>k < n. idspanmap s (pageid ya + k) = Some a" "1 \<le> n"
    and nb: "npage yb = m" "\<forall>k < m. idspanmap s (pageid yb + k) = Some b"
    using assms(2,3,6,7) by (auto simp: free_span_def)
  have toB: "idspanmap s k = Some b" if "pageid yb \<le> k" "k < pageid yb + m" for k
    using nb(2) [rule_format, of "k - pageid yb"] that by simp
  have notB: "idspanmap ?s k \<noteq> Some b" for k
  proof
    assume "idspanmap ?s k = Some b"
    with mp [of k] assms(4) have "idspanmap s k = Some b" "\<not> (pageid yb \<le> k \<and> k < pageid yb + m)"
      by (auto split: if_splits)
    with map_exactD [OF assms(5) _ assms(7)] nb(1) show False by auto
  qed
  have inv: "page_inv ?s L"
  proof (rule page_inv_frame [OF assms(1) sp(2)])
    show "spans ?s p = spans s p" if "j < NPAGES" "p \<in> nodes s L j" for p j using that assms(10) sp(1) by auto
    show "idspanmap ?s k = idspanmap s k" if "idspanmap s k = Some u" "j < NPAGES" "u \<in> set (L j)" for k u j
      using that mp [of k] toB [of k] assms(10) by (auto simp: nodes_def)
    show "p < next_addr ?s" if "spans ?s p \<noteq> None" for p
      using that assms(1,6) sp by (auto simp: page_inv_def split: if_splits)
  qed
  have "idspanmap ?s (pageid ya + k) = Some a" if "k < n + m" for k
    using that mp [of "pageid ya + k"] na(3) assms(8) by auto
  then have fa: "free_span ?s a (n + m)" using sp(1) na assms(4) by (auto simp: free_span_def)
  have ex: "map_exact ?s" unfolding map_exact_def
  proof (intro allI impI)
    fix k x
    assume k: "idspanmap ?s k = Some x"
    with notB have xb: "x \<noteq> b" by blast
    show "1 \<le> k \<and> k < 2 ^ 64 \<and> (\<exists>y. spans ?s x = Some y \<and> pageid y \<le> k \<and> k < pageid y + npage y)"
    proof (cases "pageid yb \<le> k \<and> k < pageid yb + m")
      case True
      with map_exactD [OF assms(5) toB assms(7), of k] k mp [of k] sp(1) xb na(1) assms(8) show ?thesis by auto
    next
      case False
      with k mp [of k] have "idspanmap s k = Some x" by auto
      with map_exact_span [OF assms(5)] map_exactD [OF assms(5)] obtain y where
        "spans s x = Some y" "1 \<le> k" "k < 2 ^ 64" "pageid y \<le> k" "k < pageid y + npage y" by blast
      with assms(6) sp(1) xb show ?thesis by auto
    qed
  qed
  have "idle_listed ?s L a" unfolding idle_listed_def
  proof (intro allI impI)
    fix k x y
    assume a: "idspanmap ?s k = Some x" "x \<noteq> a" "spans ?s x = Some y" "usecount y = 0"
    then have "idspanmap s k = Some x" "x \<noteq> b" using mp [of k] notB [of k] by (auto split: if_splits)
    with a assms(11) sp(1) show "\<exists>i < NPAGES. x \<in> set (L i)" by auto
  qed
  with inv fa ex assms(9,10) sp(2) show ?thesis by (auto simp: releasing_def handed_out_def nodes_def)
qed

lemma relinked_span:
  "relinked s s' \<Longrightarrow> spans s x = Some y \<Longrightarrow> \<exists>y'. spans s' x = Some y' \<and> pageid y' = pageid y \<and> npage y' = npage y \<and>
     usecount y' = usecount y \<and> objsize y' = objsize y \<and> slist y' = slist y"
proof -
  assume "relinked s s'" "spans s x = Some y"
  then have "payload s' x = payload s x" by (simp add: relinked_def)
  with \<open>spans s x = Some y\<close> show ?thesis by (auto simp: payload_def)
qed

lemma relinked_sym: "relinked s s' \<Longrightarrow> relinked s' s"
proof -
  assume a: "relinked s s'"
  then obtain m where "s' = s\<lparr>spans := m\<rparr>" "payload s' = payload s" by (auto simp: relinked_def)
  then have "s = s'\<lparr>spans := spans s\<rparr>" by simp
  with a show ?thesis unfolding relinked_def by (metis (no_types))
qed

lemma map_exact_relinked: "map_exact s \<Longrightarrow> relinked s s' \<Longrightarrow> map_exact s'"
  unfolding map_exact_def using relinked_span relinked_fields(2) by (metis (no_types, lifting))

text \<open>Taking an idle neighbour out of its list, ready to be merged with the span being released.\<close>

lemma take_neighbour:
  assumes "releasing s L cur n" "idspanmap s k = Some q" "q \<noteq> cur" "spans s q = Some y" "usecount y = 0"
    and "n + npage y < NPAGES"
  obtains i s1 L1 where "i < NPAGES" "npage y = i" "Erase q s = Inr s1" "relinked s s1" "page_inv s1 L1"
    "free_span s q i" "\<forall>j < NPAGES. q \<notin> nodes s1 L1 j \<and> cur \<notin> nodes s1 L1 j"
    "\<forall>k x y. idspanmap s1 k = Some x \<longrightarrow> x \<noteq> q \<longrightarrow> x \<noteq> cur \<longrightarrow> spans s1 x = Some y \<longrightarrow>
       usecount y = 0 \<longrightarrow> (\<exists>i < NPAGES. x \<in> set (L1 i))"
proof -
  have inv: "page_inv s L" and out: "\<forall>j < NPAGES. cur \<notin> nodes s L j" and idle: "idle_listed s L cur"
    using assms(1) by (auto simp: releasing_def handed_out_def)
  from idle [unfolded idle_listed_def, rule_format, OF assms(2-5)] obtain i where
    i: "i < NPAGES" "q \<in> set (L i)" by blast
  with inv have fq: "free_span s q i" by (auto simp: page_inv_def)
  with assms(4) have ni: "npage y = i" by (auto simp: free_span_def)
  let ?L1 = "L(i := remove1 q (L i))"
  from page_erase [OF inv i] obtain s1 where s1: "Erase q s = Inr s1" "page_inv s1 ?L1" "relinked s s1"
    "\<forall>j < NPAGES. q \<notin> nodes s1 ?L1 j" by blast
  have "\<forall>j < NPAGES. cur \<notin> nodes s1 ?L1 j"
    using out relinked_fields [OF s1(3)] by (auto simp: nodes_def dest: notin_set_remove1)
  moreover have "\<exists>j < NPAGES. x \<in> set (?L1 j)"
    if x: "idspanmap s1 k = Some x" "x \<noteq> q" "x \<noteq> cur" "spans s1 x = Some z" "usecount z = 0" for k x z
  proof -
    from relinked_span [OF relinked_sym [OF s1(3)] x(4)] x(5) obtain z' where
      "spans s x = Some z'" "usecount z' = 0" by auto
    with x idle [unfolded idle_listed_def, rule_format, of k x z'] relinked_fields(2) [OF s1(3)]
    obtain j where "j < NPAGES" "x \<in> set (L j)" by auto
    with x(2) show ?thesis by (intro exI [of _ j]) auto
  qed
  ultimately show ?thesis using i fq ni s1 by (intro that [of i s1 ?L1]) auto
qed

lemma merge_back_ok:
  "releasing s L cur n \<Longrightarrow> NPAGES \<le> fuel + n \<Longrightarrow>
     \<exists>cur' n' s' L'. merge_back fuel cur s = Inr (cur', s') \<and> releasing s' L' cur' n' \<and> n \<le> n' \<and>
       dom (idspanmap s') = dom (idspanmap s)"
proof (induction fuel arbitrary: cur n s L)
  case 0
  then show ?case by (simp add: releasing_def)
next
  case (Suc fuel)
  have ex: "map_exact s" and fc: "free_span s cur n" and inv: "page_inv s L"
    using Suc.prems(1) by (auto simp: releasing_def handed_out_def)
  from fc obtain c where c: "spans s cur = Some c" "npage c = n" "1 \<le> n" "\<forall>k < n. idspanmap s (pageid c + k) = Some cur"
    by (auto simp: free_span_def)
  then have "idspanmap s (pageid c) = Some cur" by (auto dest: spec [of _ 0])
  from map_exactD [OF ex this c(1)] have pre: "size_sub (pageid c) 1 = pageid c - 1" "1 \<le> pageid c"
    by (auto intro: size_sub_small)
  have stop: ?case if "merge_back (Suc fuel) cur s = Inr (cur, s)" using that Suc.prems(1) by blast
  show ?case
  proof (cases "idspanmap s (pageid c - 1)")
    case None
    with c(1) pre stop show ?thesis by (simp add: rd_def)
  next
    case (Some q)
    from map_exact_span [OF ex Some] obtain y where y: "spans s q = Some y" by blast
    have qc: "q \<noteq> cur" using map_exactD [OF ex Some, of c] c(1) pre by auto
    show ?thesis
    proof (cases "usecount y = 0 \<and> n + npage y < NPAGES")
      case False
      with c(1,2) pre stop Some y NPAGES_bounds show ?thesis by (auto simp: rd_def)
    next
      case True
      then have free: "usecount y = 0" "n + npage y < NPAGES" by simp_all
      obtain i s1 L1 where
        i: "i < NPAGES" "npage y = i" "Erase q s = Inr s1" "relinked s s1" "page_inv s1 L1" "free_span s q i"
        and out: "\<forall>j < NPAGES. q \<notin> nodes s1 L1 j \<and> cur \<notin> nodes s1 L1 j"
        and idle: "\<forall>k x y. idspanmap s1 k = Some x \<longrightarrow> x \<noteq> q \<longrightarrow> x \<noteq> cur \<longrightarrow> spans s1 x = Some y \<longrightarrow>
           usecount y = 0 \<longrightarrow> (\<exists>i < NPAGES. x \<in> set (L1 i))"
        using take_neighbour [OF Suc.prems(1) Some qc y free] by blast
      have adj: "pageid c = pageid y + i"
      proof (rule ccontr)
        assume "pageid c \<noteq> pageid y + i"
        with map_exactD [OF ex Some y] i(2) pre have "pageid y \<le> pageid c" "pageid c < pageid y + i" by auto
        with i(6) y have "idspanmap s (pageid c) = Some q"
          by (auto simp: free_span_def dest!: spec [of _ "pageid c - pageid y"])
        with \<open>idspanmap s (pageid c) = Some cur\<close> qc show False by simp
      qed
      from relinked_span [OF i(4) y] obtain y1 where y1: "spans s1 q = Some y1" "pageid y1 = pageid y" by auto
      from relinked_span [OF i(4) c(1)] obtain c1 where c1: "spans s1 cur = Some c1" "pageid c1 = pageid c" by auto
      have "i + n < NPAGES" using True i(2) by simp
      with absorb_ok [OF i(5) free_span_relinked [OF i(6,4)] free_span_relinked [OF fc i(4)] qc
          map_exact_relinked [OF ex i(4)] y1(1) c1(1)] adj y1(2) c1(2) out idle
      have rel: "releasing (absorb q cur (pageid c) n s1) L1 q (i + n)" by simp
      have step: "merge_back (Suc fuel) cur s = merge_back fuel q (absorb q cur (pageid c) n s1)"
        using c(1,2) pre Some y True i(1-3) y1(1) inv NPAGES_bounds
        by (auto simp: rd_def wr_def absorb_def page_inv_def)
      have dom: "dom (idspanmap (absorb q cur (pageid c) n s1)) = dom (idspanmap s)"
      proof -
        have "\<exists>z. idspanmap s k = Some z" if "pageid c \<le> k" "k < pageid c + n" for k
          using c(4) [rule_format, of "k - pageid c"] that by auto
        with relinked_fields(2) [OF i(4)] show ?thesis
          by (auto simp: absorb_def delete_Span_def map_pages_eq split: if_splits)
      qed
      have "1 \<le> i" using i(6) by (auto simp: free_span_def)
      then have "NPAGES \<le> fuel + (i + n)" using Suc.prems(2) by simp
      from Suc.IH [OF rel this] obtain cur' n' s' L' where "releasing s' L' cur' n'" "i + n \<le> n'"
        "merge_back fuel q (absorb q cur (pageid c) n s1) = Inr (cur', s')" "dom (idspanmap s') = dom (idspanmap s)"
        unfolding dom by blast
      then show ?thesis unfolding step by (intro exI [of _ cur'] exI [of _ n'] exI [of _ s'] exI [of _ L']) simp
    qed
  qed
qed

lemma merge_forward_ok:
  "releasing s L cur n \<Longrightarrow> NPAGES \<le> fuel + n \<Longrightarrow>
     \<exists>n' s' L'. merge_forward fuel cur s = Inr s' \<and> releasing s' L' cur n' \<and> n \<le> n' \<and>
       dom (idspanmap s') = dom (idspanmap s)"
proof (induction fuel arbitrary: n s L)
  case 0
  then show ?case by (simp add: releasing_def)
next
  case (Suc fuel)
  have ex: "map_exact s" and fc: "free_span s cur n" and inv: "page_inv s L"
    using Suc.prems(1) by (auto simp: releasing_def handed_out_def)
  from fc obtain c where c: "spans s cur = Some c" "npage c = n" "1 \<le> n" "\<forall>k < n. idspanmap s (pageid c + k) = Some cur"
    by (auto simp: free_span_def)
  have stop: ?case if "merge_forward (Suc fuel) cur s = Inr s" using that Suc.prems(1) by blast
  show ?case
  proof (cases "idspanmap s (pageid c + n)")
    case None
    with c(1,2) stop show ?thesis by (simp add: rd_def)
  next
    case (Some q)
    from map_exact_span [OF ex Some] obtain y where y: "spans s q = Some y" by blast
    have qc: "q \<noteq> cur" using map_exactD [OF ex Some, of c] c(1,2) by auto
    show ?thesis
    proof (cases "usecount y = 0 \<and> n + npage y < NPAGES - 1")
      case False
      with c(1,2) stop Some y show ?thesis by (auto simp: rd_def)
    next
      case True
      then have free: "usecount y = 0" "n + npage y < NPAGES" by auto
      obtain i s1 L1 where
        i: "i < NPAGES" "npage y = i" "Erase q s = Inr s1" "relinked s s1" "page_inv s1 L1" "free_span s q i"
        and out: "\<forall>j < NPAGES. q \<notin> nodes s1 L1 j \<and> cur \<notin> nodes s1 L1 j"
        and idle: "\<forall>k x y. idspanmap s1 k = Some x \<longrightarrow> x \<noteq> q \<longrightarrow> x \<noteq> cur \<longrightarrow> spans s1 x = Some y \<longrightarrow>
           usecount y = 0 \<longrightarrow> (\<exists>i < NPAGES. x \<in> set (L1 i))"
        using take_neighbour [OF Suc.prems(1) Some qc y free] by blast
      have adj: "pageid y = pageid c + n"
      proof (rule ccontr)
        assume "pageid y \<noteq> pageid c + n"
        with map_exactD [OF ex Some y] i(2) c(3) have "pageid y \<le> pageid c + (n - 1)" "pageid c + (n - 1) < pageid y + i"
          by auto
        with i(6) y have "idspanmap s (pageid c + (n - 1)) = Some q"
          by (auto simp: free_span_def dest!: spec [of _ "pageid c + (n - 1) - pageid y"])
        moreover have "idspanmap s (pageid c + (n - 1)) = Some cur" by (rule c(4) [rule_format]) (use c(3) in simp)
        ultimately show False using qc by simp
      qed
      from relinked_span [OF i(4) y] obtain y1 where y1: "spans s1 q = Some y1" "pageid y1 = pageid y" by auto
      from relinked_span [OF i(4) c(1)] obtain c1 where c1: "spans s1 cur = Some c1" "pageid c1 = pageid c" by auto
      have "n + i < NPAGES" using free i(2) by simp
      with absorb_ok [OF i(5) free_span_relinked [OF fc i(4)] free_span_relinked [OF i(6,4)] qc [symmetric]
          map_exact_relinked [OF ex i(4)] c1(1) y1(1)] adj y1(2) c1(2) out idle
      have rel: "releasing (absorb cur q (pageid y) i s1) L1 cur (n + i)" by auto
      have step: "merge_forward (Suc fuel) cur s = merge_forward fuel cur (absorb cur q (pageid y) i s1)"
        using c(1,2) Some y True i(1-3) c1(1) inv by (auto simp: rd_def wr_def absorb_def page_inv_def)
      have dom: "dom (idspanmap (absorb cur q (pageid y) i s1)) = dom (idspanmap s)"
      proof -
        have "\<exists>z. idspanmap s k = Some z" if "pageid y \<le> k" "k < pageid y + i" for k
          using i(6) y that by (auto simp: free_span_def dest!: spec [of _ "k - pageid y"])
        with relinked_fields(2) [OF i(4)] show ?thesis
          by (auto simp: absorb_def delete_Span_def map_pages_eq split: if_splits)
      qed
      have "1 \<le> i" using i(6) by (auto simp: free_span_def)
      then have "NPAGES \<le> fuel + (n + i)" using Suc.prems(2) by simp
      from Suc.IH [OF rel this] obtain n' s' L' where "releasing s' L' cur n'" "n + i \<le> n'"
        "merge_forward fuel cur (absorb cur q (pageid y) i s1) = Inr s'" "dom (idspanmap s') = dom (idspanmap s)"
        unfolding dom by blast
      then show ?thesis unfolding step by (intro exI [of _ n'] exI [of _ s'] exI [of _ L']) simp
    qed
  qed
qed

text \<open>The whole invariant of the page cache between operations.\<close>

definition page_cache_inv :: "Pool \<Rightarrow> (nat \<Rightarrow> nat list) \<Rightarrow> bool" where
  "page_cache_inv s L \<longleftrightarrow> page_inv s L \<and> map_exact s \<and>
     (\<forall>k x y. idspanmap s k = Some x \<longrightarrow> spans s x = Some y \<longrightarrow> usecount y = 0 \<longrightarrow> (\<exists>i < NPAGES. x \<in> set (L i)))"

text \<open>
  C6. Taking a span back: a span that is no longer used, of at most 128 pages, goes back into
  the lists, merged with its idle neighbours as long as the result is small enough. The merge
  loops end, nothing is read through a dangling pointer, every page stays registered, and
  the cache is again in order: its lists are well linked and every idle span is in one of
  them. The condition is that all other idle spans are in the lists already.
\<close>

theorem ReleaseSpan_ok:
  assumes "releasing s L cur n"
  shows "\<exists>s' L'. ReleaseSpanToPageCache cur s = Inr s' \<and> page_cache_inv s' L' \<and>
    dom (idspanmap s') = dom (idspanmap s)"
proof -
  from assms obtain c where c: "spans s cur = Some c" "npage c = n" "n < NPAGES" "1 \<le> n"
    by (auto simp: releasing_def handed_out_def free_span_def)
  from merge_back_ok [OF assms, of NPAGES] obtain cur1 n1 s1 L1 where
    b: "merge_back NPAGES cur s = Inr (cur1, s1)" "releasing s1 L1 cur1 n1" "dom (idspanmap s1) = dom (idspanmap s)"
    by auto
  from merge_forward_ok [OF b(2), of NPAGES] obtain n2 s2 L2 where
    f: "merge_forward NPAGES cur1 s1 = Inr s2" "releasing s2 L2 cur1 n2" "dom (idspanmap s2) = dom (idspanmap s)"
    using b(3) by auto
  have r: "page_inv s2 L2" "free_span s2 cur1 n2" "\<forall>j < NPAGES. cur1 \<notin> nodes s2 L2 j" "n2 < NPAGES"
    "map_exact s2" "idle_listed s2 L2 cur1" using f(2) by (auto simp: releasing_def handed_out_def)
  from page_push [OF r(1,4,2,3)] obtain s' where
    s': "PushFront (page_heads s2 ! n2) cur1 s2 = Inr s'" "page_inv s' (L2(n2 := cur1 # L2 n2))" "relinked s2 s'" by blast
  from r(2) obtain y where y: "spans s2 cur1 = Some y" "npage y = n2" by (auto simp: free_span_def)
  have "\<exists>i < NPAGES. x \<in> set ((L2(n2 := cur1 # L2 n2)) i)"
    if x: "idspanmap s' k = Some x" "spans s' x = Some z" "usecount z = 0" for k x z
  proof (cases "x = cur1")
    case True
    with r(4) show ?thesis by (intro exI [of _ n2]) simp
  next
    case False
    from relinked_span [OF relinked_sym [OF s'(3)] x(2)] x(3) obtain z' where
      "spans s2 x = Some z'" "usecount z' = 0" by auto
    with r(6) [unfolded idle_listed_def, rule_format, of k x z'] x(1) False relinked_fields(2) [OF s'(3)]
    obtain j where "j < NPAGES" "x \<in> set (L2 j)" by auto
    then show ?thesis by (intro exI [of _ j]) auto
  qed
  with s' map_exact_relinked [OF r(5) s'(3)] have "page_cache_inv s' (L2(n2 := cur1 # L2 n2))"
    unfolding page_cache_inv_def by blast
  moreover have "ReleaseSpanToPageCache cur s = Inr s'"
    using c b(1) f(1) y s'(1) r(1,4) by (simp add: ReleaseSpanToPageCache_def rd_def page_inv_def)
  ultimately show ?thesis using f(3) relinked_fields(2) [OF s'(3)] by auto
qed

definition one_page_out :: Pool where
  "one_page_out = (start_pool [])\<lparr>
     spans := (spans (start_pool []))(200 \<mapsto> \<lparr>pageid = 256, npage = 1, sprev = 0, snext = 0, slist = 0,
       objsize = 0, usecount = 0\<rparr>),
     next_addr := 201, idspanmap := [256 \<mapsto> 200]\<rparr>"

lemma one_page_releasing: "releasing one_page_out (\<lambda>_. []) 200 1"
proof -
  have "page_inv one_page_out (\<lambda>_. [])"
    by (rule page_inv_frame [OF start_pool_inv [of "[]"]])
      (auto simp: one_page_out_def start_pool_def empty_pool_def nodes_def NPAGES_def simp del: upt_Suc split: if_splits)
  then show ?thesis
    by (auto simp: releasing_def handed_out_def free_span_def map_exact_def idle_listed_def one_page_out_def
        start_pool_def nodes_def NPAGES_def simp del: upt_Suc split: if_splits)
qed

theorem ReleaseSpan_ok_witness:
  "\<exists>s' L'. ReleaseSpanToPageCache 200 one_page_out = Inr s' \<and> page_cache_inv s' L' \<and> dom (idspanmap s') = {256}"
  using ReleaseSpan_ok [OF one_page_releasing] by (simp add: one_page_out_def)



end
