(* ===== verification/Pool_Cache.thy ===== *)
theory Pool_Cache
  imports Pool_Page
begin

text \<open>
  The central cache, the thread cache and the entry points of the memory pool
  (\<^verbatim>\<open>CentralCache.cpp\<close>, \<^verbatim>\<open>ThreadCache.cpp\<close>, \<^verbatim>\<open>ConcurrentAlloc.h\<close>, class \<^verbatim>\<open>Freelist\<close> of
  \<^verbatim>\<open>Common.h\<close>). Free objects are chained through their own first word, \<open>mem\<close>. Loops over
  chains and rings get fuel: the number of spans for a ring, the number of objects the free
  list counts for a chain, the bytes of a span for carving it.
\<close>

section \<open>Model\<close>

subsection \<open>Free lists\<close>

record Freelist =
  fl_list :: nat
  fl_size :: nat
  fl_maxsize :: nat

definition new_Freelist :: Freelist where
  "new_Freelist = \<lparr>fl_list = 0, fl_size = 0, fl_maxsize = 1\<rparr>"

definition NEXT_OBJ :: "nat \<Rightarrow> (nat \<Rightarrow> nat) \<Rightarrow> nat res" where
  "NEXT_OBJ obj m = (if obj = 0 then Inl BadAccess else Inr (m obj))"

definition set_NEXT :: "nat \<Rightarrow> nat \<Rightarrow> (nat \<Rightarrow> nat) \<Rightarrow> (nat \<Rightarrow> nat) res" where
  "set_NEXT obj v m = (if obj = 0 then Inl BadAccess else Inr (m(obj := v)))"

definition Push :: "nat \<Rightarrow> Freelist \<Rightarrow> (nat \<Rightarrow> nat) \<Rightarrow> (Freelist \<times> (nat \<Rightarrow> nat)) res" where
  "Push obj f m = rbind (set_NEXT obj (fl_list f) m) (\<lambda>m1.
     Inr (f\<lparr>fl_list := obj, fl_size := fl_size f + 1\<rparr>, m1))"

definition PushRange :: "nat \<Rightarrow> nat \<Rightarrow> nat \<Rightarrow> Freelist \<Rightarrow> (nat \<Rightarrow> nat) \<Rightarrow> (Freelist \<times> (nat \<Rightarrow> nat)) res" where
  "PushRange start fin n f m = rbind (set_NEXT fin (fl_list f) m) (\<lambda>m1.
     Inr (f\<lparr>fl_list := start, fl_size := fl_size f + n\<rparr>, m1))"

definition Pop :: "Freelist \<Rightarrow> (nat \<Rightarrow> nat) \<Rightarrow> (nat \<times> Freelist) res" where
  "Pop f m = rbind (NEXT_OBJ (fl_list f) m) (\<lambda>nxt.
     Inr (fl_list f, f\<lparr>fl_list := nxt, fl_size := size_sub (fl_size f) 1\<rparr>))"

definition PopRange :: "Freelist \<Rightarrow> nat \<times> Freelist" where
  "PopRange f = (fl_list f, f\<lparr>fl_list := 0, fl_size := 0\<rparr>)"

subsection \<open>Central cache\<close>

text \<open>The walk of \<^verbatim>\<open>GetOneSpan\<close> to the first span with a free object.\<close>

fun find_span :: "nat \<Rightarrow> nat \<Rightarrow> nat \<Rightarrow> Pool \<Rightarrow> nat option res" where
  "find_span 0 h span s = Inl (Throw ''fuel'')"
| "find_span (Suc fuel) h span s =
     (if span = End h then Inr None
      else rbind (rd span s) (\<lambda>x. if slist x \<noteq> 0 then Inr (Some span) else find_span fuel h (snext x) s))"

text \<open>The loop that chains the objects of a new span.\<close>

fun carve :: "nat \<Rightarrow> nat \<Rightarrow> nat \<Rightarrow> nat \<Rightarrow> (nat \<Rightarrow> nat) \<Rightarrow> (nat \<times> (nat \<Rightarrow> nat)) res" where
  "carve 0 cur byte_size fin m = Inl (Throw ''fuel'')"
| "carve (Suc fuel) cur byte_size fin m =
     (if cur + byte_size < fin
      then let nxt = cur + byte_size
           in rbind (set_NEXT cur nxt m) (\<lambda>m1. carve fuel nxt byte_size fin m1)
      else Inr (cur, m))"

definition GetOneSpan :: "nat \<Rightarrow> nat \<Rightarrow> Pool \<Rightarrow> (nat \<times> Pool) res" where
  "GetOneSpan h byte_size s =
     rbind (Begin h s) (\<lambda>b. rbind (find_span (next_addr s + 1) h b s) (\<lambda>found.
       case found of
         Some span \<Rightarrow> Inr (span, s)
       | None \<Rightarrow>
           rbind (NewSpan (NumMovePage byte_size) s) (\<lambda>(newspan, s1).
           rbind (rd newspan s1) (\<lambda>x.
             let cur = addr_of (pageid x); fin = cur + addr_of (npage x)
             in rbind (wr newspan (\<lambda>y. y\<lparr>slist := cur, objsize := byte_size\<rparr>) s1) (\<lambda>s2.
                rbind (carve (fin - cur + 1) cur byte_size fin (mem s2)) (\<lambda>(lst, m).
                rbind (set_NEXT lst 0 m) (\<lambda>m1.
                rbind (PushFront h newspan (s2\<lparr>mem := m1\<rparr>)) (\<lambda>s3. Inr (newspan, s3)))))))))"

text \<open>The loop that walks \<open>n\<close> objects down the chain of a span: count, last object, rest.\<close>

fun fetch_loop :: "nat \<Rightarrow> nat \<Rightarrow> nat \<Rightarrow> nat \<Rightarrow> (nat \<Rightarrow> nat) \<Rightarrow> (nat \<times> nat \<times> nat) res" where
  "fetch_loop 0 prev cur batchsize m = Inr (batchsize, prev, cur)"
| "fetch_loop (Suc n) prev cur batchsize m =
     rbind (NEXT_OBJ cur m) (\<lambda>nxt.
       if nxt = 0 then Inr (batchsize + 1, cur, nxt) else fetch_loop n cur nxt (batchsize + 1) m)"

definition FetchRangeObj :: "nat \<Rightarrow> nat \<Rightarrow> Pool \<Rightarrow> ((nat \<times> nat \<times> nat) \<times> Pool) res" where
  "FetchRangeObj n byte_size s =
     rbind (Index byte_size) (\<lambda>index. rbind (at (central_heads s) index) (\<lambda>h.
     rbind (GetOneSpan h byte_size s) (\<lambda>(span, s1).
     rbind (rd span s1) (\<lambda>x.
     rbind (fetch_loop n 0 (slist x) 0 (mem s1)) (\<lambda>(batchsize, prev, cur).
     rbind (wr span (\<lambda>y. y\<lparr>slist := cur, usecount := usecount y + batchsize\<rparr>) s1) (\<lambda>s2.
     rbind (if cur = 0 then rbind (Erase span s2) (\<lambda>s3. PushBack h span s3) else Inr s2) (\<lambda>s4.
       Inr ((batchsize, slist x, prev), s4))))))))"

fun release_loop :: "nat \<Rightarrow> nat \<Rightarrow> Pool \<Rightarrow> Pool res" where
  "release_loop 0 start s = (if start = 0 then Inr s else Inl (Throw ''fuel''))"
| "release_loop (Suc fuel) start s =
     (if start = 0 then Inr s
      else rbind (NEXT_OBJ start (mem s)) (\<lambda>nxt.
           rbind (MapObjectToSpan start s) (\<lambda>span.
           rbind (rd span s) (\<lambda>x.
           rbind (set_NEXT start (slist x) (mem s)) (\<lambda>m.
           rbind (wr span (\<lambda>y. y\<lparr>slist := start, usecount := size_sub (usecount y) 1\<rparr>) (s\<lparr>mem := m\<rparr>)) (\<lambda>s1.
           rbind (if size_sub (usecount x) 1 = 0
                  then rbind (Erase span s1) (\<lambda>s2. ReleaseSpanToPageCache span s2)
                  else Inr s1) (\<lambda>s3.
             release_loop fuel nxt s3)))))))"

definition ReleaseListToSpans :: "nat \<Rightarrow> nat \<Rightarrow> nat \<Rightarrow> Pool \<Rightarrow> Pool res" where
  "ReleaseListToSpans fuel start sz s =
     rbind (Index sz) (\<lambda>index. rbind (at (central_heads s) index) (\<lambda>_. release_loop fuel start s))"

subsection \<open>Thread cache\<close>

type_synonym ThreadCache = "Freelist list"

definition new_ThreadCache :: ThreadCache where
  "new_ThreadCache = replicate NLISTS new_Freelist"

definition FetchFromCentralCache :: "nat \<Rightarrow> nat \<Rightarrow> ThreadCache \<Rightarrow> Pool \<Rightarrow> (nat \<times> ThreadCache \<times> Pool) res" where
  "FetchFromCentralCache index sz tc s =
     rbind (at tc index) (\<lambda>f.
       let maxsize = fl_maxsize f; numtomove = min (NumMoveSize sz) maxsize
       in rbind (FetchRangeObj numtomove sz s) (\<lambda>((batchsize, start, fin), s1).
          rbind (if batchsize > 1
                 then rbind (NEXT_OBJ start (mem s1)) (\<lambda>nxt. PushRange nxt fin (batchsize - 1) f (mem s1))
                 else Inr (f, mem s1)) (\<lambda>(f1, m1).
            let f2 = (if batchsize \<ge> fl_maxsize f1 then f1\<lparr>fl_maxsize := maxsize + 1\<rparr> else f1)
            in Inr (start, tc[index := f2], s1\<lparr>mem := m1\<rparr>))))"

definition ListTooLong :: "nat \<Rightarrow> nat \<Rightarrow> ThreadCache \<Rightarrow> Pool \<Rightarrow> (ThreadCache \<times> Pool) res" where
  "ListTooLong index sz tc s =
     rbind (at tc index) (\<lambda>f. let (start, f1) = PopRange f
       in rbind (ReleaseListToSpans (fl_size f) start sz s) (\<lambda>s1. Inr (tc[index := f1], s1)))"

definition Allocate :: "nat \<Rightarrow> ThreadCache \<Rightarrow> Pool \<Rightarrow> (nat \<times> ThreadCache \<times> Pool) res" where
  "Allocate sz tc s =
     rbind (Index sz) (\<lambda>index. rbind (at tc index) (\<lambda>f.
       if fl_list f \<noteq> 0
       then rbind (Pop f (mem s)) (\<lambda>(obj, f1). Inr (obj, tc[index := f1], s))
       else rbind (Roundup sz) (\<lambda>r. FetchFromCentralCache index r tc s)))"

definition Deallocate :: "nat \<Rightarrow> nat \<Rightarrow> ThreadCache \<Rightarrow> Pool \<Rightarrow> (ThreadCache \<times> Pool) res" where
  "Deallocate ptr sz tc s =
     rbind (Index sz) (\<lambda>index. rbind (at tc index) (\<lambda>f.
       rbind (Push ptr f (mem s)) (\<lambda>(f1, m1).
         let tc1 = tc[index := f1]; s1 = s\<lparr>mem := m1\<rparr>
         in if fl_size f1 \<ge> fl_maxsize f1 then ListTooLong index sz tc1 s1 else Inr (tc1, s1))))"

subsection \<open>Entry points\<close>

text \<open>The thread's cache is created on its first small allocation.\<close>

definition ConcurrentAlloc :: "nat \<Rightarrow> ThreadCache option \<Rightarrow> Pool \<Rightarrow> (nat \<times> ThreadCache option \<times> Pool) res" where
  "ConcurrentAlloc sz tls s =
     (if sz > MAX_BYTES
      then rbind (AllocBigPageObj sz s) (\<lambda>(span, s1). rbind (rd span s1) (\<lambda>x. Inr (addr_of (pageid x), tls, s1)))
      else rbind (Allocate sz (case tls of None \<Rightarrow> new_ThreadCache | Some tc \<Rightarrow> tc) s)
             (\<lambda>(p, tc, s1). Inr (p, Some tc, s1)))"

definition ConcurrentFree :: "nat \<Rightarrow> ThreadCache option \<Rightarrow> Pool \<Rightarrow> (ThreadCache option \<times> Pool) res" where
  "ConcurrentFree ptr tls s =
     rbind (MapObjectToSpan ptr s) (\<lambda>span. rbind (rd span s) (\<lambda>x.
       let sz = objsize x
       in if sz > MAX_BYTES then rbind (FreeBigPageObj ptr span s) (\<lambda>s1. Inr (tls, s1))
          else case tls of
                 None \<Rightarrow> Inl BadAccess
               | Some tc \<Rightarrow> rbind (Deallocate ptr sz tc s) (\<lambda>(tc1, s1). Inr (Some tc1, s1))))"

section \<open>Chains of free objects\<close>

fun chain :: "(nat \<Rightarrow> nat) \<Rightarrow> nat \<Rightarrow> nat list \<Rightarrow> bool" where
  "chain m p [] \<longleftrightarrow> p = 0"
| "chain m p (x # xs) \<longleftrightarrow> p = x \<and> x \<noteq> 0 \<and> chain m (m x) xs"

text \<open>A free list represents a list of distinct objects, counts them, and does not wrap.\<close>

definition fl_rep :: "(nat \<Rightarrow> nat) \<Rightarrow> Freelist \<Rightarrow> nat list \<Rightarrow> bool" where
  "fl_rep m f xs \<longleftrightarrow> chain m (fl_list f) xs \<and> distinct xs \<and> fl_size f = length xs \<and> length xs < 2 ^ 64"

lemma chain_upd: "chain m p xs \<Longrightarrow> q \<notin> set xs \<Longrightarrow> chain (m(q := v)) p xs"
  by (induction xs arbitrary: p) auto

lemma Push_ok:
  assumes "fl_rep m f xs" "obj \<noteq> 0" "obj \<notin> set xs" "length xs + 1 < 2 ^ 64"
  shows "\<exists>f1 m1. Push obj f m = Inr (f1, m1) \<and> fl_rep m1 f1 (obj # xs) \<and> fl_maxsize f1 = fl_maxsize f"
  using assms chain_upd by (auto simp: Push_def set_NEXT_def fl_rep_def)

lemma Pop_ok:
  assumes "fl_rep m f (x # xs)"
  shows "\<exists>f1. Pop f m = Inr (x, f1) \<and> fl_rep m f1 xs \<and> fl_maxsize f1 = fl_maxsize f"
  using assms by (auto simp: Pop_def NEXT_OBJ_def fl_rep_def size_sub_small)

text \<open>Walking down a chain takes as many objects as wanted, or all there are.\<close>

lemma fetch_loop_ok:
  assumes "chain m cur xs" "xs \<noteq> []" "1 \<le> n"
  shows "fetch_loop n prev cur b m =
    Inr (b + min n (length xs), last (take n xs), if n < length xs then xs ! n else 0) \<and>
    chain m (if n < length xs then xs ! n else 0) (drop n xs)"
  using assms
proof (induction n arbitrary: prev cur b xs)
  case (Suc n)
  then obtain x ys where xs: "xs = x # ys" "cur = x" "x \<noteq> 0" "chain m (m x) ys" by (cases xs) auto
  show ?case
  proof (cases ys)
    case Nil
    with xs show ?thesis by (simp add: NEXT_OBJ_def)
  next
    case (Cons y zs)
    with xs have y: "m x = y" "y \<noteq> 0" by auto
    show ?thesis
    proof (cases "n = 0")
      case True
      with xs Cons y show ?thesis by (simp add: NEXT_OBJ_def)
    next
      case False
      with Suc.IH [OF xs(4), of x "b + 1"] xs Cons y show ?thesis by (auto simp: NEXT_OBJ_def min_def)
    qed
  qed
qed simp

section \<open>Carving a span into objects\<close>

lemma carve_links:
  "1 \<le> bs \<Longrightarrow> 1 \<le> cur \<Longrightarrow> cur < fin \<Longrightarrow> fin - cur < fuel \<Longrightarrow> k = (fin - cur - 1) div bs \<Longrightarrow>
     \<exists>m1. carve fuel cur bs fin m = Inr (cur + k * bs, m1) \<and> (\<forall>i < k. m1 (cur + i * bs) = cur + (i + 1) * bs) \<and>
       (\<forall>p. (\<forall>i < k. p \<noteq> cur + i * bs) \<longrightarrow> m1 p = m p)"
proof (induction fuel arbitrary: cur m k)
  case (Suc fuel)
  show ?case
  proof (cases "cur + bs < fin")
    case False
    with Suc.prems have "k = 0" by simp
    with False show ?thesis by simp
  next
    case True
    let ?k = "(fin - (cur + bs) - 1) div bs"
    have k: "k = Suc ?k" using True Suc.prems(1,5) le_div_geq [of bs "fin - cur - 1"] by simp
    have "1 \<le> cur + bs" "fin - (cur + bs) < fuel" using True Suc.prems(1,2,4) by linarith+
    from Suc.IH [OF Suc.prems(1) this(1) True this(2) refl, of "m(cur := cur + bs)"] obtain m1 where
      m1: "carve fuel (cur + bs) bs fin (m(cur := cur + bs)) = Inr (cur + bs + ?k * bs, m1)"
      "\<forall>i < ?k. m1 (cur + bs + i * bs) = cur + bs + (i + 1) * bs"
      "\<forall>p. (\<forall>i < ?k. p \<noteq> cur + bs + i * bs) \<longrightarrow> m1 p = (m(cur := cur + bs)) p" by blast
    have "m1 cur = cur + bs" using m1(3) Suc.prems(1) by simp
    then have "m1 (cur + i * bs) = cur + (i + 1) * bs" if "i < k" for i
      using that m1(2) k by (cases i) (auto simp: algebra_simps)
    moreover have "m1 p = m p" if p: "\<forall>i < k. p \<noteq> cur + i * bs" for p
    proof -
      have "p \<noteq> cur" using p k by (auto dest: spec [of _ 0])
      moreover have "p \<noteq> cur + bs + i * bs" if "i < ?k" for i
        using p [rule_format, of "Suc i"] that k by (simp add: algebra_simps)
      ultimately show ?thesis using m1(3) by simp
    qed
    ultimately show ?thesis using m1(1) True k Suc.prems(2) by (auto simp: set_NEXT_def Let_def algebra_simps)
  qed
qed simp

definition objects :: "nat \<Rightarrow> nat \<Rightarrow> nat \<Rightarrow> nat list" where
  "objects base bs n = map (\<lambda>i. base + i * bs) [0..<n]"

lemma chain_objects:
  assumes "\<forall>i < k. m (base + i * bs) = base + (i + 1) * bs" "m (base + k * bs) = 0" "1 \<le> base" "j \<le> k"
  shows "chain m (base + j * bs) (map (\<lambda>i. base + i * bs) [j..<Suc k])"
  using assms(4)
proof (induction "k - j" arbitrary: j)
  case 0
  with assms(2,3) show ?case by simp
next
  case (Suc d)
  then have j: "j < k" by simp
  with Suc.hyps(1) [of "Suc j"] Suc.hyps(2) have "chain m (base + Suc j * bs) (map (\<lambda>i. base + i * bs) [Suc j..<Suc k])" by simp
  with j assms(1,3) show ?case by (simp add: upt_conv_Cons [of j "Suc k"] del: upt_Suc)
qed

text \<open>
  C29. Carving a span of \<open>len\<close> bytes into objects of \<open>bs\<close> bytes: the loop ends and chains
  \<open>(len - 1) div bs + 1\<close> objects one behind the other. All of them but the last lie inside
  the span; the last one does only if the size divides the length of the span, and otherwise
  reaches over its end.
\<close>

theorem carve_objects:
  assumes "1 \<le> bs" "1 \<le> base" "1 \<le> len"
  shows "\<exists>lst m1 m2. carve (len + 1) base bs (base + len) m = Inr (lst, m1) \<and> set_NEXT lst 0 m1 = Inr m2 \<and>
    chain m2 base (objects base bs ((len - 1) div bs + 1)) \<and>
    (\<forall>x \<in> set (butlast (objects base bs ((len - 1) div bs + 1))). base \<le> x \<and> x + bs \<le> base + len) \<and>
    (lst + bs \<le> base + len \<longleftrightarrow> bs dvd len)"
proof -
  define k where "k = (len - 1) div bs"
  have kl: "k * bs \<le> len - 1" "len - 1 < (k + 1) * bs"
    using div_mult_mod_eq [of "len - 1" bs] dividend_less_div_times [of bs "len - 1"] assms(1) by (auto simp: k_def)
  have k: "k = (base + len - base - 1) div bs" by (simp add: k_def)
  have "base < base + len" "base + len - base < len + 1" using assms(3) by simp_all
  from carve_links [OF assms(1,2) this k, of m] obtain m1 where m1: "carve (len + 1) base bs (base + len) m = Inr (base + k * bs, m1)"
    "\<forall>i < k. m1 (base + i * bs) = base + (i + 1) * bs" by blast
  let ?m2 = "m1(base + k * bs := 0)"
  have "\<forall>i < k. ?m2 (base + i * bs) = base + (i + 1) * bs" using m1(2) assms(1) by auto
  then have "chain ?m2 base (objects base bs (k + 1))"
    using chain_objects [of k ?m2 base bs 0] assms(2) by (simp add: objects_def)
  moreover have "butlast (objects base bs (k + 1)) = objects base bs k" by (simp add: objects_def)
  moreover have "x + bs \<le> base + len" "base \<le> x" if "x \<in> set (objects base bs k)" for x
  proof -
    from that have "\<exists>i < k. x = base + i * bs" by (auto simp: objects_def)
    then obtain i where "x = base + i * bs" "i < k" by blast
    then have i: "x = base + i * bs" "i + 1 \<le> k" by simp_all
    from mult_right_mono [OF i(2), of bs] kl(1) i(1) show "x + bs \<le> base + len" "base \<le> x" by auto
  qed
  moreover have "base + k * bs + bs \<le> base + len \<longleftrightarrow> bs dvd len"
  proof
    assume "base + k * bs + bs \<le> base + len"
    with kl assms(3) have "len = (k + 1) * bs" by (simp add: algebra_simps)
    then show "bs dvd len" by simp
  next
    assume "bs dvd len"
    then obtain c where c: "len = c * bs" by (metis dvdE mult.commute)
    with kl(1) assms(3) have "k * bs < c * bs" by linarith
    then have "k < c" by simp
    then have "(k + 1) * bs \<le> c * bs" by (intro mult_right_mono) simp_all
    with c show "base + k * bs + bs \<le> base + len" by simp
  qed
  moreover have "set_NEXT (base + k * bs) 0 m1 = Inr ?m2" using assms(2) by (simp add: set_NEXT_def)
  ultimately show ?thesis unfolding k_def [symmetric] using m1(1)
    by (intro exI [of _ "base + k * bs"] exI [of _ m1] exI [of _ ?m2]) (simp del: carve.simps)
qed

theorem carve_objects_witness:
  "\<exists>lst m1 m2. carve 4097 4096 2048 8192 (\<lambda>_. 0) = Inr (lst, m1) \<and> set_NEXT lst 0 m1 = Inr m2 \<and>
     chain m2 4096 [4096, 6144] \<and> lst + 2048 \<le> 8192"
proof -
  have "objects 4096 2048 ((4096 - 1) div 2048 + 1) = [4096, 6144]" by (simp add: objects_def)
  moreover have "(2048 :: nat) dvd 4096" by simp
  ultimately show ?thesis using carve_objects [of 2048 4096 4096 "\<lambda>_. 0"] by auto
qed

text \<open>
  C37. The overrun happens: the central cache requests 15 pages for objects of 144 bytes (the
  second class above 128 bytes), and wherever they lie, the last object chained reaches 48
  bytes beyond them, into memory that belongs to another span.
\<close>

theorem last_object_overruns:
  "NumMovePage 144 = 15 \<and>
   (\<forall>base \<ge> 1. \<exists>lst m1. carve (addr_of 15 + 1) base 144 (base + addr_of 15) m = Inr (lst, m1) \<and>
     lst + 144 = base + addr_of 15 + 48)"
proof -
  have "(base + 61440 - base - 1) div 144 = 426" for base :: nat by simp
  then have "\<exists>lst m1. carve 61441 base 144 (base + 61440) m = Inr (lst, m1) \<and> lst + 144 = base + 61440 + 48"
    if "1 \<le> base" for base
    using carve_links [of 144 base "base + 61440" 61441 426 m] that by auto
  moreover have "addr_of 15 = 61440" by (simp add: addr_of_def push_bit_eq_mult PAGE_SHIFT_def)
  moreover have "NumMovePage 144 = 15"
    by (simp add: NumMovePage_def NumMoveSize_def MAX_BYTES_def PAGE_SHIFT_def drop_bit_eq_div)
  ultimately show ?thesis by simp
qed

theorem last_object_overruns_witness:
  "\<exists>lst m1. carve (addr_of 15 + 1) 4096 144 (4096 + addr_of 15) (\<lambda>_. 0) = Inr (lst, m1) \<and>
     lst + 144 = 4096 + addr_of 15 + 48"
  using last_object_overruns [of "\<lambda>_. 0"] by (auto dest!: spec [of _ 4096])

section \<open>Moving objects between the caches\<close>

text \<open>
  C27. A batch from the central cache: when a span with free objects is found, the call takes
  as many of them as wanted, or all there are, off its chain, reports the first and the last
  of them, raises the use count of the span by that number, and moves an exhausted span to the
  end of its list.
\<close>

theorem fetch_range_ok:
  assumes "Index bs = Inr i" "at (central_heads s) i = Inr h" "GetOneSpan h bs s = Inr (span, s1)"
    and "spans s1 span = Some x" "chain (mem s1) (slist x) xs" "xs \<noteq> []" "1 \<le> n"
    and "dll s1 h ys" "span \<in> set ys"
  shows "\<exists>s2 y. FetchRangeObj n bs s = Inr ((min n (length xs), hd xs, last (take n xs)), s2) \<and>
    spans s2 span = Some y \<and> usecount y = usecount x + min n (length xs) \<and>
    chain (mem s2) (slist y) (drop n xs) \<and>
    dll s2 h (if n < length xs then ys else remove1 span ys @ [span])"
proof -
  let ?c = "if n < length xs then xs ! n else 0"
  from fetch_loop_ok [OF assms(5,6,7), of 0 0] have fl: "fetch_loop n 0 (slist x) 0 (mem s1) =
      Inr (min n (length xs), last (take n xs), ?c)" and ch: "chain (mem s1) ?c (drop n xs)" by auto
  have hd: "slist x = hd xs" using assms(5,6) by (cases xs) auto
  let ?y = "x\<lparr>slist := ?c, usecount := usecount x + min n (length xs)\<rparr>"
  let ?s2 = "s1\<lparr>spans := (spans s1)(span \<mapsto> ?y)\<rparr>"
  have w: "wr span (\<lambda>y. y\<lparr>slist := ?c, usecount := usecount y + min n (length xs)\<rparr>) s1 = Inr ?s2"
    using assms(4) by (simp add: wr_def rd_def)
  have d2: "dll ?s2 h ys" by (rule dll_frame [OF assms(8)]) (use assms(4) in \<open>auto simp: nx_def pv_def\<close>)
  have c0: "?c = 0 \<longleftrightarrow> \<not> n < length xs"
    using ch by (cases "n < length xs") (auto simp: Cons_nth_drop_Suc [symmetric])
  have call: "FetchRangeObj n bs s = rbind (if ?c = 0 then rbind (Erase span ?s2) (\<lambda>s3. PushBack h span s3) else Inr ?s2)
      (\<lambda>s4. Inr ((min n (length xs), hd xs, last (take n xs)), s4))"
    using assms(1-4) fl w hd by (simp add: FetchRangeObj_def rd_def)
  show ?thesis
  proof (cases "n < length xs")
    case True
    with call c0 ch d2 show ?thesis by auto
  next
    case False
    from assms(9) obtain as zs where ys: "ys = as @ span # zs" "span \<notin> set as" by (auto dest: split_list_first)
    from dll_erase [of ?s2 h as span zs] d2 ys obtain s3 where s3: "Erase span ?s2 = Inr s3" "relinked ?s2 s3"
      "dll s3 h (as @ zs)" by auto
    have "span \<notin> set (h # as @ zs)" using d2 ys by (auto simp: dll_def)
    moreover have "spans s3 span \<noteq> None" using spans_dom [OF s3(2), of span] by simp
    ultimately obtain s4 where s4: "PushBack h span s3 = Inr s4" "relinked s3 s4" "dll s4 h ((as @ zs) @ [span])"
      using PushBack_ok [OF s3(3), of span] by blast
    from relinked_span [OF relinked_trans [OF s3(2) s4(2)], of span ?y] obtain y where
      y: "spans s4 span = Some y" "usecount y = usecount ?y" "slist y = slist ?y" by auto
    have "mem s4 = mem s1" using relinked_fields(5) [OF s4(2)] relinked_fields(5) [OF s3(2)] by simp
    with call c0 False s3(1) s4 y ch ys show ?thesis by (auto simp: remove1_append)
  qed
qed

definition small_pool :: Pool where
  "small_pool = empty_pool\<lparr>
     spans := [1 \<mapsto> \<lparr>pageid = 0, npage = 0, sprev = 2, snext = 2, slist = 0, objsize = 0, usecount = 0\<rparr>,
               2 \<mapsto> \<lparr>pageid = 1, npage = 1, sprev = 1, snext = 1, slist = 4096, objsize = 8, usecount = 3\<rparr>],
     central_heads := [1], next_addr := 3, mem := (\<lambda>_. 0)(4096 := 4104, 4104 := 4112)\<rparr>"

theorem fetch_range_ok_witness:
  "\<exists>s2 y. FetchRangeObj 2 8 small_pool = Inr ((2, 4096, 4104), s2) \<and> spans s2 2 = Some y \<and> usecount y = 5 \<and>
     chain (mem s2) (slist y) [4112]"
proof -
  have i: "Index 8 = Inr 0" by (simp add: Index_def MAX_BYTES_def index_in_eq)
  have g: "GetOneSpan 1 8 small_pool = Inr (2, small_pool)"
  proof -
    have "find_span (Suc 3) 1 2 small_pool = Inr (Some 2)"
      by (subst find_span.simps) (simp add: rd_def small_pool_def End_def)
    moreover have "Begin 1 small_pool = Inr 2" "next_addr small_pool = 3"
      by (simp_all add: Begin_def rd_def small_pool_def)
    ultimately show ?thesis by (simp add: GetOneSpan_def)
  qed
  have c: "chain (mem small_pool) 4096 [4096, 4104, 4112]" by (simp add: small_pool_def)
  have d: "dll small_pool 1 [2]" by (simp add: dll_def nx_def pv_def small_pool_def)
  show ?thesis
    using fetch_range_ok [OF i _ g, of "\<lparr>pageid = 1, npage = 1, sprev = 1, snext = 1, slist = 4096, objsize = 8,
        usecount = 3\<rparr>" "[4096, 4104, 4112]" 2 "[2]"] c d
    by (auto simp: small_pool_def)
qed

text \<open>
  C28. A thread gets back what it freed last: freeing an object into a list of the thread cache
  that is not full and then allocating an object of that size returns the same object, without
  touching the shared caches, and leaves the list as it was.
\<close>

theorem free_then_alloc:
  assumes "Index sz = Inr i" "i < length tc" "fl_rep (mem s) (tc ! i) xs" "ptr \<noteq> 0" "ptr \<notin> set xs"
    and "length xs + 1 < fl_maxsize (tc ! i)" "fl_maxsize (tc ! i) < 2 ^ 64"
  shows "\<exists>tc1 s1 tc2. Deallocate ptr sz tc s = Inr (tc1, s1) \<and> Allocate sz tc1 s1 = Inr (ptr, tc2, s1) \<and>
    spans s1 = spans s \<and> idspanmap s1 = idspanmap s \<and> fl_rep (mem s1) (tc2 ! i) xs"
proof -
  have "length xs + 1 < 2 ^ 64" using assms(6,7) by linarith
  from Push_ok [OF assms(3-5) this] obtain f1 m1 where
    p: "Push ptr (tc ! i) (mem s) = Inr (f1, m1)" "fl_rep m1 f1 (ptr # xs)" "fl_maxsize f1 = fl_maxsize (tc ! i)" by blast
  from Pop_ok [OF p(2)] obtain f2 where q: "Pop f1 m1 = Inr (ptr, f2)" "fl_rep m1 f2 xs" by blast
  have "fl_size f1 < fl_maxsize f1" "fl_list f1 \<noteq> 0" using p(2,3) assms(6) by (auto simp: fl_rep_def)
  with p q assms(1,2) show ?thesis
    by (auto simp: Deallocate_def Allocate_def Let_def)
qed

theorem free_then_alloc_witness:
  "\<exists>tc1 s1 tc2. Deallocate 4112 8 [new_Freelist\<lparr>fl_maxsize := 4\<rparr>] empty_pool = Inr (tc1, s1) \<and>
     Allocate 8 tc1 s1 = Inr (4112, tc2, s1)"
proof -
  have i: "Index 8 = Inr 0" by (simp add: Index_def MAX_BYTES_def index_in_eq)
  have "fl_rep (mem empty_pool) ([new_Freelist\<lparr>fl_maxsize := 4\<rparr>] ! 0) []" by (simp add: fl_rep_def new_Freelist_def)
  from free_then_alloc [OF i _ this, of 4112] show ?thesis by (auto simp: new_Freelist_def)
qed

end
