(* ===== verification/Spec2Isabelle.thy ===== *)
theory Spec2Isabelle
  imports Net_Http Kv_Handoff Pool_Cache
begin

end
